(* ===== verification/Prelude.thy ===== *)
theory Prelude
  imports Main "HOL-Library.Word"
begin

text \<open>
  Shared vocabulary of the development: bytes and fixed-width integers as byte strings, the
  I/O errors of the Rust code as values, reading from a byte stream, Rust's clamp and absolute
  difference, and three interfaces every component below instantiates: \<open>stream_codec\<close>
  (a writer and a reader of one wire format), \<open>invariant_system\<close> (a step relation with an
  inductive invariant) and \<open>simulation\<close> (a concrete step relation implementing an abstract one).

  The release profile of the workspace (Cargo.toml) sets overflow-checks and panic = abort.
  An arithmetic overflow, an index out of range, a failed assert or an unwrap of nothing
  therefore ends the process; functions of the model that can panic return an option, and
  None is the panic.
\<close>

named_theorems codec_simps \<open>facts that evaluate writers and readers of wire formats\<close>
named_theorems io_simps \<open>facts that unfold the result and stream primitives\<close>

type_synonym byte = "8 word"
type_synonym bytes = "byte list"
type_synonym u16 = "16 word"
type_synonym u32 = "32 word"
type_synonym u64 = "64 word"

section \<open>Errors\<close>

datatype error_kind =
    UnexpectedEof | InvalidData | BrokenPipe | WouldBlock | TimedOut | NotConnected
  | ConnectionRefused | AlreadyExists | OtherKind

datatype io_error = IoError (kind: error_kind) (message: string)

text \<open>The question-mark operator: continue with the value, return the error.\<close>

definition result_bind :: "'e + 'a \<Rightarrow> ('a \<Rightarrow> 'e + 'b) \<Rightarrow> 'e + 'b" where
  "result_bind r f = (case r of Inl e \<Rightarrow> Inl e | Inr x \<Rightarrow> f x)"

lemma result_bind_simps [simp]:
  "result_bind (Inl e) f = Inl e"
  "result_bind (Inr x) f = f x"
  by (simp_all add: result_bind_def)

lemma result_bind_Inr_iff:
  "result_bind r f = Inr y \<longleftrightarrow> (\<exists>x. r = Inr x \<and> f x = Inr y)"
  by (cases r) simp_all

lemma result_bind_cong [fundef_cong]:
  assumes "r = r'" and "\<And>x. r' = Inr x \<Longrightarrow> f x = f' x"
  shows "result_bind r f = result_bind r' f'"
  using assms by (cases r') simp_all

lemma map_sum_Inr_iff: "map_sum f g r = Inr y \<longleftrightarrow> (\<exists>x. r = Inr x \<and> y = g x)"
  by (cases r) auto

definition ok_or :: "'e \<Rightarrow> 'a option \<Rightarrow> 'e + 'a" where
  "ok_or e r = (case r of None \<Rightarrow> Inl e | Some x \<Rightarrow> Inr x)"

lemma ok_or_simps [simp]:
  "ok_or e None = Inl e"
  "ok_or e (Some x) = Inr x"
  by (simp_all add: ok_or_def)

lemma ok_or_Inr_iff [simp]: "ok_or e r = Inr x \<longleftrightarrow> r = Some x"
  by (cases r) simp_all

text \<open>What a poll function answers.\<close>

datatype 'a poll = Pending | Ready "io_error + 'a"

section \<open>Numbers\<close>

definition clamp :: "'a::linorder \<Rightarrow> 'a \<Rightarrow> 'a \<Rightarrow> 'a" where
  "clamp lo hi x = (if x < lo then lo else if hi < x then hi else x)"

lemma clamp_bounds: "lo \<le> hi \<Longrightarrow> lo \<le> clamp lo hi x \<and> clamp lo hi x \<le> hi"
  by (auto simp: clamp_def)

definition abs_diff :: "nat \<Rightarrow> nat \<Rightarrow> nat" where
  "abs_diff a b = (if a < b then b - a else a - b)"

lemma abs_diff_le_iff: "abs_diff a b \<le> d \<longleftrightarrow> a \<le> b + d \<and> b \<le> a + d"
  by (auto simp: abs_diff_def)

text \<open>The usize, u64 and u32 additions that panic on overflow.\<close>

definition checked_sub :: "nat \<Rightarrow> nat \<Rightarrow> nat option" where
  "checked_sub a b = (if b \<le> a then Some (a - b) else None)"

lemma checked_sub_simps [simp]:
  "b \<le> a \<Longrightarrow> checked_sub a b = Some (a - b)"
  "a < b \<Longrightarrow> checked_sub a b = None"
  by (simp_all add: checked_sub_def)

section \<open>Integers as byte strings\<close>

lemma unat_byte_less [simp]: "unat (b :: byte) < 256"
  using unsigned_less [of b, where ?'a = nat] by simp

fun le_bytes :: "nat \<Rightarrow> nat \<Rightarrow> bytes" where
  "le_bytes 0 v = []"
| "le_bytes (Suc n) v = word_of_nat (v mod 256) # le_bytes n (v div 256)"

fun of_le_bytes :: "bytes \<Rightarrow> nat" where
  "of_le_bytes [] = 0"
| "of_le_bytes (b # bs) = unat b + 256 * of_le_bytes bs"

definition be_bytes :: "nat \<Rightarrow> nat \<Rightarrow> bytes" where
  "be_bytes n v = rev (le_bytes n v)"

definition of_be_bytes :: "bytes \<Rightarrow> nat" where
  "of_be_bytes bs = of_le_bytes (rev bs)"

lemma length_le_bytes [simp]: "length (le_bytes n v) = n"
  by (induction n arbitrary: v) simp_all

lemma le_bytes_numeral:
  "le_bytes (numeral k) v = word_of_nat (v mod 256) # le_bytes (pred_numeral k) (v div 256)"
  by (metis le_bytes.simps(2) numeral_eq_Suc)

lemma length_be_bytes [simp]: "length (be_bytes n v) = n"
  by (simp add: be_bytes_def)

lemma of_le_bytes_le_bytes [codec_simps]: "of_le_bytes (le_bytes n v) = v mod 256 ^ n"
proof (induction n arbitrary: v)
  case 0
  then show ?case by simp
next
  case (Suc n)
  have "of_le_bytes (le_bytes (Suc n) v) = v mod 256 + 256 * (v div 256 mod 256 ^ n)"
    using Suc by (simp add: unat_of_nat)
  also have "\<dots> = v mod 256 ^ Suc n"
    by (simp add: mod_mult2_eq)
  finally show ?case .
qed

lemma of_be_bytes_be_bytes [codec_simps]: "of_be_bytes (be_bytes n v) = v mod 256 ^ n"
  by (simp add: of_be_bytes_def be_bytes_def of_le_bytes_le_bytes)

lemma of_le_bytes_bound: "of_le_bytes bs < 256 ^ length bs"
proof (induction bs)
  case Nil
  then show ?case by simp
next
  case (Cons b bs)
  have "unat b < 256" by simp
  with Cons have "unat b + 256 * of_le_bytes bs < 256 * 256 ^ length bs" by linarith
  then show ?case by simp
qed

lemma le_bytes_of_le_bytes [codec_simps]: "le_bytes (length bs) (of_le_bytes bs) = bs"
proof (induction bs)
  case Nil
  then show ?case by simp
next
  case (Cons b bs)
  have "unat b < 256" by simp
  with Cons show ?case by simp
qed

definition u16_le :: "u16 \<Rightarrow> bytes" where
  "u16_le w = le_bytes 2 (unat w)"

definition u16_of_le :: "bytes \<Rightarrow> u16" where
  "u16_of_le bs = word_of_nat (of_le_bytes bs)"

definition u32_le :: "u32 \<Rightarrow> bytes" where
  "u32_le w = le_bytes 4 (unat w)"

definition u32_of_le :: "bytes \<Rightarrow> u32" where
  "u32_of_le bs = word_of_nat (of_le_bytes bs)"

definition u64_be :: "u64 \<Rightarrow> bytes" where
  "u64_be w = be_bytes 8 (unat w)"

definition u64_of_be :: "bytes \<Rightarrow> u64" where
  "u64_of_be bs = word_of_nat (of_be_bytes bs)"

definition u64_le :: "u64 \<Rightarrow> bytes" where
  "u64_le w = le_bytes 8 (unat w)"

lemma length_word_bytes [simp]:
  "length (u16_le w) = 2" "length (u32_le x) = 4" "length (u64_be y) = 8" "length (u64_le z) = 8"
  by (simp_all add: u16_le_def u32_le_def u64_be_def u64_le_def)

lemma unat_mod_pow [simp]:
  "unat (a :: u16) mod 65536 = unat a"
  "unat (b :: u32) mod 4294967296 = unat b"
  "unat (c :: u64) mod 18446744073709551616 = unat c"
  using unsigned_less [of a, where ?'a = nat] unsigned_less [of b, where ?'a = nat]
    unsigned_less [of c, where ?'a = nat] by simp_all

lemma word_bytes_roundtrip [codec_simps]:
  "u16_of_le (u16_le w) = w" "u32_of_le (u32_le x) = x" "u64_of_be (u64_be y) = y"
  by (simp_all add: u16_of_le_def u16_le_def u32_of_le_def u32_le_def u64_of_be_def u64_be_def
      codec_simps)

lemma u64_le_inject [simp]: "u64_le a = u64_le b \<longleftrightarrow> a = b"
proof
  assume "u64_le a = u64_le b"
  then have "of_le_bytes (u64_le a) = of_le_bytes (u64_le b)" by simp
  then show "a = b" by (simp add: u64_le_def codec_simps word_unat_eq_iff)
qed simp

lemma find_SomeD: "find P xs = Some x \<Longrightarrow> x \<in> set xs \<and> P x"
  by (induction xs) (auto split: if_splits)

section \<open>Text\<close>

text \<open>
  \<open>split_once\<close> and \<open>rsplit_once\<close> of str, the u16 parser of std and the hex crate's encoder.
\<close>

fun split_once :: "char \<Rightarrow> string \<Rightarrow> (string \<times> string) option" where
  "split_once c [] = None"
| "split_once c (x # xs) =
     (if x = c then Some ([], xs) else map_option (\<lambda>(a, b). (x # a, b)) (split_once c xs))"

definition rsplit_once :: "char \<Rightarrow> string \<Rightarrow> (string \<times> string) option" where
  "rsplit_once c s = map_option (\<lambda>(a, b). (rev b, rev a)) (split_once c (rev s))"

definition newline :: char where
  "newline = CHR 0x0A"

lemma split_once_first: "c \<notin> set a \<Longrightarrow> split_once c (a @ c # b) = Some (a, b)"
  by (induction a) auto

lemma rsplit_once_last [simp]: "c \<notin> set b \<Longrightarrow> rsplit_once c (a @ c # b) = Some (a, b)"
  by (simp add: rsplit_once_def split_once_first)

definition digits_value :: "string \<Rightarrow> nat" where
  "digits_value ds = foldl (\<lambda>v d. 10 * v + (of_char d - 48)) 0 ds"

definition is_digit :: "char \<Rightarrow> bool" where
  "is_digit d \<longleftrightarrow> 48 \<le> (of_char d :: nat) \<and> of_char d \<le> (57 :: nat)"

definition parse_uint :: "nat \<Rightarrow> string \<Rightarrow> nat option" where
  "parse_uint bits s =
     (let ds = (if s \<noteq> [] \<and> hd s = CHR ''+'' then tl s else s)
      in if ds \<noteq> [] \<and> list_all is_digit ds \<and> digits_value ds < 2 ^ bits then Some (digits_value ds) else None)"

definition parse_u16 :: "string \<Rightarrow> u16 option" where
  "parse_u16 s = map_option word_of_nat (parse_uint 16 s)"

text \<open>\<open>split\<close> of str by a character: one part more than there are separators.\<close>

fun split_on :: "char \<Rightarrow> string \<Rightarrow> string list" where
  "split_on c [] = [[]]"
| "split_on c (x # xs) =
     (if x = c then [] # split_on c xs else (x # hd (split_on c xs)) # tl (split_on c xs))"

lemma split_on_part [simp]:
  "c \<notin> set a \<Longrightarrow> split_on c (a @ c # b) = a # split_on c b"
  "c \<notin> set a \<Longrightarrow> split_on c a = [a]"
  by (induction a) auto

text \<open>Decimal digits, as the formatting macros write them.\<close>

fun nat_str :: "nat \<Rightarrow> string" where
  "nat_str n = (if n < 10 then [char_of (48 + n)] else nat_str (n div 10) @ [char_of (48 + n mod 10)])"

declare nat_str.simps [simp del]

lemma digits_value_nat_str [simp]: "digits_value (nat_str n) = n"
proof (induction n rule: nat_str.induct)
  case (1 n)
  then show ?case
    by (subst nat_str.simps) (auto simp: digits_value_def)
qed

lemma is_digit_char_of: "k < 10 \<Longrightarrow> is_digit (char_of (48 + k :: nat))"
  by (simp add: is_digit_def)

lemma nat_str_digits: "list_all is_digit (nat_str n) \<and> nat_str n \<noteq> []"
proof (induction n rule: nat_str.induct)
  case (1 n)
  then show ?case
    by (subst (1 2) nat_str.simps) (auto simp: is_digit_char_of)
qed

lemma parse_uint_nat_str [simp]: "n < 2 ^ bits \<Longrightarrow> parse_uint bits (nat_str n) = Some n"
proof -
  have "hd (nat_str n) \<noteq> CHR ''+''"
    using nat_str_digits [of n] by (cases "nat_str n") (auto simp: is_digit_def)
  then show "n < 2 ^ bits \<Longrightarrow> parse_uint bits (nat_str n) = Some n"
    using nat_str_digits [of n] by (simp add: parse_uint_def Let_def)
qed

lemma nat_str_no [simp]: "\<not> is_digit c \<Longrightarrow> c \<notin> set (nat_str n)"
  using nat_str_digits [of n] by (auto simp: list_all_iff)

lemma nat_str_inject [simp]: "nat_str a = nat_str b \<longleftrightarrow> a = b"
  by (metis digits_value_nat_str)

definition hex_digit :: "nat \<Rightarrow> char" where
  "hex_digit n = (if n < 10 then char_of (48 + n) else char_of (87 + n))"

definition hex_encode :: "bytes \<Rightarrow> string" where
  "hex_encode bs = concat (map (\<lambda>b. [hex_digit (unat b div 16), hex_digit (unat b mod 16)]) bs)"

definition hex_value :: "char \<Rightarrow> nat option" where
  "hex_value c =
     (let n = of_char c :: nat
      in if 48 \<le> n \<and> n \<le> 57 then Some (n - 48)
         else if 97 \<le> n \<and> n \<le> 102 then Some (n - 87)
         else if 65 \<le> n \<and> n \<le> 70 then Some (n - 55) else None)"

fun hex_decode :: "string \<Rightarrow> bytes option" where
  "hex_decode [] = Some []"
| "hex_decode [c] = None"
| "hex_decode (c # d # cs) =
     Option.bind (hex_value c) (\<lambda>h. Option.bind (hex_value d) (\<lambda>l.
       map_option (\<lambda>bs. word_of_nat (16 * h + l) # bs) (hex_decode cs)))"

lemma hex_value_digit [simp]: "n < 16 \<Longrightarrow> hex_value (hex_digit n) = Some n"
  by (auto simp: hex_digit_def hex_value_def Let_def)

lemma hex_decode_encode [simp]: "hex_decode (hex_encode bs) = Some bs"
proof (induction bs)
  case Nil
  then show ?case by (simp add: hex_encode_def)
next
  case (Cons b bs)
  have "unat b div 16 < 16" using unat_byte_less [of b] by (simp add: div_less_iff_less_mult)
  moreover have "(word_of_nat (16 * (unat b div 16) + unat b mod 16) :: byte) = b"
    by (simp only: mult_div_mod_eq) simp
  then have "16 * word_of_nat (unat b div 16) + word_of_nat (unat b mod 16) = b"
    by (simp only: of_nat_add of_nat_mult of_nat_numeral)
  ultimately show ?case using Cons by (simp add: hex_encode_def)
qed

lemma hex_encode_inject [simp]: "hex_encode a = hex_encode b \<longleftrightarrow> a = b"
  by (metis hex_decode_encode option.inject)

section \<open>Reading from a stream\<close>

text \<open>
  A reader takes the bytes still to come before the peer closes and returns the value and the
  rest. \<open>read_exact\<close> is AsyncReadExt::read_exact: a stream that ends early is UnexpectedEof.
\<close>

definition eof_error :: io_error where
  "eof_error = IoError UnexpectedEof ''failed to fill whole buffer''"

definition read_exact :: "nat \<Rightarrow> bytes \<Rightarrow> io_error + bytes \<times> bytes" where
  "read_exact n bs = (if length bs < n then Inl eof_error else Inr (take n bs, drop n bs))"

lemma read_exact_append [simp, codec_simps]:
  "n = length a \<Longrightarrow> read_exact n (a @ b) = Inr (a, b)"
  by (simp add: read_exact_def)

lemma read_exact_short [simp]: "length bs < n \<Longrightarrow> read_exact n bs = Inl eof_error"
  by (simp add: read_exact_def)

lemma read_exact_Inr_iff:
  "read_exact n bs = Inr (a, r) \<longleftrightarrow> bs = a @ r \<and> length a = n"
  by (auto simp: read_exact_def)

lemma read_exact_Inl_iff: "read_exact n bs = Inl e \<longleftrightarrow> length bs < n \<and> e = eof_error"
  by (auto simp: read_exact_def)

text \<open>Reading a fixed number of consecutive values with one reader.\<close>

fun read_many :: "(bytes \<Rightarrow> io_error + 'a \<times> bytes) \<Rightarrow> nat \<Rightarrow> bytes \<Rightarrow> io_error + 'a list \<times> bytes" where
  "read_many rd 0 bs = Inr ([], bs)"
| "read_many rd (Suc n) bs =
     result_bind (rd bs) (\<lambda>(x, rest).
       result_bind (read_many rd n rest) (\<lambda>(xs, rest'). Inr (x # xs, rest')))"

locale stream_codec =
  fixes enc :: "'a \<Rightarrow> bytes"
    and rd :: "bytes \<Rightarrow> io_error + 'a \<times> bytes"
    and wf :: "'a \<Rightarrow> bool"
  assumes rd_enc: "wf x \<Longrightarrow> rd (enc x @ rest) = Inr (x, rest)"
    and rd_truncated: "wf x \<Longrightarrow> n < length (enc x) \<Longrightarrow> rd (take n (enc x)) = Inl eof_error"
begin

lemma unambiguous:
  assumes "wf x" and "wf y" and "enc x @ r = enc y @ s"
  shows "x = y \<and> r = s"
proof -
  have "rd (enc x @ r) = rd (enc y @ s)" by (simp only: assms(3))
  then show ?thesis by (simp only: rd_enc [OF assms(1)] rd_enc [OF assms(2)]) simp
qed

lemma read_many_encoded:
  "\<forall>x \<in> set xs. wf x \<Longrightarrow>
     read_many rd (length xs) (concat (map enc xs) @ rest) = Inr (xs, rest)"
proof (induction xs)
  case Nil
  then show ?case by simp
next
  case (Cons x xs)
  then show ?case using rd_enc [of x "concat (map enc xs) @ rest"] by simp
qed

lemma read_many_truncated:
  assumes "\<forall>x \<in> set xs. wf x" and "wf y" and "n < length (enc y)"
  shows "read_many rd (Suc (length xs)) (concat (map enc xs) @ take n (enc y)) = Inl eof_error"
  using assms(1)
proof (induction xs)
  case Nil
  then show ?case using rd_truncated [OF assms(2,3)] by simp
next
  case (Cons x xs)
  then have "wf x" by simp
  have "read_many rd (Suc (length (x # xs))) (concat (map enc (x # xs)) @ take n (enc y))
     = result_bind (read_many rd (Suc (length xs)) (concat (map enc xs) @ take n (enc y)))
         (\<lambda>(xs, rest'). Inr (x # xs, rest'))"
    using rd_enc [OF \<open>wf x\<close>] by simp
  also have "\<dots> = Inl eof_error"
    using Cons by simp
  finally show ?case .
qed

end

section \<open>Step relations\<close>

inductive reachable :: "('s \<Rightarrow> bool) \<Rightarrow> ('s \<Rightarrow> 's \<Rightarrow> bool) \<Rightarrow> 's \<Rightarrow> bool"
  for init step where
  reachable_init: "init s \<Longrightarrow> reachable init step s"
| reachable_step: "reachable init step s \<Longrightarrow> step s t \<Longrightarrow> reachable init step t"

lemma reachable_rtranclp:
  assumes "step\<^sup>*\<^sup>* s t" and "reachable init step s"
  shows "reachable init step t"
  using assms by (induction rule: rtranclp_induct) (auto intro: reachable_step)

locale invariant_system =
  fixes init :: "'s \<Rightarrow> bool" and step :: "'s \<Rightarrow> 's \<Rightarrow> bool" and inv :: "'s \<Rightarrow> bool"
  assumes init_inv: "init s \<Longrightarrow> inv s"
    and step_inv: "inv s \<Longrightarrow> step s t \<Longrightarrow> inv t"
begin

lemma reachable_inv: "reachable init step s \<Longrightarrow> inv s"
  by (induction rule: reachable.induct) (auto intro: init_inv step_inv)

lemma run_inv:
  assumes "step\<^sup>*\<^sup>* s t" and "inv s"
  shows "inv t"
  using assms by (induction rule: rtranclp_induct) (auto intro: step_inv)

end

text \<open>
  A concrete system with an invariant that implements an abstract one: each concrete step is
  an abstract step or does not change the abstraction.
\<close>

locale simulation = invariant_system init step inv
  for init :: "'c \<Rightarrow> bool" and step :: "'c \<Rightarrow> 'c \<Rightarrow> bool" and inv :: "'c \<Rightarrow> bool" +
  fixes ainit :: "'a \<Rightarrow> bool" and astep :: "'a \<Rightarrow> 'a \<Rightarrow> bool" and abs :: "'c \<Rightarrow> 'a"
  assumes abs_init: "init s \<Longrightarrow> ainit (abs s)"
    and abs_step: "inv s \<Longrightarrow> step s t \<Longrightarrow> astep (abs s) (abs t) \<or> abs t = abs s"
begin

lemma reachable_abs: "reachable init step s \<Longrightarrow> reachable ainit astep (abs s)"
proof (induction rule: reachable.induct)
  case (reachable_init s)
  then show ?case by (blast intro: reachable.reachable_init abs_init)
next
  case (reachable_step s t)
  from reachable_step.hyps(1) have "inv s" by (rule reachable_inv)
  from abs_step [OF this reachable_step.hyps(2)] reachable_step.IH show ?case
    by (auto intro: reachable.reachable_step)
qed

end

end
