(* ===== verification/Frame.thy ===== *)
theory Frame
  imports Prelude
begin

text \<open>
  The wire format of picomux (libraries/picomux/src/frame.rs): the eight-byte header, frames,
  and writing and reading them. The header is a \<open>repr(C)\<close> struct of Pod fields, so its bytes are
  version, command, body_len and stream_id in memory order; the multi-byte fields are little
  endian, the byte order of every target the client and the servers ship for.
\<close>

record Header =
  version :: byte
  command :: byte
  body_len :: u16
  stream_id :: u32

record Frame =
  header :: Header
  body :: bytes

definition CMD_SYN :: byte where "CMD_SYN = 0"
definition CMD_FIN :: byte where "CMD_FIN = 1"
definition CMD_PSH :: byte where "CMD_PSH = 2"
definition CMD_NOP :: byte where "CMD_NOP = 3"
definition CMD_MORE :: byte where "CMD_MORE = 4"
definition CMD_PING :: byte where "CMD_PING = 0xa0"
definition CMD_PONG :: byte where "CMD_PONG = 0xa1"

lemmas CMD_defs = CMD_SYN_def CMD_FIN_def CMD_PSH_def CMD_NOP_def CMD_MORE_def CMD_PING_def
  CMD_PONG_def

record PingInfo =
  next_ping_in_ms :: u32

text \<open>\<open>body.len() as _\<close> keeps the low sixteen bits of the length.\<close>

definition len_u16 :: "bytes \<Rightarrow> u16" where
  "len_u16 bs = word_of_nat (length bs)"

definition new_empty :: "u32 \<Rightarrow> byte \<Rightarrow> Frame" where
  "new_empty sid cmd =
     \<lparr>header = \<lparr>version = 1, command = cmd, body_len = 0, stream_id = sid\<rparr>, body = []\<rparr>"

definition new_frame :: "u32 \<Rightarrow> byte \<Rightarrow> bytes \<Rightarrow> Frame" where
  "new_frame sid cmd bdy =
     \<lparr>header = \<lparr>version = 1, command = cmd, body_len = len_u16 bdy, stream_id = sid\<rparr>,
      body = bdy\<rparr>"

definition header_size :: nat where
  "header_size = 8"

definition header_bytes :: "Header \<Rightarrow> bytes" where
  "header_bytes h = [version h, command h] @ u16_le (body_len h) @ u32_le (stream_id h)"

definition header_cast :: "bytes \<Rightarrow> Header" where
  "header_cast bs =
     \<lparr>version = bs ! 0, command = bs ! 1, body_len = u16_of_le (take 2 (drop 2 bs)),
      stream_id = u32_of_le (take 4 (drop 4 bs))\<rparr>"

definition frame_bytes :: "Frame \<Rightarrow> bytes" where
  "frame_bytes f = header_bytes (header f) @ body f"

definition frame_read :: "bytes \<Rightarrow> io_error + Frame \<times> bytes" where
  "frame_read rdr =
     result_bind (read_exact header_size rdr) (\<lambda>(header_buf, rest).
       let hd = header_cast header_buf; len = unat (body_len hd)
       in result_bind (read_exact len rest) (\<lambda>(bdy, rest').
            Inr (\<lparr>header = hd, body = bdy\<rparr>, rest')))"

section \<open>Reading what was written\<close>

definition wf_frame :: "Frame \<Rightarrow> bool" where
  "wf_frame f \<longleftrightarrow> unat (body_len (header f)) = length (body f)"

lemma length_header_bytes [simp]: "length (header_bytes h) = 8"
  by (simp add: header_bytes_def)

lemma header_cast_bytes [codec_simps]: "header_cast (header_bytes h) = h"
  by (simp add: header_cast_def header_bytes_def word_bytes_roundtrip)

lemma length_frame_bytes [simp]: "length (frame_bytes f) = 8 + length (body f)"
  by (simp add: frame_bytes_def)

lemma unat_len_u16 [codec_simps]: "unat (len_u16 bs) = length bs mod 65536"
  by (simp add: len_u16_def unat_of_nat)

lemma wf_new_frame [simp]: "length bdy < 65536 \<Longrightarrow> wf_frame (new_frame sid cmd bdy)"
  by (simp add: wf_frame_def new_frame_def unat_len_u16)

lemma wf_new_empty [simp]: "wf_frame (new_empty sid cmd)"
  by (simp add: wf_frame_def new_empty_def)

lemma frame_read_header:
  "frame_read (header_bytes h @ rest) =
     result_bind (read_exact (unat (body_len h)) rest) (\<lambda>(bdy, rest').
       Inr (\<lparr>header = h, body = bdy\<rparr>, rest'))"
  by (simp add: frame_read_def header_size_def header_cast_bytes)

interpretation frame_codec: stream_codec frame_bytes frame_read wf_frame
proof unfold_locales
  fix f rest
  assume "wf_frame f"
  then show "frame_read (frame_bytes f @ rest) = Inr (f, rest)"
    by (simp add: frame_bytes_def frame_read_header wf_frame_def)
next
  fix f n
  assume wf: "wf_frame f" and n: "n < length (frame_bytes f)"
  show "frame_read (take n (frame_bytes f)) = Inl eof_error"
  proof (cases "n < 8")
    case True
    then show ?thesis by (simp add: frame_read_def header_size_def)
  next
    case False
    then have "take n (frame_bytes f) = header_bytes (header f) @ take (n - 8) (body f)"
      by (simp add: frame_bytes_def)
    with False n wf show ?thesis by (simp add: frame_read_header wf_frame_def)
  qed
qed

text \<open>
  C1: A sequence of well-formed frames written back to back, as the outgoing loop writes
  them, is read back by Frame::read as exactly that sequence, whatever follows it on the
  connection; so frame boundaries survive the stream.
\<close>

theorem frames_roundtrip:
  assumes "\<forall>f \<in> set fs. wf_frame f"
  shows "read_many frame_read (length fs) (concat (map frame_bytes fs) @ rest) = Inr (fs, rest)"
  using assms by (rule frame_codec.read_many_encoded)

theorem frames_roundtrip_witness:
  "read_many frame_read 2
     (concat (map frame_bytes [new_empty 7 CMD_SYN, new_frame 7 CMD_PSH [1, 2, 3]]) @ [9])
   = Inr ([new_empty 7 CMD_SYN, new_frame 7 CMD_PSH [1, 2, 3]], [9])"
  using frames_roundtrip [of "[new_empty 7 CMD_SYN, new_frame 7 CMD_PSH [1, 2, 3]]" "[9]"]
  by (simp add: numeral_2_eq_2)

text \<open>
  The length field of a frame is the body length modulo 65536. A frame built from a body
  of 65536 bytes or more is read back with its body cut to that remainder, and the bytes cut
  off are left on the stream, where the next Frame::read takes them for a header.
\<close>

theorem oversized_frame_desyncs:
  assumes "65536 \<le> length bdy"
  shows "frame_read (frame_bytes (new_frame sid cmd bdy) @ rest) =
      Inr (\<lparr>header = header (new_frame sid cmd bdy), body = take (length bdy mod 65536) bdy\<rparr>,
           drop (length bdy mod 65536) bdy @ rest)
    \<and> drop (length bdy mod 65536) bdy \<noteq> []"
proof -
  have "length bdy mod 65536 < length bdy"
    using assms mod_less_divisor [of 65536 "length bdy"] by linarith
  then show ?thesis
    by (simp add: frame_bytes_def frame_read_header new_frame_def unat_len_u16 read_exact_def)
qed

theorem oversized_frame_desyncs_witness:
  "(\<exists>f rest. frame_read (frame_bytes (new_frame 1 CMD_SYN (replicate 65537 0))) = Inr (f, rest)
     \<and> length (body f) = 1 \<and> length rest = 65536)"
  using oversized_frame_desyncs [of "replicate 65537 0" 1 CMD_SYN "[]"] by simp

end
