(* ===== verification/Buffers.thy ===== *)
theory Buffers
  imports Frame
begin

text \<open>
  The two shared structures of a multiplexer: the table of per-stream buffers
  (libraries/picomux/src/buffer_table.rs) and the queue in front of the underlying writer
  (libraries/picomux/src/outgoing.rs).

  An entry of the table holds the unbounded channel of received frames, each with the instant
  it was put there, and the semaphore that counts how many data frames may still be sent. The
  semaphore of the intrusive-futures crate is a counter: acquiring one permit waits until the
  counter is positive and decreases it (\<open>disarm\<close> keeps the permit taken), releasing adds
  permits. Waiting is the result None. Instants are milliseconds.
\<close>

definition INIT_WINDOW :: nat where "INIT_WINDOW = 10"
definition MAX_WINDOW :: nat where "MAX_WINDOW = 1500"
definition MSS :: nat where "MSS = 8192"

lemmas window_defs = INIT_WINDOW_def MAX_WINDOW_def MSS_def

section \<open>The buffer table\<close>

record buf_entry =
  incoming :: "(Frame \<times> nat) list"
  permits :: nat

type_synonym buffer_table = "u32 \<Rightarrow> buf_entry option"

definition table_new :: buffer_table where
  "table_new = Map.empty"

definition contains_id :: "buffer_table \<Rightarrow> u32 \<Rightarrow> bool" where
  "contains_id tbl sid \<longleftrightarrow> tbl sid \<noteq> None"

definition create_entry :: "u32 \<Rightarrow> buffer_table \<Rightarrow> buffer_table" where
  "create_entry sid tbl = tbl(sid \<mapsto> \<lparr>incoming = [], permits = INIT_WINDOW\<rparr>)"

definition send_to :: "nat \<Rightarrow> u32 \<Rightarrow> Frame \<Rightarrow> buffer_table \<Rightarrow> buffer_table" where
  "send_to now sid frame tbl =
     (case tbl sid of
        None \<Rightarrow> tbl
      | Some e \<Rightarrow>
          if length (incoming e) > MAX_WINDOW * 2 then tbl
          else tbl(sid \<mapsto> e\<lparr>incoming := incoming e @ [(frame, now)]\<rparr>))"

definition wait_send_window :: "u32 \<Rightarrow> buffer_table \<Rightarrow> buffer_table option" where
  "wait_send_window sid tbl =
     (case tbl sid of
        None \<Rightarrow> None
      | Some e \<Rightarrow>
          if permits e = 0 then None else Some (tbl(sid \<mapsto> e\<lparr>permits := permits e - 1\<rparr>)))"

definition incr_send_window :: "u32 \<Rightarrow> u16 \<Rightarrow> buffer_table \<Rightarrow> buffer_table" where
  "incr_send_window sid amount tbl =
     (case tbl sid of
        None \<Rightarrow> tbl
      | Some e \<Rightarrow> tbl(sid \<mapsto> e\<lparr>permits := permits e + unat amount\<rparr>))"

text \<open>
  BufferReceive::recv takes the oldest frame and remembers how long it was queued; with no
  frame it waits. Dropping the BufferReceive removes the entry.
\<close>

definition buffer_recv ::
    "nat \<Rightarrow> u32 \<Rightarrow> buffer_table \<Rightarrow> (Frame \<times> nat \<times> buffer_table) option" where
  "buffer_recv now sid tbl =
     (case tbl sid of
        None \<Rightarrow> None
      | Some e \<Rightarrow>
          (case incoming e of
             [] \<Rightarrow> None
           | (frame, insert_time) # rest \<Rightarrow>
               Some (frame, now - insert_time, tbl(sid \<mapsto> e\<lparr>incoming := rest\<rparr>))))"

definition buffer_drop :: "u32 \<Rightarrow> buffer_table \<Rightarrow> buffer_table" where
  "buffer_drop sid tbl = tbl(sid := None)"

lemmas table_defs = table_new_def contains_id_def create_entry_def send_to_def
  wait_send_window_def incr_send_window_def buffer_recv_def buffer_drop_def

text \<open>What one stream sees of its entry.\<close>

definition stream_permits :: "u32 \<Rightarrow> buffer_table \<Rightarrow> nat" where
  "stream_permits sid tbl = (case tbl sid of None \<Rightarrow> 0 | Some e \<Rightarrow> permits e)"

definition stream_queue :: "u32 \<Rightarrow> buffer_table \<Rightarrow> Frame list" where
  "stream_queue sid tbl = (case tbl sid of None \<Rightarrow> [] | Some e \<Rightarrow> map fst (incoming e))"

lemma send_to_queue:
  assumes "contains_id tbl sid" and "length (stream_queue sid tbl) \<le> MAX_WINDOW * 2"
  shows "stream_queue sid (send_to now sid f tbl) = stream_queue sid tbl @ [f]"
    and "stream_permits sid (send_to now sid f tbl) = stream_permits sid tbl"
    and "contains_id (send_to now sid f tbl) sid"
  using assms
  by (auto simp: stream_queue_def stream_permits_def table_defs split: option.splits)

lemma wait_send_window_Some_iff:
  "wait_send_window sid tbl = Some tbl' \<longleftrightarrow>
     0 < stream_permits sid tbl \<and>
     tbl' = tbl(sid \<mapsto> (the (tbl sid))\<lparr>permits := stream_permits sid tbl - 1\<rparr>)"
  by (auto simp: stream_permits_def table_defs split: option.splits)

lemma wait_send_window_effect:
  assumes "wait_send_window sid tbl = Some tbl'"
  shows "stream_permits sid tbl' = stream_permits sid tbl - 1"
    and "stream_queue sid tbl' = stream_queue sid tbl"
    and "contains_id tbl' sid"
  using assms
  by (auto simp: stream_queue_def stream_permits_def table_defs split: option.splits if_splits)

lemma incr_send_window_effect:
  assumes "contains_id tbl sid"
  shows "stream_permits sid (incr_send_window sid n tbl) = stream_permits sid tbl + unat n"
    and "stream_queue sid (incr_send_window sid n tbl) = stream_queue sid tbl"
    and "contains_id (incr_send_window sid n tbl) sid"
  using assms
  by (auto simp: stream_queue_def stream_permits_def table_defs split: option.splits)

lemma buffer_recv_effect:
  assumes "buffer_recv now sid tbl = Some (f, d, tbl')"
  shows "stream_queue sid tbl = f # stream_queue sid tbl'"
    and "stream_permits sid tbl' = stream_permits sid tbl"
    and "contains_id tbl' sid"
  using assms
  by (auto simp: stream_queue_def stream_permits_def table_defs split: option.splits list.splits)

lemma buffer_recv_progress:
  "stream_queue sid tbl \<noteq> [] \<Longrightarrow> \<exists>f d tbl'. buffer_recv now sid tbl = Some (f, d, tbl')"
  by (auto simp: stream_queue_def table_defs split: option.splits list.splits)

text \<open>Operations on one stream leave the entries of every other stream alone.\<close>

lemma table_frame:
  assumes "other \<noteq> sid"
  shows "send_to now sid f tbl other = tbl other"
    and "incr_send_window sid n tbl other = tbl other"
    and "create_entry sid tbl other = tbl other"
    and "buffer_drop sid tbl other = tbl other"
    and "wait_send_window sid tbl = Some tbl' \<Longrightarrow> tbl' other = tbl other"
    and "buffer_recv now sid tbl = Some (f', d, tbl'') \<Longrightarrow> tbl'' other = tbl other"
  using assms
  by (auto simp: table_defs split: option.splits if_splits list.splits prod.splits)

section \<open>The outgoing queue\<close>

text \<open>
  The queue of frames, the bytes handed to the underlying writer so far, and the error cell
  that the writing task sets when the writer fails.
\<close>

record Outgoing =
  out_queue :: "Frame list"
  out_written :: bytes
  out_err :: "io_error option"

definition outgoing_new :: Outgoing where
  "outgoing_new = \<lparr>out_queue = [], out_written = [], out_err = None\<rparr>"

definition enqueue :: "Frame \<Rightarrow> Outgoing \<Rightarrow> Outgoing" where
  "enqueue f out = out\<lparr>out_queue := out_queue out @ [f]\<rparr>"

text \<open>
  The condition \<open>send\<close> waits for: Some of a result when it returns, None while it waits. The
  error cell is looked at before the length of the queue.
\<close>

definition send_ready :: "Outgoing \<Rightarrow> (io_error + unit) option" where
  "send_ready out =
     (case out_err out of
        Some err \<Rightarrow> Some (Inl err)
      | None \<Rightarrow> if length (out_queue out) < 10 then Some (Inr ()) else None)"

definition outgoing_send :: "Frame \<Rightarrow> Outgoing \<Rightarrow> (io_error + unit) option \<times> Outgoing" where
  "outgoing_send f out = (let out' = enqueue f out in (send_ready out', out'))"

text \<open>
  One turn of \<open>outgoing_loop\<close>: pop a frame and write all its bytes; \<open>wres\<close> is what write_all
  of the underlying writer returned, after \<open>k\<close> bytes when it failed. After an error the loop
  has ended and nothing is written any more.
\<close>

definition outgoing_turn :: "nat \<times> io_error + unit \<Rightarrow> Outgoing \<Rightarrow> Outgoing option" where
  "outgoing_turn wres out =
     (case out_err out of
        Some _ \<Rightarrow> None
      | None \<Rightarrow>
          (case out_queue out of
             [] \<Rightarrow> None
           | f # fs \<Rightarrow>
               (case wres of
                  Inr _ \<Rightarrow> Some (out\<lparr>out_queue := fs, out_written := out_written out @ frame_bytes f\<rparr>)
                | Inl (k, e) \<Rightarrow>
                    Some (out\<lparr>out_queue := fs, out_written := out_written out @ take k (frame_bytes f),
                              out_err := Some e\<rparr>))))"

lemmas outgoing_defs = outgoing_new_def enqueue_def send_ready_def outgoing_send_def
  outgoing_turn_def

text \<open>
  The writer's history: a run of enqueue and write turns, with the frames enqueued so far.
\<close>

inductive outgoing_run :: "Outgoing \<Rightarrow> Frame list \<Rightarrow> bool" where
  run_new: "outgoing_run outgoing_new []"
| run_enqueue: "outgoing_run out fs \<Longrightarrow> outgoing_run (enqueue f out) (fs @ [f])"
| run_turn: "outgoing_run out fs \<Longrightarrow> outgoing_turn w out = Some out' \<Longrightarrow> outgoing_run out' fs"

definition out_history :: "Outgoing \<Rightarrow> Frame list \<Rightarrow> bool" where
  "out_history out fs \<longleftrightarrow>
     (case out_err out of
        None \<Rightarrow> \<exists>sent. fs = sent @ out_queue out \<and> out_written out = concat (map frame_bytes sent)
      | Some _ \<Rightarrow> \<exists>sent f k. fs = sent @ f # out_queue out \<and>
                   out_written out = concat (map frame_bytes sent) @ take k (frame_bytes f))"

lemma out_history_enqueue: "out_history out fs \<Longrightarrow> out_history (enqueue f out) (fs @ [f])"
  by (cases "out_err out") (auto simp: out_history_def enqueue_def)

lemma out_history_turn:
  assumes "out_history out fs" and "outgoing_turn w out = Some out'"
  shows "out_history out' fs"
proof -
  from assms(2) have noerr: "out_err out = None"
    by (auto simp: outgoing_turn_def split: option.splits)
  with assms(1) obtain sent where h: "fs = sent @ out_queue out"
      "out_written out = concat (map frame_bytes sent)"
    by (auto simp: out_history_def)
  from assms(2) noerr obtain f q where q: "out_queue out = f # q"
    by (auto simp: outgoing_turn_def split: list.splits)
  show ?thesis
  proof (cases w)
    case (Inl p)
    obtain k e where "p = (k, e)" by (cases p)
    with Inl q noerr assms(2) h show ?thesis
      by (auto simp: outgoing_turn_def out_history_def)
  next
    case (Inr u)
    have "fs = (sent @ [f]) @ q" using h q by simp
    with Inr q noerr assms(2) h show ?thesis
      by (auto simp: outgoing_turn_def out_history_def intro!: exI [of _ "sent @ [f]"])
  qed
qed

lemma outgoing_run_history: "outgoing_run out fs \<Longrightarrow> out_history out fs"
proof (induction rule: outgoing_run.induct)
  case run_new
  show ?case by (simp add: out_history_def outgoing_new_def)
qed (auto intro: out_history_enqueue out_history_turn)

text \<open>
  C10: Whatever the interleaving of producers and the writing task, as long as the writer has
  not failed the bytes on the connection followed by the queue are all enqueued frames, in
  the order of their enqueueing: nothing is lost, duplicated or reordered.
\<close>

theorem outgoing_fifo:
  assumes "outgoing_run out fs" and "out_err out = None"
  shows "out_written out @ concat (map frame_bytes (out_queue out)) = concat (map frame_bytes fs)"
  using outgoing_run_history [OF assms(1)] assms(2) by (auto simp: out_history_def)

theorem outgoing_fifo_witness:
  "\<exists>out. outgoing_run out [new_empty 1 CMD_SYN, new_empty 1 CMD_FIN] \<and> out_err out = None \<and>
     out_written out = frame_bytes (new_empty 1 CMD_SYN) \<and>
     out_written out @ concat (map frame_bytes (out_queue out)) =
       concat (map frame_bytes [new_empty 1 CMD_SYN, new_empty 1 CMD_FIN])"
proof -
  let ?s = "new_empty 1 CMD_SYN" and ?f = "new_empty 1 CMD_FIN"
  let ?o = "\<lparr>out_queue = [?f], out_written = frame_bytes ?s, out_err = None\<rparr>"
  have "outgoing_run (enqueue ?f (enqueue ?s outgoing_new)) ([] @ [?s] @ [?f])"
    using run_enqueue [OF run_enqueue [OF run_new]] by simp
  moreover have "outgoing_turn (Inr ()) (enqueue ?f (enqueue ?s outgoing_new)) = Some ?o"
    by (simp add: outgoing_defs)
  ultimately have run: "outgoing_run ?o [?s, ?f]" using run_turn by fastforce
  show ?thesis
    using run outgoing_fifo [OF run] by (intro exI [of _ ?o]) simp
qed

text \<open>
  \<open>send\<close> returns as soon as fewer than ten frames are queued, its own frame included: it
  returns Ok on an idle connection while none of the frame's bytes has been written.
\<close>

theorem send_returns_before_writing:
  "outgoing_send f outgoing_new =
     (Some (Inr ()), \<lparr>out_queue = [f], out_written = [], out_err = None\<rparr>)"
  by (simp add: outgoing_defs)

end
