(* ===== verification/Stream_Tasks.thy ===== *)
theory Stream_Tasks
  imports Buffers
begin

text \<open>
  The two tasks that serve one picomux stream (\<open>create_stream\<close> in
  libraries/picomux/src/lib.rs): \<open>outgoing_task\<close> moves received frames to the application and
  grants the peer more window, \<open>incoming_task\<close> sends what the application writes while the
  send window lasts. The bandwidth estimate the source computes in floating point
  (libraries/picomux/src/bdp.rs) enters the model as an arbitrary natural number \<open>raw\<close>: the
  value of \<open>(estimate / MSS as f64 / 2.0) as usize\<close>, a saturating cast, so every usize is possible;
  the theory Bandwidth models how it is computed.
\<close>

section \<open>The receive window\<close>

record flow =
  remote_window :: nat
  target_remote_window :: nat

definition flow_init :: flow where
  "flow_init = \<lparr>remote_window = INIT_WINDOW, target_remote_window = MAX_WINDOW\<rparr>"

definition min_quantum :: "flow \<Rightarrow> nat" where
  "min_quantum fl = clamp 1 500 (target_remote_window fl div 10)"

text \<open>
  What the loop does with the windows after one data frame: the new windows and the window
  increase to send, if any. The decrement panics at zero.
\<close>

definition flow_step :: "nat \<Rightarrow> flow \<Rightarrow> (flow \<times> nat option) option" where
  "flow_step raw fl =
     (case checked_sub (remote_window fl) 1 of
        None \<Rightarrow> None
      | Some rw \<Rightarrow>
          (let tw = clamp INIT_WINDOW MAX_WINDOW raw
           in if rw + min_quantum fl \<le> tw
              then let quantum = tw - rw
                   in Some (\<lparr>remote_window = rw + quantum, target_remote_window = tw\<rparr>, Some quantum)
              else Some (\<lparr>remote_window = rw, target_remote_window = tw\<rparr>, None)))"

text \<open>
  The window never falls below eight: a target that drops from step to step can hold back an
  increase only for as long as these bounds allow.
\<close>

definition flow_inv :: "flow \<Rightarrow> bool" where
  "flow_inv fl \<longleftrightarrow>
     INIT_WINDOW \<le> target_remote_window fl \<and> target_remote_window fl \<le> MAX_WINDOW \<and>
     8 \<le> remote_window fl \<and> remote_window fl \<le> MAX_WINDOW \<and>
     (23 \<le> target_remote_window fl \<longrightarrow> 9 \<le> remote_window fl) \<and>
     (159 \<le> target_remote_window fl \<longrightarrow> 10 \<le> remote_window fl)"

lemma flow_inv_init: "flow_inv flow_init"
  by (simp add: flow_inv_def flow_init_def window_defs)

lemma min_quantum_bounds:
  assumes "flow_inv fl"
  shows "1 \<le> min_quantum fl" and "10 * min_quantum fl \<le> target_remote_window fl"
  using assms by (auto simp: min_quantum_def flow_inv_def window_defs clamp_def)

lemma flow_step_inv:
  assumes inv: "flow_inv fl"
  shows "\<exists>fl' grant. flow_step raw fl = Some (fl', grant) \<and> flow_inv fl' \<and>
     remote_window fl' + 1 = remote_window fl + (case grant of None \<Rightarrow> 0 | Some q \<Rightarrow> q) \<and>
     (\<forall>q. grant = Some q \<longrightarrow> 0 < q \<and> q \<le> MAX_WINDOW)"
proof -
  define rw tw where "rw = remote_window fl - 1" and "tw = clamp INIT_WINDOW MAX_WINDOW raw"
  have rw: "remote_window fl = Suc rw" "checked_sub (remote_window fl) 1 = Some rw"
    using inv by (simp_all add: flow_inv_def rw_def)
  have tw: "10 \<le> tw" "tw \<le> 1500"
    using clamp_bounds [of INIT_WINDOW MAX_WINDOW raw] by (simp_all add: tw_def window_defs)
  note q = min_quantum_bounds [OF inv]
  show ?thesis
  proof (cases "rw + min_quantum fl \<le> tw")
    case True
    then have "flow_step raw fl
        = Some (\<lparr>remote_window = tw, target_remote_window = tw\<rparr>, Some (tw - rw))"
      unfolding flow_step_def rw(2) by (simp add: tw_def [symmetric] Let_def)
    with True tw q rw show ?thesis
      by (auto simp: flow_inv_def window_defs)
  next
    case False
    then have "flow_step raw fl
        = Some (\<lparr>remote_window = rw, target_remote_window = tw\<rparr>, None)"
      unfolding flow_step_def rw(2) by (simp add: tw_def [symmetric] Let_def)
    moreover have "flow_inv \<lparr>remote_window = rw, target_remote_window = tw\<rparr>"
      using inv False tw q rw(1) unfolding flow_inv_def window_defs by simp linarith
    ultimately show ?thesis using rw(1) by auto
  qed
qed

text \<open>The windows after a sequence of data frames, each with its own bandwidth estimate.\<close>

fun flow_run :: "nat list \<Rightarrow> flow \<Rightarrow> flow option" where
  "flow_run [] fl = Some fl"
| "flow_run (raw # raws) fl =
     (case flow_step raw fl of None \<Rightarrow> None | Some (fl', _) \<Rightarrow> flow_run raws fl')"

lemma flow_run_inv: "flow_inv fl \<Longrightarrow> \<exists>fl'. flow_run raws fl = Some fl' \<and> flow_inv fl'"
proof (induction raws arbitrary: fl)
  case Nil
  then show ?case by simp
next
  case (Cons raw raws)
  from flow_step_inv [OF Cons.prems, of raw] obtain fl' grant
    where s: "flow_step raw fl = Some (fl', grant)" and "flow_inv fl'" by blast
  with Cons.IH [of fl'] show ?case by simp
qed

text \<open>
  C5: For every number of received data frames and every sequence of bandwidth estimates,
  the window accounting of a stream never underflows (an underflow would abort the process)
  and the credit left to the peer stays between 8 and MAX_WINDOW frames, so the peer always
  has frames it may still send.
\<close>

theorem flow_window_bounds:
  "\<exists>fl. flow_run raws flow_init = Some fl \<and>
     8 \<le> remote_window fl \<and> remote_window fl \<le> MAX_WINDOW"
  using flow_run_inv [OF flow_inv_init, of raws] by (auto simp: flow_inv_def)

text \<open>The bound eight is met: with these estimates the window falls to eight.\<close>

theorem flow_window_bound_tight:
  "flow_run [158, 22] flow_init = Some \<lparr>remote_window = 8, target_remote_window = 22\<rparr>"
  by (simp add: flow_init_def flow_step_def min_quantum_def clamp_def window_defs)

section \<open>The tasks\<close>

text \<open>
  What a turn of a task does: it waits, it ends (with the error the source gives), it panics,
  or it goes on with a new state.
\<close>

datatype 'a turn = Waits | Ends string | Panics | Goes_on 'a

record stream_rx =
  rx_flow :: flow
  rx_delivered :: bytes

definition stream_rx_new :: stream_rx where
  "stream_rx_new = \<lparr>rx_flow = flow_init, rx_delivered = []\<rparr>"

text \<open>\<open>write_ok\<close>: whether writing the body to the application's pipe succeeded.\<close>

definition outgoing_task_turn ::
    "nat \<Rightarrow> nat \<Rightarrow> bool \<Rightarrow> u32 \<Rightarrow> buffer_table \<times> Outgoing \<times> stream_rx
       \<Rightarrow> (buffer_table \<times> Outgoing \<times> stream_rx) turn" where
  "outgoing_task_turn now raw write_ok sid st =
     (case st of (tbl, out, rx) \<Rightarrow>
       (case buffer_recv now sid tbl of
          None \<Rightarrow> Waits
        | Some (frame, queue_delay, tbl') \<Rightarrow>
            if command (header frame) = CMD_FIN then Ends ''received remote FIN''
            else if \<not> write_ok then Ends ''could not write to incoming''
            else
              (case flow_step raw (rx_flow rx) of
                 None \<Rightarrow> Panics
               | Some (fl', grant) \<Rightarrow>
                   Goes_on (tbl',
                     (case grant of
                        None \<Rightarrow> out
                      | Some quantum \<Rightarrow>
                          enqueue (new_frame sid CMD_MORE (u16_le (word_of_nat quantum))) out),
                     \<lparr>rx_flow = fl', rx_delivered = rx_delivered rx @ body frame\<rparr>))))"

text \<open>
  \<open>chunk\<close> is what the pooled read of at most 8192 bytes returned: None at end of file. The
  frame is queued once a permit is taken; the task then waits in \<open>outgoing.send\<close> until the
  queue is short or the writer has failed.
\<close>

definition psh_frame :: "u32 \<Rightarrow> bytes \<Rightarrow> Frame" where
  "psh_frame sid bdy =
     \<lparr>header = \<lparr>version = 1, command = CMD_PSH, body_len = len_u16 bdy, stream_id = sid\<rparr>,
      body = bdy\<rparr>"

definition incoming_task_turn ::
    "bytes option \<Rightarrow> u32 \<Rightarrow> buffer_table \<times> Outgoing \<Rightarrow> (buffer_table \<times> Outgoing) turn" where
  "incoming_task_turn chunk sid st =
     (case st of (tbl, out) \<Rightarrow>
       (case chunk of
          None \<Rightarrow> Ends ''EOF on read_outgoing''
        | Some bdy \<Rightarrow>
            (case wait_send_window sid tbl of
               None \<Rightarrow> Waits
             | Some tbl' \<Rightarrow>
                 (case outgoing_send (psh_frame sid bdy) out of
                    (Some (Inl err), out') \<Rightarrow> Ends (message err)
                  | (_, out') \<Rightarrow> Goes_on (tbl', out')))))"

lemma outgoing_task_turn_no_panic:
  "flow_inv (rx_flow rx) \<Longrightarrow> outgoing_task_turn now raw ok sid (tbl, out, rx) \<noteq> Panics"
  using flow_step_inv [of "rx_flow rx" raw]
  by (auto simp: outgoing_task_turn_def split: option.splits)

text \<open>The grant a turn sends: a MORE frame whose body is the quantum in two bytes.\<close>

lemma outgoing_task_turn_effect:
  assumes inv: "flow_inv (rx_flow rx)"
    and turn: "outgoing_task_turn now raw ok sid (tbl, out, rx) = Goes_on (tbl', out', rx')"
  obtains f d grant where
    "buffer_recv now sid tbl = Some (f, d, tbl')"
    "flow_inv (rx_flow rx')"
    "rx_delivered rx' = rx_delivered rx @ body f"
    "remote_window (rx_flow rx') + 1 =
       remote_window (rx_flow rx) + (case grant of None \<Rightarrow> 0 | Some q \<Rightarrow> unat q)"
    "out' = (case grant of None \<Rightarrow> out
             | Some q \<Rightarrow> enqueue (new_frame sid CMD_MORE (u16_le q)) out)"
proof -
  obtain fl' grant where s: "flow_step raw (rx_flow rx) = Some (fl', grant)" "flow_inv fl'"
      "remote_window fl' + 1 = remote_window (rx_flow rx) + (case grant of None \<Rightarrow> 0 | Some q \<Rightarrow> q)"
      "\<forall>q. grant = Some q \<longrightarrow> 0 < q \<and> q \<le> MAX_WINDOW"
    using flow_step_inv [OF inv, of raw] by blast
  obtain f d where r: "buffer_recv now sid tbl = Some (f, d, tbl')"
    and rx': "rx' = \<lparr>rx_flow = fl', rx_delivered = rx_delivered rx @ body f\<rparr>"
    and out': "out' = (case grant of None \<Rightarrow> out
        | Some q \<Rightarrow> enqueue (new_frame sid CMD_MORE (u16_le (word_of_nat q))) out)"
    using turn s(1) by (auto simp: outgoing_task_turn_def split: option.splits if_splits)
  show thesis
    by (rule that [of f d "map_option word_of_nat grant"])
      (use r rx' out' s in \<open>auto simp: unat_of_nat window_defs split: option.splits\<close>)
qed

end
