(* ===== verification/Mux.thy ===== *)
theory Mux
  imports Stream_Tasks
begin

text \<open>
  The multiplexer itself (libraries/picomux/src/lib.rs): the state shared by the three loops
  of \<open>picomux_inner\<close> (open requests, pings, incoming frames), what each loop does in one turn,
  the methods of PicoMux, and the poll functions of Stream. JSON encoding of the ping body is
  a parameter (\<open>ping_json\<close>, \<open>parse_ping\<close>): the serde_json crate. Times are milliseconds.
\<close>

record LivenessConfig =
  ping_interval :: nat
  timeout :: nat

definition default_liveness :: LivenessConfig where
  "default_liveness = \<lparr>ping_interval = 1800000, timeout = 30000\<rparr>"

text \<open>
  \<open>mx_streams\<close> holds the state of the running per-stream tasks, \<open>mx_accepted\<close> the streams in the
  accept channel (at most 100), \<open>mx_accept_closed\<close> whether its receiver is gone, \<open>mx_pongs\<close> the
  unread pong signals, \<open>mx_ping_wait\<close> the ping being waited for and its start, \<open>mx_dead\<close> the
  error \<open>picomux_inner\<close> ended with.
\<close>

record mux =
  mx_table :: buffer_table
  mx_out :: Outgoing
  mx_streams :: "u32 \<Rightarrow> stream_rx option"
  mx_accepted :: "(u32 \<times> bytes) list"
  mx_accept_closed :: bool
  mx_pongs :: nat
  mx_liveness :: LivenessConfig
  mx_liveness_chan :: "LivenessConfig list"
  mx_ping_lc :: "LivenessConfig option"
  mx_ping_wait :: "(LivenessConfig \<times> nat) option"
  mx_last_ping :: "nat option"
  mx_dead :: "io_error option"

definition mux_new :: mux where
  "mux_new =
     \<lparr>mx_table = table_new, mx_out = outgoing_new, mx_streams = Map.empty, mx_accepted = [],
      mx_accept_closed = False, mx_pongs = 0, mx_liveness = default_liveness,
      mx_liveness_chan = [default_liveness], mx_ping_lc = None, mx_ping_wait = None,
      mx_last_ping = None, mx_dead = None\<rparr>"

section \<open>Methods of PicoMux\<close>

definition is_alive :: "mux \<Rightarrow> bool" where
  "is_alive m \<longleftrightarrow> mx_dead m = None"

definition wait_error :: "mux \<Rightarrow> io_error option" where
  "wait_error m = map_option (\<lambda>e. IoError (kind e) (message e)) (mx_dead m)"

definition set_liveness :: "LivenessConfig \<Rightarrow> mux \<Rightarrow> mux" where
  "set_liveness lc m = m\<lparr>mx_liveness := lc, mx_liveness_chan := mx_liveness_chan m @ [lc]\<rparr>"

definition last_latency :: "mux \<Rightarrow> nat option" where
  "last_latency m = mx_last_ping m"

text \<open>
  \<open>accept\<close> races the accept channel against the mux's error; \<open>err_first\<close> is the choice of the
  fair race when both are ready. None: it waits.
\<close>

definition accept :: "bool \<Rightarrow> mux \<Rightarrow> (io_error + u32 \<times> bytes) option \<times> mux" where
  "accept err_first m =
     (case (mx_accepted m, wait_error m) of
        ([], None) \<Rightarrow> (None, m)
      | ([], Some e) \<Rightarrow> (Some (Inl e), m)
      | (s # rest, None) \<Rightarrow> (Some (Inr s), m\<lparr>mx_accepted := rest\<rparr>)
      | (s # rest, Some e) \<Rightarrow>
          if err_first then (Some (Inl e), m) else (Some (Inr s), m\<lparr>mx_accepted := rest\<rparr>))"

section \<open>The loops\<close>

definition create_stream :: "u32 \<Rightarrow> mux \<Rightarrow> mux" where
  "create_stream sid m =
     m\<lparr>mx_table := create_entry sid (mx_table m), mx_streams := (mx_streams m)(sid \<mapsto> stream_rx_new)\<rparr>"

definition mux_enqueue :: "Frame \<Rightarrow> mux \<Rightarrow> mux" where
  "mux_enqueue f m = m\<lparr>mx_out := enqueue f (mx_out m)\<rparr>"

text \<open>
  When the tasks of a stream end their receiving end is dropped, which removes the entry, and
  the scope guard then queues a FIN.
\<close>

definition stream_end :: "u32 \<Rightarrow> mux \<Rightarrow> mux" where
  "stream_end sid m =
     mux_enqueue (new_empty sid CMD_FIN)
       (m\<lparr>mx_table := buffer_drop sid (mx_table m), mx_streams := (mx_streams m)(sid := None)\<rparr>)"

text \<open>
  An open request: \<open>cands\<close> is the sequence of random numbers drawn, the first that is not in
  use becomes the stream id. PicoMux::open first forces a ping by sending the current
  liveness configuration.
\<close>

definition syn_frame :: "u32 \<Rightarrow> bytes \<Rightarrow> Frame" where
  "syn_frame sid metadata =
     (let f = new_empty sid CMD_SYN
      in f\<lparr>body := metadata, header := (header f)\<lparr>body_len := len_u16 metadata\<rparr>\<rparr>)"

definition open_req :: "u32 list \<Rightarrow> bytes \<Rightarrow> mux \<Rightarrow> (u32 \<times> mux) option" where
  "open_req cands metadata m =
     (case find (\<lambda>key. \<not> contains_id (mx_table m) key) cands of
        None \<Rightarrow> None
      | Some sid \<Rightarrow> Some (sid, create_stream sid (mux_enqueue (syn_frame sid metadata) m)))"

definition open_stream :: "u32 list \<Rightarrow> bytes \<Rightarrow> mux \<Rightarrow> (u32 \<times> mux) option" where
  "open_stream cands metadata m =
     open_req cands metadata (m\<lparr>mx_liveness_chan := mx_liveness_chan m @ [mx_liveness m]\<rparr>)"

text \<open>
  The ping loop. It starts a ping when the last configuration's interval has passed
  (\<open>idle\<close> is the time since the last turn) or a configuration arrives; then it waits for a pong
  and fails when the timeout passes first.
\<close>

definition ping_frame :: "(PingInfo \<Rightarrow> bytes) \<Rightarrow> LivenessConfig \<Rightarrow> Frame" where
  "ping_frame ping_json info =
     (let ping_body = ping_json \<lparr>next_ping_in_ms = word_of_nat (ping_interval info)\<rparr>
      in \<lparr>header = \<lparr>version = 1, command = CMD_PING, body_len = len_u16 ping_body, stream_id = 0\<rparr>,
          body = ping_body\<rparr>)"

definition ping_next :: "nat \<Rightarrow> mux \<Rightarrow> (LivenessConfig \<times> mux) option" where
  "ping_next idle m =
     (case mx_ping_lc m of
        Some lc \<Rightarrow>
          if ping_interval lc \<le> idle then Some (lc, m)
          else (case mx_liveness_chan m of
                  [] \<Rightarrow> None
                | c # cs \<Rightarrow> Some (c, m\<lparr>mx_liveness_chan := cs\<rparr>))
      | None \<Rightarrow>
          (case mx_liveness_chan m of
             [] \<Rightarrow> None
           | c # cs \<Rightarrow> Some (c, m\<lparr>mx_liveness_chan := cs\<rparr>)))"

definition ping_start :: "(PingInfo \<Rightarrow> bytes) \<Rightarrow> nat \<Rightarrow> nat \<Rightarrow> mux \<Rightarrow> mux option" where
  "ping_start ping_json now idle m =
     (if mx_ping_wait m \<noteq> None then None
      else map_option
        (\<lambda>(info, m1). mux_enqueue (ping_frame ping_json info)
            (m1\<lparr>mx_ping_lc := Some info, mx_ping_wait := Some (info, now)\<rparr>))
        (ping_next idle m))"

definition ping_poll :: "nat \<Rightarrow> mux \<Rightarrow> (io_error + mux) option" where
  "ping_poll now m =
     (case mx_ping_wait m of
        None \<Rightarrow> None
      | Some (info, start) \<Rightarrow>
          if 0 < mx_pongs m
          then Some (Inr (m\<lparr>mx_pongs := mx_pongs m - 1, mx_last_ping := Some (now - start),
                            mx_ping_wait := None\<rparr>))
          else if timeout info \<le> now - start
          then Some (Inl (IoError TimedOut ''ping-pong timed out''))
          else None)"

text \<open>One turn of the loop over incoming frames.\<close>

definition accept_syn :: "u32 \<Rightarrow> bytes \<Rightarrow> mux \<Rightarrow> io_error + mux" where
  "accept_syn sid metadata m =
     (if contains_id (mx_table m) sid then Inl (IoError InvalidData ''duplicate SYN'')
      else
        let m1 = create_stream sid m
        in if mx_accept_closed m1 then Inl (IoError NotConnected ''dead'')
           else if 100 \<le> length (mx_accepted m1) then Inr m1
           else Inr (m1\<lparr>mx_accepted := mx_accepted m1 @ [(sid, metadata)]\<rparr>))"

definition dispatch :: "(bytes \<Rightarrow> PingInfo option) \<Rightarrow> nat \<Rightarrow> Frame \<Rightarrow> mux \<Rightarrow> io_error + mux" where
  "dispatch parse_ping now frame m =
     (let sid = stream_id (header frame); cmd = command (header frame)
      in if cmd = CMD_SYN then accept_syn sid (body frame) m
         else if cmd = CMD_MORE then
           (if length (body frame) = 2
            then Inr (m\<lparr>mx_table := incr_send_window sid (u16_of_le (body frame)) (mx_table m)\<rparr>)
            else Inl (IoError InvalidData ''corrupt window increase message''))
         else if cmd = CMD_PSH \<or> cmd = CMD_FIN then
           Inr (m\<lparr>mx_table := send_to now sid frame (mx_table m)\<rparr>)
         else if cmd = CMD_NOP then Inr m
         else if cmd = CMD_PING then
           (case parse_ping (body frame) of
              None \<Rightarrow> Inl (IoError InvalidData ''invalid PING data'')
            | Some ping_info \<Rightarrow> Inr (mux_enqueue (new_empty 0 CMD_PONG) m))
         else if cmd = CMD_PONG then Inr (m\<lparr>mx_pongs := mx_pongs m + 1\<rparr>)
         else Inl (IoError InvalidData ''invalid command''))"

text \<open>
  The loop itself, on the bytes that arrive before the connection ends: it only stops with an
  error, which becomes the result of \<open>picomux_inner\<close>.
\<close>

lemma frame_read_shrinks: "frame_read bs = Inr (f, rest) \<Longrightarrow> length rest < length bs"
  by (auto simp: frame_read_def header_size_def result_bind_Inr_iff read_exact_Inr_iff Let_def)

function read_loop :: "(bytes \<Rightarrow> PingInfo option) \<Rightarrow> nat \<Rightarrow> bytes \<Rightarrow> mux \<Rightarrow> mux" where
  "read_loop parse_ping now bs m =
     (case frame_read bs of
        Inl e \<Rightarrow> m\<lparr>mx_dead := Some e\<rparr>
      | Inr (frame, rest) \<Rightarrow>
          (case dispatch parse_ping now frame m of
             Inl e \<Rightarrow> m\<lparr>mx_dead := Some e\<rparr>
           | Inr m' \<Rightarrow> read_loop parse_ping now rest m'))"
  by pat_completeness auto
termination
  by (relation "measure (\<lambda>(parse_ping, now, bs, m). length bs)") (auto dest: frame_read_shrinks)

declare read_loop.simps [simp del]

text \<open>The turns of the per-stream tasks on the state of the mux.\<close>

definition deliver_turn :: "nat \<Rightarrow> nat \<Rightarrow> bool \<Rightarrow> u32 \<Rightarrow> mux \<Rightarrow> mux turn" where
  "deliver_turn now raw write_ok sid m =
     (case mx_streams m sid of
        None \<Rightarrow> Waits
      | Some rx \<Rightarrow>
          (case outgoing_task_turn now raw write_ok sid (mx_table m, mx_out m, rx) of
             Waits \<Rightarrow> Waits
           | Panics \<Rightarrow> Panics
           | Ends e \<Rightarrow> Goes_on (stream_end sid m)
           | Goes_on (tbl, out, rx') \<Rightarrow>
               Goes_on (m\<lparr>mx_table := tbl, mx_out := out, mx_streams := (mx_streams m)(sid \<mapsto> rx')\<rparr>)))"

definition push_turn :: "bytes option \<Rightarrow> u32 \<Rightarrow> mux \<Rightarrow> mux turn" where
  "push_turn chunk sid m =
     (case mx_streams m sid of
        None \<Rightarrow> Waits
      | Some rx \<Rightarrow>
          (case incoming_task_turn chunk sid (mx_table m, mx_out m) of
             Waits \<Rightarrow> Waits
           | Panics \<Rightarrow> Panics
           | Ends e \<Rightarrow> Goes_on (stream_end sid m)
           | Goes_on (tbl, out) \<Rightarrow> Goes_on (m\<lparr>mx_table := tbl, mx_out := out\<rparr>)))"

section \<open>Poll functions of Stream\<close>

text \<open>
  \<open>inner\<close> is what the pipe to the tasks answers, \<open>skip\<close> the one-in-ten coin of \<open>poll_read\<close>. The
  second component is the argument the traffic callback is called with, if it is.
\<close>

definition stream_poll_read :: "bool \<Rightarrow> nat \<Rightarrow> nat poll \<Rightarrow> nat poll \<times> nat option" where
  "stream_poll_read skip buf_len inner =
     (if skip then (Pending, None)
      else (inner, case inner of Pending \<Rightarrow> None | Ready _ \<Rightarrow> Some buf_len))"

definition stream_poll_write :: "nat \<Rightarrow> nat poll \<Rightarrow> nat poll \<times> nat option" where
  "stream_poll_write buf_len inner =
     (inner, case inner of Pending \<Rightarrow> None | Ready _ \<Rightarrow> Some buf_len)"

section \<open>Invariant of the mux\<close>

text \<open>
  Every table entry belongs to a running stream task and the other way round, the accept
  channel keeps its bound, and every stream's window accounting is sound.
\<close>

definition mux_ok :: "mux \<Rightarrow> bool" where
  "mux_ok m \<longleftrightarrow>
     dom (mx_table m) = dom (mx_streams m) \<and> length (mx_accepted m) \<le> 100 \<and>
     (\<forall>sid rx. mx_streams m sid = Some rx \<longrightarrow> flow_inv (rx_flow rx))"

inductive mux_step :: "(PingInfo \<Rightarrow> bytes) \<Rightarrow> (bytes \<Rightarrow> PingInfo option) \<Rightarrow> mux \<Rightarrow> mux \<Rightarrow> bool"
  for ping_json parse_ping where
  step_open: "open_stream cands md m = Some (sid, m') \<Longrightarrow> mux_step ping_json parse_ping m m'"
| step_frame: "dispatch parse_ping now f m = Inr m' \<Longrightarrow> mux_step ping_json parse_ping m m'"
| step_deliver: "deliver_turn now raw ok sid m = Goes_on m' \<Longrightarrow> mux_step ping_json parse_ping m m'"
| step_push: "push_turn chunk sid m = Goes_on m' \<Longrightarrow> mux_step ping_json parse_ping m m'"
| step_ping: "ping_start ping_json now idle m = Some m' \<Longrightarrow> mux_step ping_json parse_ping m m'"
| step_pong: "ping_poll now m = Some (Inr m') \<Longrightarrow> mux_step ping_json parse_ping m m'"
| step_accept: "accept e m = (r, m') \<Longrightarrow> mux_step ping_json parse_ping m m'"
| step_liveness: "mux_step ping_json parse_ping m (set_liveness lc m)"
| step_write: "outgoing_turn w (mx_out m) = Some out \<Longrightarrow>
    mux_step ping_json parse_ping m (m\<lparr>mx_out := out\<rparr>)"
| step_close: "mux_step ping_json parse_ping m (m\<lparr>mx_accept_closed := True\<rparr>)"

lemma mux_ok_new: "mux_ok mux_new"
  by (simp add: mux_ok_def mux_new_def table_new_def)

lemma mux_ok_table:
  assumes "mux_ok m" and "dom tbl = dom (mx_table m)"
  shows "mux_ok (m\<lparr>mx_table := tbl\<rparr>)" and "mux_ok (m\<lparr>mx_table := tbl, mx_out := out\<rparr>)"
  using assms by (simp_all add: mux_ok_def)

lemma mux_ok_stream:
  assumes "mux_ok m" and "mx_streams m sid = Some rx" and "dom tbl = dom (mx_table m)"
    and "flow_inv (rx_flow rx')"
  shows "mux_ok (m\<lparr>mx_table := tbl, mx_out := out, mx_streams := (mx_streams m)(sid \<mapsto> rx')\<rparr>)"
  using assms by (simp add: mux_ok_def) blast

lemma mux_ok_other [simp]:
  "mux_ok (m\<lparr>mx_liveness_chan := c\<rparr>) \<longleftrightarrow> mux_ok m"
  "mux_ok (m\<lparr>mx_pongs := n\<rparr>) \<longleftrightarrow> mux_ok m"
  "mux_ok (m\<lparr>mx_out := out\<rparr>) \<longleftrightarrow> mux_ok m"
  "mux_ok (m\<lparr>mx_accept_closed := b\<rparr>) \<longleftrightarrow> mux_ok m"
  "mux_ok (m\<lparr>mx_liveness := l\<rparr>) \<longleftrightarrow> mux_ok m"
  "mux_ok (m\<lparr>mx_ping_lc := q, mx_ping_wait := w\<rparr>) \<longleftrightarrow> mux_ok m"
  "mux_ok (m\<lparr>mx_pongs := n, mx_last_ping := t, mx_ping_wait := w\<rparr>) \<longleftrightarrow> mux_ok m"
  by (simp_all add: mux_ok_def)

lemma mux_ok_accepted:
  "mux_ok m \<Longrightarrow> length acc \<le> 100 \<Longrightarrow> mux_ok (m\<lparr>mx_accepted := acc\<rparr>)"
  by (simp add: mux_ok_def)

lemma flow_inv_new [simp]: "flow_inv (rx_flow stream_rx_new)"
  by (simp add: stream_rx_new_def flow_inv_init)

lemma mux_ok_create_stream: "mux_ok m \<Longrightarrow> mux_ok (create_stream sid m)"
  by (auto simp: mux_ok_def create_stream_def create_entry_def split: if_splits)

lemma mux_ok_stream_end: "mux_ok m \<Longrightarrow> mux_ok (stream_end sid m)"
  by (auto simp: mux_ok_def stream_end_def mux_enqueue_def buffer_drop_def split: if_splits)

lemma mux_ok_enqueue [simp]: "mux_ok (mux_enqueue f m) \<longleftrightarrow> mux_ok m"
  by (simp add: mux_ok_def mux_enqueue_def)

lemma mux_ok_open:
  assumes "mux_ok m" and "open_stream cands md m = Some (sid, m')"
  shows "mux_ok m'"
  using assms
  by (auto simp: open_stream_def open_req_def Let_def intro!: mux_ok_create_stream split: option.splits)

lemma dom_send_to [simp]: "dom (send_to now sid f tbl) = dom tbl"
  by (auto simp: send_to_def split: option.splits if_splits)

lemma dom_incr_send_window [simp]: "dom (incr_send_window sid n tbl) = dom tbl"
  by (auto simp: incr_send_window_def split: option.splits if_splits)

lemma mux_ok_receive:
  assumes "mux_ok m"
  shows "mux_ok (m\<lparr>mx_table := send_to now sid f (mx_table m)\<rparr>)"
    and "mux_ok (m\<lparr>mx_table := incr_send_window sid n (mx_table m)\<rparr>)"
  by (rule mux_ok_table(1) [OF assms], simp)+

lemma mux_ok_accept_syn:
  assumes "mux_ok m" and "accept_syn sid md m = Inr m'"
  shows "mux_ok m'"
  using assms(2) mux_ok_create_stream [OF assms(1), of sid]
  by (auto simp: accept_syn_def Let_def intro: mux_ok_accepted split: if_splits)

lemma mux_ok_dispatch:
  assumes "mux_ok m" and "dispatch parse_ping now f m = Inr m'"
  shows "mux_ok m'"
  using assms(2) mux_ok_accept_syn [OF assms(1)] assms(1)
  by (auto simp: dispatch_def Let_def mux_ok_receive split: if_splits option.splits)

lemma dom_turns:
  "wait_send_window sid tbl = Some tbl' \<Longrightarrow> dom tbl' = dom tbl"
  "buffer_recv now sid tbl = Some (f, d, tbl') \<Longrightarrow> dom tbl' = dom tbl"
  by (auto simp: table_defs split: option.splits if_splits list.splits)

lemma mux_ok_deliver:
  assumes ok: "mux_ok m" and turn: "deliver_turn now raw w sid m = Goes_on m'"
  shows "mux_ok m'"
proof -
  from turn obtain rx where rx: "mx_streams m sid = Some rx"
    by (auto simp: deliver_turn_def split: option.splits)
  with ok have inv: "flow_inv (rx_flow rx)" by (auto simp: mux_ok_def)
  show ?thesis
  proof (cases "outgoing_task_turn now raw w sid (mx_table m, mx_out m, rx)")
    case (Ends e)
    with turn rx mux_ok_stream_end [OF ok] show ?thesis by (auto simp: deliver_turn_def)
  next
    case (Goes_on st)
    obtain tbl out rx' where st: "st = (tbl, out, rx')" by (cases st)
    from Goes_on st have g: "outgoing_task_turn now raw w sid (mx_table m, mx_out m, rx)
        = Goes_on (tbl, out, rx')" by simp
    obtain f d where "buffer_recv now sid (mx_table m) = Some (f, d, tbl)" "flow_inv (rx_flow rx')"
      by (rule outgoing_task_turn_effect [OF inv g])
    with ok turn rx g show ?thesis
      by (auto simp: deliver_turn_def dest: dom_turns intro: mux_ok_stream)
  qed (use turn rx in \<open>auto simp: deliver_turn_def\<close>)
qed

lemma mux_ok_push:
  assumes ok: "mux_ok m" and turn: "push_turn chunk sid m = Goes_on m'"
  shows "mux_ok m'"
  using turn mux_ok_stream_end [OF ok] mux_ok_table(2) [OF ok]
  by (auto simp: push_turn_def incoming_task_turn_def
      split: option.splits turn.splits prod.splits sum.splits dest: dom_turns)

lemma mux_ok_ping_start: "mux_ok m \<Longrightarrow> ping_start pj now idle m = Some m' \<Longrightarrow> mux_ok m'"
  by (auto simp: ping_start_def ping_next_def split: option.splits if_splits list.splits)

lemma mux_ok_ping_poll: "mux_ok m \<Longrightarrow> ping_poll now m = Some (Inr m') \<Longrightarrow> mux_ok m'"
  by (auto simp: ping_poll_def split: option.splits if_splits)

lemma mux_ok_bound: "mux_ok m \<Longrightarrow> length (mx_accepted m) \<le> 100"
  by (simp add: mux_ok_def)

lemma mux_ok_accept: "mux_ok m \<Longrightarrow> accept e m = (r, m') \<Longrightarrow> mux_ok m'"
  by (frule mux_ok_bound)
    (auto simp: accept_def intro: mux_ok_accepted split: option.splits if_splits list.splits)

lemmas mux_ok_intros = mux_ok_open mux_ok_dispatch mux_ok_deliver mux_ok_push mux_ok_ping_start
  mux_ok_ping_poll mux_ok_accept

lemma mux_ok_step:
  assumes "mux_ok m" and "mux_step pj pp m m'"
  shows "mux_ok m'"
  using assms(2,1) by cases (auto intro: mux_ok_intros simp: set_liveness_def)

interpretation mux_sys: invariant_system "\<lambda>m. m = mux_new" "mux_step pj pp" mux_ok
  for pj pp
  by unfold_locales (auto intro: mux_ok_new mux_ok_step)

text \<open>
  C4: In every state a multiplexer can reach, whatever the peer sends and however the loops
  and tasks interleave, the buffer table has an entry exactly for the running streams, at
  most 100 streams wait to be accepted, and no stream task can panic on its window
  arithmetic.
\<close>

theorem mux_reachable_ok:
  assumes "reachable (\<lambda>m. m = mux_new) (mux_step pj pp) m"
  shows "dom (mx_table m) = dom (mx_streams m) \<and> length (mx_accepted m) \<le> 100 \<and>
     deliver_turn now raw w sid m \<noteq> Panics"
proof -
  have ok: "mux_ok m" using assms by (rule mux_sys.reachable_inv)
  then have "\<And>rx. mx_streams m sid = Some rx \<Longrightarrow> flow_inv (rx_flow rx)"
    by (auto simp: mux_ok_def)
  then have "deliver_turn now raw w sid m \<noteq> Panics"
    using outgoing_task_turn_no_panic [of _ now raw w sid "mx_table m" "mx_out m"]
    by (auto simp: deliver_turn_def split: option.splits turn.splits)
  with ok show ?thesis by (simp add: mux_ok_def)
qed

theorem mux_reachable_ok_witness:
  "\<exists>m. reachable (\<lambda>m. m = mux_new) (mux_step (\<lambda>_. []) (\<lambda>_. None)) m \<and>
     mx_accepted m = [(5, [1])] \<and> dom (mx_table m) = dom (mx_streams m) \<and>
     deliver_turn 0 0 True 5 m \<noteq> Panics"
proof -
  let ?m = "(create_stream 5 mux_new)\<lparr>mx_accepted := [(5, [1])]\<rparr>"
  have d: "dispatch (\<lambda>_. None) 0 (new_frame 5 CMD_SYN [1]) mux_new = Inr ?m"
    by (simp add: dispatch_def new_frame_def accept_syn_def mux_new_def create_stream_def
        contains_id_def table_new_def Let_def)
  then have "mux_step (\<lambda>_. []) (\<lambda>_. None) mux_new ?m" by (rule step_frame)
  then have r: "reachable (\<lambda>m. m = mux_new) (mux_step (\<lambda>_. []) (\<lambda>_. None)) ?m"
    by (blast intro: reachable.intros)
  show ?thesis
    using mux_reachable_ok [OF r, of 0 0 True 5] r by (intro exI [of _ ?m]) simp
qed

section \<open>What the loops do\<close>


lemma syn_frame_eq: "syn_frame sid md = new_frame sid CMD_SYN md"
  by (simp add: syn_frame_def new_empty_def new_frame_def Let_def)



fun dispatch_all ::
    "(bytes \<Rightarrow> PingInfo option) \<Rightarrow> nat \<Rightarrow> Frame list \<Rightarrow> mux \<Rightarrow> io_error + mux" where
  "dispatch_all parse_ping now [] m = Inr m"
| "dispatch_all parse_ping now (f # fs) m =
     result_bind (dispatch parse_ping now f m) (dispatch_all parse_ping now fs)"



text \<open>
  The traffic callbacks of a Stream are told the length of the caller's buffer whenever
  the underlying pipe is ready, not the number of bytes moved: also for a short read, for
  end of file and for an error.
\<close>

theorem stream_callbacks_count_buffer:
  "snd (stream_poll_read False buf_len (Ready r)) = Some buf_len \<and>
   snd (stream_poll_write buf_len (Ready r)) = Some buf_len"
  by (simp add: stream_poll_read_def stream_poll_write_def)

end
