(* ===== verification/Mux_System.thy ===== *)
theory Mux_System
  imports Mux
begin

text \<open>
  Two multiplexers connected by a pair of first-in first-out connections, and the flow control
  of one stream between them. The abstract specification is a credit protocol on five
  counters; the two multiplexers, with all their other streams and pings running, implement
  it (\<open>simulation\<close>).
\<close>

section \<open>The credit protocol\<close>

record credit =
  c_permits :: nat
  c_data :: nat
  c_queue :: nat
  c_grants :: nat
  c_window :: nat

definition credit_init :: "credit \<Rightarrow> bool" where
  "credit_init c \<longleftrightarrow>
     c = \<lparr>c_permits = INIT_WINDOW, c_data = 0, c_queue = 0, c_grants = 0, c_window = INIT_WINDOW\<rparr>"

inductive credit_step :: "credit \<Rightarrow> credit \<Rightarrow> bool" where
  c_send: "c_permits c = Suc p \<Longrightarrow> credit_step c (c\<lparr>c_permits := p, c_data := Suc (c_data c)\<rparr>)"
| c_arrive: "c_data c = Suc d \<Longrightarrow> credit_step c (c\<lparr>c_data := d, c_queue := Suc (c_queue c)\<rparr>)"
| c_consume: "c_queue c = Suc q \<Longrightarrow> w + 1 = c_window c + g \<Longrightarrow> 8 \<le> w \<Longrightarrow> w \<le> MAX_WINDOW \<Longrightarrow>
    credit_step c (c\<lparr>c_queue := q, c_window := w, c_grants := c_grants c + g\<rparr>)"
| c_credit: "c_grants c = r + g \<Longrightarrow>
    credit_step c (c\<lparr>c_grants := r, c_permits := c_permits c + g\<rparr>)"

definition credit_inv :: "credit \<Rightarrow> bool" where
  "credit_inv c \<longleftrightarrow>
     c_permits c + c_data c + c_queue c + c_grants c = c_window c \<and>
     8 \<le> c_window c \<and> c_window c \<le> MAX_WINDOW"

interpretation credit_sys: invariant_system credit_init credit_step credit_inv
proof unfold_locales
  fix c
  assume "credit_init c"
  then show "credit_inv c" by (simp add: credit_init_def credit_inv_def window_defs)
next
  fix c d
  assume "credit_inv c" and "credit_step c d"
  from this(2,1) show "credit_inv d" by cases (auto simp: credit_inv_def)
qed

section \<open>Two multiplexers and two wires\<close>

record link =
  la :: mux
  lb :: mux
  wab :: "Frame list"
  wba :: "Frame list"

definition swap :: "link \<Rightarrow> link" where
  "swap s = \<lparr>la = lb s, lb = la s, wab = wba s, wba = wab s\<rparr>"

text \<open>What the first multiplexer can do.\<close>

inductive act ::
    "(PingInfo \<Rightarrow> bytes) \<Rightarrow> (bytes \<Rightarrow> PingInfo option) \<Rightarrow> link \<Rightarrow> link \<Rightarrow> bool"
  for pj pp where
  act_push: "push_turn (Some chunk) i (la s) = Goes_on m \<Longrightarrow> act pj pp s (s\<lparr>la := m\<rparr>)"
| act_deliver: "deliver_turn now raw ok i (la s) = Goes_on m \<Longrightarrow> act pj pp s (s\<lparr>la := m\<rparr>)"
| act_open: "open_stream cands md (la s) = Some (i, m) \<Longrightarrow> act pj pp s (s\<lparr>la := m\<rparr>)"
| act_ping: "ping_start pj now idle (la s) = Some m \<Longrightarrow> act pj pp s (s\<lparr>la := m\<rparr>)"
| act_pong: "ping_poll now (la s) = Some (Inr m) \<Longrightarrow> act pj pp s (s\<lparr>la := m\<rparr>)"
| act_transmit: "out_queue (mx_out (la s)) = f # q \<Longrightarrow>
    outgoing_turn (Inr ()) (mx_out (la s)) = Some out \<Longrightarrow>
    act pj pp s (s\<lparr>la := (la s)\<lparr>mx_out := out\<rparr>, wab := wab s @ [f]\<rparr>)"
| act_receive: "wba s = f # rest \<Longrightarrow> dispatch pp now f (la s) = Inr m \<Longrightarrow>
    act pj pp s (s\<lparr>la := m, wba := rest\<rparr>)"

definition has_stream :: "u32 \<Rightarrow> mux \<Rightarrow> bool" where
  "has_stream sid m \<longleftrightarrow> contains_id (mx_table m) sid \<and> mx_streams m sid \<noteq> None"

definition open_both :: "u32 \<Rightarrow> link \<Rightarrow> bool" where
  "open_both sid s \<longleftrightarrow> has_stream sid (la s) \<and> has_stream sid (lb s)"

text \<open>Either side acts and the stream stays open on both.\<close>

definition link_step ::
    "(PingInfo \<Rightarrow> bytes) \<Rightarrow> (bytes \<Rightarrow> PingInfo option) \<Rightarrow> u32 \<Rightarrow> link \<Rightarrow> link \<Rightarrow> bool" where
  "link_step pj pp sid s t \<longleftrightarrow> open_both sid t \<and> (act pj pp s t \<or> act pj pp (swap s) (swap t))"

text \<open>What the sender and the receiver of the stream's data see.\<close>

definition is_psh :: "u32 \<Rightarrow> Frame \<Rightarrow> bool" where
  "is_psh sid f \<longleftrightarrow> command (header f) = CMD_PSH \<and> stream_id (header f) = sid"

definition is_fin :: "u32 \<Rightarrow> Frame \<Rightarrow> bool" where
  "is_fin sid f \<longleftrightarrow> command (header f) = CMD_FIN \<and> stream_id (header f) = sid"

definition grant_of :: "u32 \<Rightarrow> Frame \<Rightarrow> nat" where
  "grant_of sid f =
     (if command (header f) = CMD_MORE \<and> stream_id (header f) = sid
      then unat (u16_of_le (body f)) else 0)"

definition psh_count :: "u32 \<Rightarrow> Frame list \<Rightarrow> nat" where
  "psh_count sid fs = length (filter (is_psh sid) fs)"

definition grant_sum :: "u32 \<Rightarrow> Frame list \<Rightarrow> nat" where
  "grant_sum sid fs = sum_list (map (grant_of sid) fs)"

definition send_credit :: "u32 \<Rightarrow> mux \<Rightarrow> nat" where
  "send_credit sid m = stream_permits sid (mx_table m)"

definition recv_queue :: "u32 \<Rightarrow> mux \<Rightarrow> Frame list" where
  "recv_queue sid m = stream_queue sid (mx_table m)"

definition recv_flow :: "u32 \<Rightarrow> mux \<Rightarrow> flow" where
  "recv_flow sid m = (case mx_streams m sid of None \<Rightarrow> flow_init | Some rx \<Rightarrow> rx_flow rx)"

definition path_ab :: "link \<Rightarrow> Frame list" where
  "path_ab s = wab s @ out_queue (mx_out (la s))"

definition path_ba :: "link \<Rightarrow> Frame list" where
  "path_ba s = wba s @ out_queue (mx_out (lb s))"

lemmas frame_preds = is_psh_def is_fin_def grant_of_def
lemmas stream_obs = send_credit_def recv_queue_def recv_flow_def stream_permits_def stream_queue_def

lemma psh_count_simps [simp]:
  "psh_count sid [] = 0"
  "psh_count sid (f # fs) = (if is_psh sid f then Suc (psh_count sid fs) else psh_count sid fs)"
  "psh_count sid (fs @ gs) = psh_count sid fs + psh_count sid gs"
  by (simp_all add: psh_count_def)

lemma grant_sum_simps [simp]:
  "grant_sum sid [] = 0"
  "grant_sum sid (f # fs) = grant_of sid f + grant_sum sid fs"
  "grant_sum sid (fs @ gs) = grant_sum sid fs + grant_sum sid gs"
  by (simp_all add: grant_sum_def)

section \<open>What one action does to one stream\<close>

text \<open>
  \<open>effect sid recv m new m'\<close>: a multiplexer went from m to m', took the frames recv off its
  incoming wire and queued the frames new. For the stream there are five kinds of action.
\<close>

definition idle_frame :: "u32 \<Rightarrow> Frame \<Rightarrow> bool" where
  "idle_frame sid f \<longleftrightarrow> \<not> is_psh sid f \<and> \<not> is_fin sid f \<and> grant_of sid f = 0"

definition same_rx :: "u32 \<Rightarrow> mux \<Rightarrow> mux \<Rightarrow> bool" where
  "same_rx sid m m' \<longleftrightarrow> recv_queue sid m' = recv_queue sid m \<and> recv_flow sid m' = recv_flow sid m"

inductive effect :: "u32 \<Rightarrow> Frame list \<Rightarrow> mux \<Rightarrow> Frame list \<Rightarrow> mux \<Rightarrow> bool" where
  eff_none: "\<forall>f \<in> set (recv @ new). idle_frame sid f \<Longrightarrow> send_credit sid m' = send_credit sid m \<Longrightarrow>
    same_rx sid m m' \<Longrightarrow> effect sid recv m new m'"
| eff_send: "is_psh sid f \<Longrightarrow> send_credit sid m = Suc (send_credit sid m') \<Longrightarrow> same_rx sid m m' \<Longrightarrow>
    effect sid [] m [f] m'"
| eff_consume: "recv_queue sid m = f # recv_queue sid m' \<Longrightarrow> flow_inv (recv_flow sid m') \<Longrightarrow>
    remote_window (recv_flow sid m') + 1 = remote_window (recv_flow sid m) + grant_sum sid new \<Longrightarrow>
    \<forall>g \<in> set new. \<not> is_psh sid g \<and> \<not> is_fin sid g \<Longrightarrow>
    send_credit sid m' = send_credit sid m \<Longrightarrow> effect sid [] m new m'"
| eff_credit: "grant_of sid f = n \<Longrightarrow> \<not> is_psh sid f \<Longrightarrow> send_credit sid m' = send_credit sid m + n \<Longrightarrow>
    same_rx sid m m' \<Longrightarrow> effect sid [f] m [] m'"
| eff_arrive: "is_psh sid f \<Longrightarrow> recv_queue sid m' = recv_queue sid m @ [f] \<Longrightarrow>
    recv_flow sid m' = recv_flow sid m \<Longrightarrow> send_credit sid m' = send_credit sid m \<Longrightarrow>
    effect sid [f] m [] m'"

lemma other_entry_obs:
  assumes "mx_table m' sid = mx_table m sid" and "mx_streams m' sid = mx_streams m sid"
  shows "send_credit sid m' = send_credit sid m" and "same_rx sid m m'"
  using assms by (simp_all add: stream_obs same_rx_def)

lemma idle_frames [simp]:
  "idle_frame sid (new_empty i CMD_SYN)" "idle_frame sid (new_empty i CMD_PONG)"
  "idle_frame sid (syn_frame i md)" "idle_frame sid (ping_frame pj info)"
  "idle_frame sid (psh_frame i bdy) \<longleftrightarrow> i \<noteq> sid"
  "idle_frame sid (new_empty i CMD_FIN) \<longleftrightarrow> i \<noteq> sid"
  "i \<noteq> sid \<Longrightarrow> idle_frame sid (new_frame i cmd bdy)"
  by (auto simp: idle_frame_def frame_preds CMD_defs new_empty_def syn_frame_def ping_frame_def
      psh_frame_def new_frame_def Let_def)

lemma stream_end_other: "has_stream sid (stream_end i m) \<Longrightarrow> i \<noteq> sid"
  by (auto simp: has_stream_def stream_end_def mux_enqueue_def)

lemma stream_end_effect:
  assumes "has_stream sid (stream_end i m)"
  shows "effect sid [] m [new_empty i CMD_FIN] (stream_end i m)"
    and "out_queue (mx_out (stream_end i m)) = out_queue (mx_out m) @ [new_empty i CMD_FIN]"
proof -
  have "i \<noteq> sid" using assms by (rule stream_end_other)
  then show "effect sid [] m [new_empty i CMD_FIN] (stream_end i m)"
    by (intro eff_none other_entry_obs) (simp_all add: stream_end_def mux_enqueue_def buffer_drop_def)
qed (simp add: stream_end_def mux_enqueue_def enqueue_def)

lemma push_effect:
  assumes turn: "push_turn (Some chunk) i m = Goes_on m'" and st: "has_stream sid m'"
  shows "\<exists>new. effect sid [] m new m' \<and> out_queue (mx_out m') = out_queue (mx_out m) @ new"
proof -
  from turn obtain rx where rx: "mx_streams m i = Some rx"
    by (auto simp: push_turn_def split: option.splits)
  from turn rx obtain tbl' where w: "wait_send_window i (mx_table m) = Some tbl'"
    by (auto simp: push_turn_def incoming_task_turn_def split: option.splits)
  show ?thesis
  proof (cases "out_err (mx_out m)")
    case (Some err)
    with turn rx w have "m' = stream_end i m"
      by (auto simp: push_turn_def incoming_task_turn_def outgoing_defs)
    with st stream_end_effect show ?thesis by blast
  next
    case None
    let ?f = "psh_frame i chunk"
    from None turn rx w have m': "m' = m\<lparr>mx_table := tbl', mx_out := enqueue ?f (mx_out m)\<rparr>"
      by (auto simp: push_turn_def incoming_task_turn_def outgoing_send_def send_ready_def Let_def
          enqueue_def split: if_splits)
    have "effect sid [] m [?f] m'"
    proof (cases "i = sid")
      case True
      with w wait_send_window_effect [of sid "mx_table m" tbl'] wait_send_window_Some_iff
      show ?thesis
        by (intro eff_send)
          (auto simp: m' send_credit_def same_rx_def recv_queue_def recv_flow_def is_psh_def
            psh_frame_def)
    next
      case False
      then show ?thesis
        using table_frame(5) [OF not_sym [OF False] w]
        by (intro eff_none other_entry_obs) (simp_all add: m')
    qed
    then show ?thesis by (auto simp: m' enqueue_def)
  qed
qed

lemma deliver_effect:
  assumes turn: "deliver_turn now raw ok i m = Goes_on m'" and st: "has_stream sid m'"
    and inv: "flow_inv (recv_flow sid m)"
  shows "\<exists>new. effect sid [] m new m' \<and> out_queue (mx_out m') = out_queue (mx_out m) @ new"
proof -
  from turn obtain rx where rx: "mx_streams m i = Some rx"
    by (auto simp: deliver_turn_def split: option.splits)
  show ?thesis
  proof (cases "outgoing_task_turn now raw ok i (mx_table m, mx_out m, rx)")
    case (Ends e)
    with turn rx have "m' = stream_end i m" by (simp add: deliver_turn_def)
    with st stream_end_effect show ?thesis by blast
  next
    case (Goes_on x)
    obtain tbl' out' rx' where x: "x = (tbl', out', rx')" by (cases x)
    have g: "outgoing_task_turn now raw ok i (mx_table m, mx_out m, rx)
        = turn.Goes_on (tbl', out', rx')"
      using Goes_on x by simp
    have m': "m' = m\<lparr>mx_table := tbl', mx_out := out', mx_streams := (mx_streams m)(i \<mapsto> rx')\<rparr>"
      using turn rx g by (simp add: deliver_turn_def)
    show ?thesis
    proof (cases "i = sid")
      case True
      with rx inv have "flow_inv (rx_flow rx)" by (simp add: recv_flow_def)
      from outgoing_task_turn_effect [OF this g] obtain f d grant where
        r: "buffer_recv now i (mx_table m) = Some (f, d, tbl')" and fi: "flow_inv (rx_flow rx')"
        and w: "remote_window (rx_flow rx') + 1 =
            remote_window (rx_flow rx) + (case grant of None \<Rightarrow> 0 | Some q \<Rightarrow> unat q)"
        and o: "out' = (case grant of None \<Rightarrow> mx_out m
            | Some q \<Rightarrow> enqueue (new_frame i CMD_MORE (u16_le q)) (mx_out m))"
        by blast
      let ?new = "case grant of None \<Rightarrow> [] | Some q \<Rightarrow> [new_frame i CMD_MORE (u16_le q)]"
      have "effect sid [] m ?new m'"
      proof (rule eff_consume)
        show "recv_queue sid m = f # recv_queue sid m'" "send_credit sid m' = send_credit sid m"
          using buffer_recv_effect [OF r] True by (simp_all add: m' recv_queue_def send_credit_def)
        show "flow_inv (recv_flow sid m')" using fi True by (simp add: m' recv_flow_def)
        show "remote_window (recv_flow sid m') + 1 =
            remote_window (recv_flow sid m) + grant_sum sid ?new"
          using w True rx
          by (auto simp: m' recv_flow_def grant_of_def new_frame_def word_bytes_roundtrip
              split: option.splits)
        show "\<forall>g \<in> set ?new. \<not> is_psh sid g \<and> \<not> is_fin sid g"
          by (auto simp: frame_preds new_frame_def CMD_defs split: option.splits)
      qed
      then show ?thesis using o by (auto simp: m' enqueue_def split: option.splits)
    next
      case False
      from g obtain f d where r: "buffer_recv now i (mx_table m) = Some (f, d, tbl')"
        by (auto simp: outgoing_task_turn_def split: option.splits if_splits)
      from g obtain new where o: "out_queue out' = out_queue (mx_out m) @ new"
          and idle: "\<forall>f \<in> set new. idle_frame sid f"
        using False
        by (auto simp: outgoing_task_turn_def enqueue_def split: option.splits if_splits)
      have "effect sid [] m new m'"
        using table_frame(6) [OF not_sym [OF False] r] False idle
        by (intro eff_none other_entry_obs) (simp_all add: m')
      then show ?thesis using o by (auto simp: m')
    qed
  qed (use turn rx in \<open>auto simp: deliver_turn_def\<close>)
qed

lemma quiet_effect:
  assumes "mx_table m' sid = mx_table m sid" and "mx_streams m' sid = mx_streams m sid"
    and "out_queue (mx_out m') = out_queue (mx_out m) @ new" and "\<forall>f \<in> set new. idle_frame sid f"
  shows "\<exists>new. effect sid [] m new m' \<and> out_queue (mx_out m') = out_queue (mx_out m) @ new"
  using assms by (intro exI [of _ new] conjI eff_none other_entry_obs) simp_all

lemma open_effect:
  assumes "open_stream cands md m = Some (i, m')" and "has_stream sid m"
  shows "\<exists>new. effect sid [] m new m' \<and> out_queue (mx_out m') = out_queue (mx_out m) @ new"
proof -
  have "\<not> contains_id (mx_table m) i"
    using assms(1) by (auto simp: open_stream_def open_req_def Let_def find_Some_iff split: option.splits)
  with assms(2) have "i \<noteq> sid" by (auto simp: has_stream_def)
  with assms(1) show ?thesis
    by (intro quiet_effect [where new = "[syn_frame i md]"])
      (auto simp: open_stream_def open_req_def Let_def create_stream_def mux_enqueue_def enqueue_def
        create_entry_def split: option.splits)
qed

lemma ping_start_effect:
  assumes "ping_start pj now idle m = Some m'"
  shows "\<exists>new. effect sid [] m new m' \<and> out_queue (mx_out m') = out_queue (mx_out m) @ new"
proof -
  obtain info m1 where p: "ping_next idle m = Some (info, m1)"
    and m': "m' = mux_enqueue (ping_frame pj info)
        (m1\<lparr>mx_ping_lc := Some info, mx_ping_wait := Some (info, now)\<rparr>)"
    using assms by (auto simp: ping_start_def split: if_splits)
  have "mx_table m1 = mx_table m" "mx_streams m1 = mx_streams m" "mx_out m1 = mx_out m"
    using p by (auto simp: ping_next_def split: option.splits if_splits list.splits)
  then show ?thesis
    by (intro quiet_effect [where new = "[ping_frame pj info]"])
      (simp_all add: m' mux_enqueue_def enqueue_def)
qed

lemma ping_poll_effect:
  assumes "ping_poll now m = Some (Inr m')"
  shows "\<exists>new. effect sid [] m new m' \<and> out_queue (mx_out m') = out_queue (mx_out m) @ new"
  using assms
  by (intro quiet_effect [where new = "[]"]) (auto simp: ping_poll_def split: option.splits if_splits)

lemma receive_effect:
  assumes d: "dispatch pp now f m = Inr m'" and st: "has_stream sid m"
    and q: "length (recv_queue sid m) \<le> MAX_WINDOW * 2" and fin: "\<not> is_fin sid f"
  shows "\<exists>new. effect sid [f] m new m' \<and> out_queue (mx_out m') = out_queue (mx_out m) @ new"
proof -
  let ?i = "stream_id (header f)" and ?c = "command (header f)"
  have quiet: "\<exists>new. effect sid [f] m new m' \<and> out_queue (mx_out m') = out_queue (mx_out m) @ new"
    if "idle_frame sid f" "mx_table m' sid = mx_table m sid" "mx_streams m' sid = mx_streams m sid"
      "out_queue (mx_out m') = out_queue (mx_out m) @ new" "\<forall>f \<in> set new. idle_frame sid f" for new
    using that by (intro exI [of _ new] conjI eff_none other_entry_obs) simp_all
  consider (syn) "?c = CMD_SYN" | (grant) "?c = CMD_MORE" | (data) "?c = CMD_PSH \<or> ?c = CMD_FIN"
    | (other) "?c \<notin> {CMD_SYN, CMD_MORE, CMD_PSH, CMD_FIN}" by blast
  then show ?thesis
  proof cases
    case syn
    with d have a: "accept_syn ?i (body f) m = Inr m'" by (simp add: dispatch_def Let_def)
    with st have "?i \<noteq> sid" by (auto simp: accept_syn_def has_stream_def split: if_splits)
    with a syn show ?thesis
      by (intro quiet [where new = "[]"])
        (auto simp: accept_syn_def create_stream_def create_entry_def Let_def idle_frame_def
          frame_preds CMD_defs split: if_splits)
  next
    case grant
    with d have m': "m' = m\<lparr>mx_table := incr_send_window ?i (u16_of_le (body f)) (mx_table m)\<rparr>"
      by (auto simp: dispatch_def Let_def CMD_defs split: if_splits)
    show ?thesis
    proof (cases "?i = sid")
      case True
      with st incr_send_window_effect [of "mx_table m" sid "u16_of_le (body f)"] grant
      have "effect sid [f] m [] m'"
        by (intro eff_credit)
          (auto simp: m' send_credit_def same_rx_def recv_queue_def recv_flow_def has_stream_def
            frame_preds CMD_defs)
      then show ?thesis by (auto simp: m')
    next
      case False
      with grant table_frame(2) [OF not_sym [OF False]] show ?thesis
        by (intro quiet [where new = "[]"])
          (simp_all add: m' idle_frame_def frame_preds CMD_defs)
    qed
  next
    case data
    with d have m': "m' = m\<lparr>mx_table := send_to now ?i f (mx_table m)\<rparr>"
      by (auto simp: dispatch_def Let_def CMD_defs split: if_splits)
    show ?thesis
    proof (cases "?i = sid")
      case True
      with data fin have "is_psh sid f" by (auto simp: frame_preds)
      with True st q send_to_queue [of "mx_table m" sid now f]
      have "effect sid [f] m [] m'"
        by (intro eff_arrive)
          (auto simp: m' send_credit_def recv_queue_def recv_flow_def has_stream_def)
      then show ?thesis by (auto simp: m')
    next
      case False
      with data table_frame(1) [OF not_sym [OF False]] show ?thesis
        by (intro quiet [where new = "[]"])
          (auto simp: m' idle_frame_def frame_preds CMD_defs)
    qed
  next
    case other
    then have idle: "idle_frame sid f" by (auto simp: idle_frame_def frame_preds)
    show ?thesis
    proof (cases "?c = CMD_PING")
      case True
      with d idle show ?thesis
        by (intro quiet [where new = "[new_empty 0 CMD_PONG]"])
          (auto simp: dispatch_def Let_def CMD_defs mux_enqueue_def enqueue_def
            idle_frames(2) [unfolded CMD_defs] split: option.splits)
    next
      case False
      with d idle other show ?thesis
        by (intro quiet [where new = "[]"])
          (auto simp: dispatch_def Let_def split: if_splits)
    qed
  qed
qed

text \<open>Every action, with what it takes from and adds to the two paths.\<close>

lemma act_effect:
  assumes a: "act pj pp s t" and st: "has_stream sid (la s)" "has_stream sid (la t)"
    and inv: "flow_inv (recv_flow sid (la s))"
    and q: "length (recv_queue sid (la s)) \<le> MAX_WINDOW * 2"
    and fin: "\<forall>f \<in> set (wba s). \<not> is_fin sid f"
  shows "\<exists>recv new. effect sid recv (la s) new (la t) \<and> wba s = recv @ wba t \<and>
     path_ab t = path_ab s @ new \<and> lb t = lb s"
  using a
proof cases
  case (act_push chunk i m)
  with st push_effect [of chunk i "la s" m sid] show ?thesis
    by (fastforce simp: path_ab_def)
next
  case (act_deliver now raw ok i m)
  with st inv deliver_effect [of now raw ok i "la s" m sid] show ?thesis
    by (fastforce simp: path_ab_def)
next
  case (act_open cands md i m)
  with st open_effect [of cands md "la s" i m sid] show ?thesis
    by (fastforce simp: path_ab_def)
next
  case (act_ping now idle m)
  with ping_start_effect [of pj now idle "la s" m sid] show ?thesis
    by (fastforce simp: path_ab_def)
next
  case (act_pong now m)
  with ping_poll_effect [of now "la s" m sid] show ?thesis
    by (fastforce simp: path_ab_def)
next
  case (act_transmit f q out)
  then have "out_queue out = q" by (auto simp: outgoing_turn_def split: option.splits)
  moreover have "effect sid [] (la s) [] ((la s)\<lparr>mx_out := out\<rparr>)"
    by (intro eff_none other_entry_obs) simp_all
  ultimately show ?thesis using act_transmit by (auto simp: path_ab_def)
next
  case (act_receive f rest now m)
  with receive_effect [of pp now f "la s" m sid] st q fin show ?thesis
    by (fastforce simp: path_ab_def)
qed

section \<open>The link implements the credit protocol\<close>

definition credit_of :: "u32 \<Rightarrow> link \<Rightarrow> credit" where
  "credit_of sid s =
     \<lparr>c_permits = send_credit sid (la s), c_data = psh_count sid (path_ab s),
      c_queue = length (recv_queue sid (lb s)), c_grants = grant_sum sid (path_ba s),
      c_window = remote_window (recv_flow sid (lb s))\<rparr>"

definition fresh_stream :: "u32 \<Rightarrow> mux \<Rightarrow> bool" where
  "fresh_stream sid m \<longleftrightarrow>
     mx_table m sid = Some \<lparr>incoming = [], permits = INIT_WINDOW\<rparr> \<and>
     mx_streams m sid = Some stream_rx_new"

definition link_init :: "u32 \<Rightarrow> link \<Rightarrow> bool" where
  "link_init sid s \<longleftrightarrow>
     fresh_stream sid (la s) \<and> fresh_stream sid (lb s) \<and>
     (\<forall>f \<in> set (path_ab s @ path_ba s). idle_frame sid f)"

definition dir_inv :: "u32 \<Rightarrow> link \<Rightarrow> bool" where
  "dir_inv sid s \<longleftrightarrow>
     credit_inv (credit_of sid s) \<and> flow_inv (recv_flow sid (lb s)) \<and>
     (\<forall>f \<in> set (path_ab s). \<not> is_fin sid f)"

definition link_inv :: "u32 \<Rightarrow> link \<Rightarrow> bool" where
  "link_inv sid s \<longleftrightarrow> open_both sid s \<and> dir_inv sid s \<and> dir_inv sid (swap s)"

lemma swap_simps [simp]:
  "la (swap s) = lb s" "lb (swap s) = la s" "wab (swap s) = wba s" "wba (swap s) = wab s"
  "path_ab (swap s) = path_ba s" "path_ba (swap s) = path_ab s" "swap (swap s) = s"
  by (simp_all add: swap_def path_ab_def path_ba_def)

lemma open_both_swap [simp]: "open_both sid (swap s) \<longleftrightarrow> open_both sid s"
  by (auto simp: open_both_def)

lemma link_inv_swap [simp]: "link_inv sid (swap s) \<longleftrightarrow> link_inv sid s"
  by (auto simp: link_inv_def)

lemma idle_list:
  assumes "\<forall>f \<in> set fs. idle_frame sid f"
  shows "psh_count sid fs = 0" and "grant_sum sid fs = 0" and "\<forall>f \<in> set fs. \<not> is_fin sid f"
  using assms by (induction fs) (auto simp: idle_frame_def)

lemma psh_no_grant: "is_psh sid f \<Longrightarrow> grant_of sid f = 0 \<and> \<not> is_fin sid f"
  by (auto simp: frame_preds CMD_defs)

lemma no_psh_count: "\<forall>g \<in> set fs. \<not> is_psh sid g \<and> \<not> is_fin sid g \<Longrightarrow> psh_count sid fs = 0"
  by (induction fs) auto

text \<open>The acting side as the sender of the data, and as its receiver.\<close>

lemma sender_effect:
  assumes e: "effect sid recv (la s) new (la t)" and w: "wba s = recv @ wba t"
    and p: "path_ab t = path_ab s @ new" and b: "lb t = lb s"
  shows "(credit_step (credit_of sid s) (credit_of sid t) \<or> credit_of sid t = credit_of sid s)
    \<and> (\<forall>f \<in> set new. \<not> is_fin sid f)"
proof -
  have ba: "path_ba s = recv @ path_ba t" using w b by (simp add: path_ba_def)
  from e show ?thesis
  proof cases
    case eff_none
    with idle_list [of recv sid] idle_list [of new sid] p b ba show ?thesis
      by (simp add: credit_of_def same_rx_def)
  next
    case (eff_send f)
    then have "credit_of sid t = (credit_of sid s)\<lparr>c_permits := send_credit sid (la t),
        c_data := Suc (c_data (credit_of sid s))\<rparr>"
      using p b ba by (simp add: credit_of_def)
    moreover have "c_permits (credit_of sid s) = Suc (send_credit sid (la t))"
      using eff_send by (simp add: credit_of_def)
    ultimately show ?thesis using eff_send psh_no_grant by (auto intro: c_send)
  next
    case (eff_consume f)
    with no_psh_count [of new sid] p b ba show ?thesis by (simp add: credit_of_def)
  next
    case (eff_credit f n)
    then have "credit_of sid t = (credit_of sid s)\<lparr>c_grants := c_grants (credit_of sid t),
        c_permits := c_permits (credit_of sid s) + n\<rparr>"
      using p b ba by (simp add: credit_of_def)
    moreover have "c_grants (credit_of sid s) = c_grants (credit_of sid t) + n"
      using eff_credit ba by (simp add: credit_of_def)
    ultimately show ?thesis using eff_credit c_credit by fastforce
  next
    case (eff_arrive f)
    with psh_no_grant [of sid f] p b ba show ?thesis by (simp add: credit_of_def)
  qed
qed

lemma receiver_effect:
  assumes e: "effect sid recv (lb s) new (lb t)" and w: "wab s = recv @ wab t"
    and p: "path_ba t = path_ba s @ new" and a: "la t = la s"
    and inv: "flow_inv (recv_flow sid (lb s))"
  shows "(credit_step (credit_of sid s) (credit_of sid t) \<or> credit_of sid t = credit_of sid s)
    \<and> flow_inv (recv_flow sid (lb t))"
proof -
  have ab: "path_ab s = recv @ path_ab t" using w a by (simp add: path_ab_def)
  from e show ?thesis
  proof cases
    case eff_none
    with idle_list [of recv sid] idle_list [of new sid] p a ab inv show ?thesis
      by (simp add: credit_of_def same_rx_def)
  next
    case (eff_send f)
    with psh_no_grant [of sid f] p a ab inv show ?thesis by (simp add: credit_of_def same_rx_def)
  next
    case (eff_consume f)
    then have "credit_of sid t = (credit_of sid s)\<lparr>c_queue := length (recv_queue sid (lb t)),
        c_window := remote_window (recv_flow sid (lb t)),
        c_grants := c_grants (credit_of sid s) + grant_sum sid new\<rparr>"
      using p a ab by (simp add: credit_of_def)
    moreover have "c_queue (credit_of sid s) = Suc (length (recv_queue sid (lb t)))"
      using eff_consume by (simp add: credit_of_def)
    moreover have "remote_window (recv_flow sid (lb t)) + 1 =
        c_window (credit_of sid s) + grant_sum sid new"
      using eff_consume by (simp add: credit_of_def)
    ultimately show ?thesis
      using eff_consume c_consume by (auto simp: flow_inv_def)
  next
    case (eff_credit f n)
    with p a ab inv show ?thesis by (simp add: credit_of_def same_rx_def)
  next
    case (eff_arrive f)
    then have "credit_of sid t = (credit_of sid s)\<lparr>c_data := psh_count sid (path_ab t),
        c_queue := Suc (c_queue (credit_of sid s))\<rparr>"
      using p a ab by (simp add: credit_of_def)
    moreover have "c_data (credit_of sid s) = Suc (psh_count sid (path_ab t))"
      using eff_arrive ab by (simp add: credit_of_def)
    ultimately show ?thesis using eff_arrive c_arrive inv by auto
  qed
qed

lemma credit_step_or_eq:
  "credit_inv c \<Longrightarrow> credit_step c d \<or> d = c \<Longrightarrow> credit_inv d"
  by (auto intro: credit_sys.step_inv)

lemma act_link:
  assumes a: "act pj pp s t" and inv: "link_inv sid s" and o: "open_both sid t"
  shows "link_inv sid t"
    and "credit_step (credit_of sid s) (credit_of sid t) \<or> credit_of sid t = credit_of sid s"
    and "credit_step (credit_of sid (swap s)) (credit_of sid (swap t)) \<or>
         credit_of sid (swap t) = credit_of sid (swap s)"
proof -
  from inv have d: "dir_inv sid s" "dir_inv sid (swap s)" and os: "open_both sid s"
    by (auto simp: link_inv_def)
  have "length (recv_queue sid (la s)) \<le> MAX_WINDOW * 2"
    using d(2) by (simp add: dir_inv_def credit_inv_def credit_of_def)
  moreover have fin: "\<forall>f \<in> set (wba s). \<not> is_fin sid f"
    using d(2) by (auto simp: dir_inv_def path_ba_def)
  ultimately obtain recv new where e: "effect sid recv (la s) new (la t)" "wba s = recv @ wba t"
      "path_ab t = path_ab s @ new" "lb t = lb s"
    using act_effect [OF a, of sid] os o d(2) by (auto simp: open_both_def dir_inv_def)
  note snd = sender_effect [OF e]
  have rcv: "(credit_step (credit_of sid (swap s)) (credit_of sid (swap t)) \<or>
      credit_of sid (swap t) = credit_of sid (swap s)) \<and> flow_inv (recv_flow sid (la t))"
    using receiver_effect [of sid recv "swap s" new "swap t"] e d(2) by (auto simp: dir_inv_def)
  show "credit_step (credit_of sid s) (credit_of sid t) \<or> credit_of sid t = credit_of sid s"
    using snd by blast
  show "credit_step (credit_of sid (swap s)) (credit_of sid (swap t)) \<or>
         credit_of sid (swap t) = credit_of sid (swap s)"
    using rcv by blast
  have "dir_inv sid t"
    using d(1) snd credit_step_or_eq [of "credit_of sid s"] e(3,4)
    by (auto simp: dir_inv_def)
  moreover have "path_ba s = recv @ path_ba t"
    using e(2,4) by (simp add: path_ba_def)
  then have "dir_inv sid (swap t)"
    using d(2) rcv credit_step_or_eq [of "credit_of sid (swap s)"]
    by (auto simp: dir_inv_def)
  ultimately show "link_inv sid t" using o by (simp add: link_inv_def)
qed

lemma link_step_inv:
  assumes "link_inv sid s" and "link_step pj pp sid s t"
  shows "link_inv sid t"
    and "credit_step (credit_of sid s) (credit_of sid t) \<or> credit_of sid t = credit_of sid s"
  using assms act_link [of pj pp s t sid] act_link [of pj pp "swap s" "swap t" sid]
  by (auto simp: link_step_def)

lemma credit_of_init: "link_init sid s \<Longrightarrow> credit_init (credit_of sid s)"
  using idle_list [of "path_ab s" sid] idle_list [of "path_ba s" sid]
  by (simp add: link_init_def fresh_stream_def credit_of_def credit_init_def stream_obs
      stream_rx_new_def flow_init_def)

lemma link_init_swap: "link_init sid s \<Longrightarrow> link_init sid (swap s)"
  by (auto simp: link_init_def)

lemma dir_inv_init: "link_init sid s \<Longrightarrow> dir_inv sid s"
  using credit_sys.init_inv [OF credit_of_init] idle_list [of "path_ab s" sid]
  by (auto simp: dir_inv_def link_init_def fresh_stream_def stream_obs)

lemma link_inv_init: "link_init sid s \<Longrightarrow> link_inv sid s"
  using dir_inv_init [of sid s] dir_inv_init [OF link_init_swap, of sid s]
  by (auto simp: link_inv_def open_both_def has_stream_def contains_id_def link_init_def
      fresh_stream_def)

interpretation link_sim: simulation "link_init sid" "link_step pj pp sid" "link_inv sid"
    credit_init credit_step "credit_of sid"
  for sid pj pp
  by unfold_locales (auto intro: link_inv_init credit_of_init link_step_inv(1) dest: link_step_inv(2))

text \<open>A concrete run: both sides hold a fresh stream 5 and the first one sends a byte.\<close>

definition example_mux :: mux where
  "example_mux = create_stream 5 mux_new"

definition example_sent :: mux where
  "example_sent =
     example_mux\<lparr>mx_table := [5 \<mapsto> \<lparr>incoming = [], permits = 9\<rparr>],
       mx_out := enqueue (psh_frame 5 [1]) outgoing_new\<rparr>"

definition example_link :: link where
  "example_link = \<lparr>la = example_sent, lb = example_mux, wab = [], wba = []\<rparr>"

definition example_start :: link where
  "example_start = \<lparr>la = example_mux, lb = example_mux, wab = [], wba = []\<rparr>"

lemma example_start_reachable:
  "reachable (link_init 5) (link_step (\<lambda>_. []) (\<lambda>_. None) 5) example_start"
proof -
  have "link_init 5 example_start"
    by (simp add: link_init_def fresh_stream_def example_mux_def create_stream_def create_entry_def
        mux_new_def path_ab_def path_ba_def outgoing_new_def example_start_def)
  then show ?thesis by (rule reachable.intros)
qed

lemma example_link_reachable:
  "reachable (link_init 5) (link_step (\<lambda>_. []) (\<lambda>_. None) 5) example_link"
proof -
  let ?s = "\<lparr>la = example_mux, lb = example_mux, wab = [], wba = []\<rparr>"
  have "push_turn (Some [1]) 5 example_mux = Goes_on example_sent"
    by (simp add: push_turn_def example_mux_def example_sent_def create_stream_def create_entry_def
        incoming_task_turn_def wait_send_window_def mux_new_def table_new_def outgoing_defs
        window_defs)
  then have "act (\<lambda>_. []) (\<lambda>_. None) ?s (?s\<lparr>la := example_sent\<rparr>)"
    by (intro act_push) simp
  moreover have "open_both 5 example_link"
    by (simp add: open_both_def has_stream_def contains_id_def example_link_def example_sent_def
        example_mux_def create_stream_def create_entry_def)
  ultimately have "link_step (\<lambda>_. []) (\<lambda>_. None) 5 ?s example_link"
    by (simp add: link_step_def example_link_def)
  with example_start_reachable show ?thesis
    by (auto simp: example_start_def intro: reachable.intros)
qed

lemmas example_eval = example_link_def example_sent_def example_mux_def create_stream_def
  create_entry_def mux_new_def stream_obs path_ab_def path_ba_def outgoing_defs psh_frame_def
  is_psh_def stream_rx_new_def flow_init_def window_defs

text \<open>
  C2: Credit conservation. In every reachable state of two connected multiplexers, with any
  other streams and pings interleaved, the frames a sender may still send on a stream plus
  its data frames under way, its frames queued at the receiver and the window increases under
  way add up to the window the receiver accounts for; so the receiver's queue never holds
  more than MAX_WINDOW frames and \<open>send_to\<close> never drops a frame.
\<close>

theorem credit_conservation:
  assumes "reachable (link_init sid) (link_step pj pp sid) s"
  shows "send_credit sid (la s) + psh_count sid (path_ab s) + length (recv_queue sid (lb s))
       + grant_sum sid (path_ba s) = remote_window (recv_flow sid (lb s)) \<and>
     length (recv_queue sid (lb s)) \<le> MAX_WINDOW"
proof -
  have "reachable credit_init credit_step (credit_of sid s)"
    using assms by (rule link_sim.reachable_abs)
  then have "credit_inv (credit_of sid s)" by (rule credit_sys.reachable_inv)
  then show ?thesis by (simp add: credit_inv_def credit_of_def)
qed

theorem credit_conservation_witness:
  "send_credit 5 (la example_link) = 9 \<and> psh_count 5 (path_ab example_link) = 1 \<and>
   send_credit 5 (la example_link) + psh_count 5 (path_ab example_link)
     + length (recv_queue 5 (lb example_link)) + grant_sum 5 (path_ba example_link) = 10"
  using credit_conservation [OF example_link_reachable] by (simp add: example_eval)

text \<open>
  C3: No flow-control deadlock. Whenever a sender has no send window left, one of its data
  frames or a non-zero window increase is under way or a frame is queued at the receiver, so
  some step of the flow control can still be made; and once everything under way has been
  processed the sender may send at least eight frames.
\<close>

theorem no_flow_deadlock:
  assumes "reachable (link_init sid) (link_step pj pp sid) s"
  shows "(send_credit sid (la s) = 0 \<longrightarrow>
       0 < psh_count sid (path_ab s) \<or> 0 < grant_sum sid (path_ba s) \<or> recv_queue sid (lb s) \<noteq> []) \<and>
     (psh_count sid (path_ab s) = 0 \<and> grant_sum sid (path_ba s) = 0 \<and> recv_queue sid (lb s) = [] \<longrightarrow>
       8 \<le> send_credit sid (la s))"
proof -
  have "link_inv sid s" using assms by (rule link_sim.reachable_inv)
  then have "credit_inv (credit_of sid s)" by (simp add: link_inv_def dir_inv_def)
  then show ?thesis by (auto simp: credit_inv_def credit_of_def)
qed

theorem no_flow_deadlock_witness:
  "8 \<le> send_credit 5 (la example_start) \<and> psh_count 5 (path_ab example_start) = 0 \<and>
   grant_sum 5 (path_ba example_start) = 0 \<and> recv_queue 5 (lb example_start) = []"
proof -
  have idle: "psh_count 5 (path_ab example_start) = 0" "grant_sum 5 (path_ba example_start) = 0"
      "recv_queue 5 (lb example_start) = []"
    by (simp_all add: example_eval example_start_def)
  with no_flow_deadlock [OF example_start_reachable] show ?thesis by blast
qed

end
