(* ===== verification/Sos_State.thy ===== *)
theory Sos_State
  imports Prelude
begin

text \<open>
  The record layer of the sosistab3 transport (libraries/sillad-sosistab3/src/state.rs): keys
  and nonce counters of one side of a connection, encryption of a message with optional length
  padding, and decryption of the first record of a byte string.

  ChaCha20-Poly1305 and BLAKE3 are third-party crates: they are the fields of the record
  \<open>sos_crypto\<close> that the operations take as an argument. What the code relies on is \<open>aead_ok\<close>.
  A panic (nonce overflow, the slice of the padding buffer, a failed assert) is None.
\<close>

section \<open>Cryptographic primitives used\<close>

text \<open>
  \<open>seal k n m\<close> is \<open>encrypt_in_place_detached\<close> with empty associated data: the ciphertext and the
  tag. \<open>unseal k n c t\<close> is \<open>decrypt_in_place_detached\<close>.
\<close>

record sos_crypto =
  seal :: "bytes \<Rightarrow> bytes \<Rightarrow> bytes \<Rightarrow> (bytes \<times> bytes) option"
  unseal :: "bytes \<Rightarrow> bytes \<Rightarrow> bytes \<Rightarrow> bytes \<Rightarrow> bytes option"
  derive_key :: "string \<Rightarrow> bytes \<Rightarrow> bytes"
  blake3_hash :: "bytes \<Rightarrow> bytes"
  x25519 :: "bytes \<Rightarrow> bytes \<Rightarrow> bytes"
  x25519_public :: "bytes \<Rightarrow> bytes"

definition aead_ok :: "sos_crypto \<Rightarrow> bool" where
  "aead_ok cr \<longleftrightarrow> (\<forall>k n m. length m < 2 ^ 31 \<longrightarrow>
     (\<exists>c t. seal cr k n m = Some (c, t) \<and> length c = length m \<and> length t = 16 \<and>
        unseal cr k n c t = Some m))"

lemma aead_okE:
  assumes "aead_ok cr" and "length m < 2 ^ 31"
  obtains c t where "seal cr k n m = Some (c, t)" "length c = length m" "length t = 16"
    "unseal cr k n c t = Some m"
  using assms unfolding aead_ok_def by blast

text \<open>Public keys and hashes have 32 bytes, and Diffie-Hellman agrees.\<close>

definition dh_ok :: "sos_crypto \<Rightarrow> bool" where
  "dh_ok cr \<longleftrightarrow>
     (\<forall>a. length (x25519_public cr a) = 32) \<and> (\<forall>m. length (blake3_hash cr m) = 32) \<and>
     (\<forall>a b. x25519 cr a (x25519_public cr b) = x25519 cr b (x25519_public cr a))"

section \<open>State\<close>

record ObfsParams =
  obfs_lengths :: bool
  obfs_timing :: bool

record State =
  shared_secret :: bytes
  send_aead :: bytes
  send_nonce_ctr :: nat
  send_buf :: bytes
  recv_aead :: bytes
  recv_nonce_ctr :: nat
  obfs_params :: ObfsParams

definition state_new :: "sos_crypto \<Rightarrow> bytes \<Rightarrow> bool \<Rightarrow> ObfsParams \<Rightarrow> State" where
  "state_new cr ss is_server params =
     (let (send_key_label, recv_key_label) = if is_server then (''dn'', ''up'') else (''up'', ''dn'')
      in \<lparr>shared_secret = ss, send_aead = derive_key cr send_key_label ss, send_nonce_ctr = 0,
          send_buf = [], recv_aead = derive_key cr recv_key_label ss, recv_nonce_ctr = 0,
          obfs_params = params\<rparr>)"

text \<open>u64 addition with the overflow check of the release profile.\<close>

definition u64_add :: "nat \<Rightarrow> nat \<Rightarrow> nat option" where
  "u64_add a b = (if a + b < 2 ^ 64 then Some (a + b) else None)"

definition nonce_bytes :: "nat \<Rightarrow> bytes" where
  "nonce_bytes n = le_bytes 8 n @ replicate 4 0"

definition send_nonce :: "State \<Rightarrow> (bytes \<times> State) option" where
  "send_nonce st =
     map_option (\<lambda>n. (nonce_bytes (send_nonce_ctr st), st\<lparr>send_nonce_ctr := n\<rparr>))
       (u64_add (send_nonce_ctr st) 1)"

definition recv_nonce :: "State \<Rightarrow> nat \<Rightarrow> bytes option" where
  "recv_nonce st offset = map_option nonce_bytes (u64_add (recv_nonce_ctr st) offset)"

section \<open>Encryption\<close>

text \<open>The i32 length field: a cast that wraps, and a negation that panics on the least value.\<close>

definition i32_neg :: "u32 \<Rightarrow> u32 option" where
  "i32_neg w = (if w = 0x80000000 then None else Some (- w))"

definition length_field :: "bool \<Rightarrow> nat \<Rightarrow> u32 option" where
  "length_field is_padding n = (if is_padding then i32_neg (word_of_nat n) else Some (word_of_nat n))"

text \<open>What is appended to the output, the number of bytes tallied, and the new state.\<close>

definition encrypt_inner ::
    "sos_crypto \<Rightarrow> bytes \<Rightarrow> bool \<Rightarrow> State \<Rightarrow> (bytes \<times> nat \<times> State) option" where
  "encrypt_inner cr bts is_padding st =
     Option.bind (length_field is_padding (length bts)) (\<lambda>len.
     Option.bind (send_nonce st) (\<lambda>(nonce1, st1).
     Option.bind (seal cr (send_aead st1) nonce1 (u32_le len)) (\<lambda>(enc_length, tag_length).
     Option.bind (send_nonce st1) (\<lambda>(nonce2, st2).
     Option.bind (seal cr (send_aead st2) nonce2 bts) (\<lambda>(enc_body, tag_body).
       Some (enc_length @ tag_length @ enc_body @ tag_body,
         length enc_length + length tag_length + (length enc_body + length tag_body),
         st2\<lparr>send_buf := enc_body\<rparr>))))))"

function next_pow2_from :: "nat \<Rightarrow> nat \<Rightarrow> nat" where
  "next_pow2_from p n = (if p = 0 \<or> n \<le> p then p else next_pow2_from (2 * p) n)"
  by pat_completeness auto
termination
  by (relation "measure (\<lambda>(p, n). n - p)") auto

declare next_pow2_from.simps [simp del]

definition next_power_of_two :: "nat \<Rightarrow> nat" where
  "next_power_of_two n = next_pow2_from 1 n"

text \<open>\<open>rnd\<close> is the number drawn from 0..10 when padding is added.\<close>

definition encrypt :: "sos_crypto \<Rightarrow> nat \<Rightarrow> bytes \<Rightarrow> State \<Rightarrow> (bytes \<times> State) option" where
  "encrypt cr rnd bts st =
     Option.bind (encrypt_inner cr bts False st) (\<lambda>(out, orig_len, st1).
     Option.bind (checked_sub orig_len (length bts)) (\<lambda>overhead.
       if obfs_lengths (obfs_params st1) \<and> orig_len < 2000
       then
         let desired_len = next_power_of_two (orig_len + overhead) + rnd in
         Option.bind (checked_sub desired_len (orig_len + overhead)) (\<lambda>padding_inner_len.
         if 2000 < padding_inner_len then None
         else
           Option.bind (encrypt_inner cr (replicate padding_inner_len 0) True st1)
             (\<lambda>(pad, padding_len, st2).
              if orig_len + padding_len = desired_len then Some (out @ pad, st2) else None))
       else Some (out, st1)))"

section \<open>Decryption\<close>

text \<open>
  \<open>i32::unsigned_abs\<close> of the length field, and whether it is positive. On success: the bytes
  appended to the output, the number of input bytes used, and the new state.
\<close>

definition i32_unsigned_abs :: "u32 \<Rightarrow> nat" where
  "i32_unsigned_abs w = nat \<bar>sint w\<bar>"

definition decrypt ::
    "sos_crypto \<Rightarrow> bytes \<Rightarrow> State \<Rightarrow> (io_error + bytes \<times> nat \<times> State) option" where
  "decrypt cr bts st =
     (if length bts < 24 then Some (Inl (IoError InvalidData ''Encrypted data is too short''))
      else
        let enc_length = take 4 bts; tag_length = take 16 (drop 4 bts); rest = drop 20 bts in
        Option.bind (recv_nonce st 0) (\<lambda>nonce.
        (case unseal cr (recv_aead st) nonce enc_length tag_length of
           None \<Rightarrow> Some (Inl (IoError BrokenPipe ''decryption of the length failed''))
         | Some len_bytes \<Rightarrow>
             let len = u32_of_le len_bytes; actual_length = i32_unsigned_abs len in
             if length rest < actual_length + 16
             then Some (Inl (IoError WouldBlock ''not enough data after the length''))
             else
               let enc_body = take actual_length rest;
                   tag_body = take 16 (drop actual_length rest) in
               Option.bind (recv_nonce st 1) (\<lambda>nonce'.
               (case unseal cr (recv_aead st) nonce' enc_body tag_body of
                  None \<Rightarrow> Some (Inl (IoError BrokenPipe ''decrypt of the body failed''))
                | Some plain \<Rightarrow>
                    Option.bind (u64_add (recv_nonce_ctr st) 2) (\<lambda>ctr.
                      Some (Inr (if 0 < sint len then plain else [],
                        4 + 16 + 16 + length enc_body,
                        st\<lparr>recv_nonce_ctr := ctr\<rparr>))))))))"

section \<open>Decrypting everything available\<close>

text \<open>
  The inner loop of \<open>poll_read\<close> (libraries/sillad-sosistab3/src/lib.rs): records are taken from
  the raw buffer until one cannot be decrypted yet. A BrokenPipe error is returned to the
  caller, with the buffers as they are. The result is the error if any, the raw buffer, the
  read buffer and the state.
\<close>

lemma decrypt_consumes:
  "decrypt cr bts st = Some (Inr (out, n, st')) \<Longrightarrow> 36 \<le> n \<and> n \<le> length bts"
  by (auto simp: decrypt_def Let_def split: if_splits option.splits bind_splits)

function drain ::
    "sos_crypto \<Rightarrow> bytes \<Rightarrow> bytes \<Rightarrow> State \<Rightarrow> (io_error option \<times> bytes \<times> bytes \<times> State) option" where
  "drain cr raw buf st =
     (case decrypt cr raw st of
        None \<Rightarrow> None
      | Some (Inr (out, result, st')) \<Rightarrow> drain cr (drop result raw) (buf @ out) st'
      | Some (Inl err) \<Rightarrow> Some (if kind err = BrokenPipe then Some err else None, raw, buf, st))"
  by pat_completeness auto
termination
  by (relation "measure (\<lambda>(cr, raw, buf, st). length raw)") (auto dest!: decrypt_consumes)

declare drain.simps [simp del]

lemma drain_record:
  assumes "decrypt cr (a @ rest) st = Some (Inr (out, length a, st'))"
  shows "drain cr (a @ rest) buf st = drain cr rest (buf @ out) st'"
  using assms by (subst drain.simps) simp

lemma drain_empty: "drain cr [] buf st = Some (None, [], buf, st)"
  by (subst drain.simps) (simp add: decrypt_def)

section \<open>Lemmas\<close>

lemma next_pow2_from_ge: "0 < p \<Longrightarrow> n \<le> next_pow2_from p n"
proof (induction p n rule: next_pow2_from.induct)
  case (1 p n)
  then show ?case by (subst next_pow2_from.simps) auto
qed

lemma next_pow2_from_less: "0 < p \<Longrightarrow> p < 2 * n \<Longrightarrow> next_pow2_from p n < 2 * n"
proof (induction p n rule: next_pow2_from.induct)
  case (1 p n)
  then show ?case by (subst next_pow2_from.simps) auto
qed

lemma next_pow2_from_le: "n \<le> 2 ^ k \<Longrightarrow> j \<le> k \<Longrightarrow> next_pow2_from (2 ^ j) n \<le> 2 ^ k"
proof (induction "k - j" arbitrary: j)
  case 0
  then show ?case by (subst next_pow2_from.simps) auto
next
  case (Suc d)
  then have "next_pow2_from (2 ^ Suc j) n \<le> 2 ^ k" by (intro Suc.hyps(1)) simp_all
  moreover have "(2::nat) ^ j \<le> 2 ^ k" using Suc.prems by simp
  ultimately show ?case by (subst next_pow2_from.simps) simp
qed

lemma next_pow2_from_pow: "\<exists>k. next_pow2_from (2 ^ j) n = 2 ^ k"
proof (induction "(2::nat) ^ j" n arbitrary: j rule: next_pow2_from.induct)
  case (1 n)
  show ?case
  proof (cases "n \<le> 2 ^ j")
    case True
    then show ?thesis by (subst next_pow2_from.simps) auto
  next
    case False
    with 1 [of "Suc j"] show ?thesis by (subst next_pow2_from.simps) auto
  qed
qed

lemma next_power_of_two_bounds:
  assumes "0 < n"
  shows "n \<le> next_power_of_two n" and "next_power_of_two n < 2 * n"
    and "n \<le> 2 ^ k \<Longrightarrow> next_power_of_two n \<le> 2 ^ k"
  using assms next_pow2_from_ge [of 1 n] next_pow2_from_less [of 1 n] next_pow2_from_le [of n k 0]
  by (simp_all add: next_power_of_two_def)

lemma padding_fits:
  assumes "0 < n" and "n \<le> 2048"
  shows "next_power_of_two n \<le> n + 1023"
proof (cases "n \<le> 1024")
  case True
  with next_power_of_two_bounds(2) [OF assms(1)] show ?thesis by linarith
next
  case False
  with next_power_of_two_bounds(3) [OF assms(1), of 11] assms(2) show ?thesis by simp
qed

lemma sint_length_field:
  assumes "n < 2 ^ 31"
  shows "sint (word_of_nat n :: u32) = int n" and "sint (- word_of_nat n :: u32) = - int n"
    and "word_of_nat n \<noteq> (0x80000000 :: u32)"
proof -
  show "sint (word_of_nat n :: u32) = int n"
    using assms by (simp add: signed_of_nat signed_take_bit_int_eq_self)
  have "- word_of_nat n = (word_of_int (- int n) :: u32)" by simp
  then show "sint (- word_of_nat n :: u32) = - int n"
    using assms by (simp only: sint_sbintrunc') (simp add: signed_take_bit_int_eq_self)
  have "unat (word_of_nat n :: u32) \<noteq> unat (0x80000000 :: u32)"
    using assms by (simp add: unat_of_nat)
  then show "word_of_nat n \<noteq> (0x80000000 :: u32)" by metis
qed

lemma length_field_ok:
  assumes "n < 2 ^ 31"
  obtains w where "length_field pad n = Some w" "i32_unsigned_abs w = n"
    "0 < sint w \<longleftrightarrow> \<not> pad \<and> 0 < n"
  using sint_length_field [OF assms]
  by (cases pad) (auto simp: length_field_def i32_neg_def i32_unsigned_abs_def)

text \<open>The receiving state that matches a sending state.\<close>

definition peers :: "State \<Rightarrow> State \<Rightarrow> bool" where
  "peers st rt \<longleftrightarrow> recv_aead rt = send_aead st \<and> recv_nonce_ctr rt = send_nonce_ctr st"

lemma peers_new:
  "peers (state_new cr ss s params) (state_new cr ss (\<not> s) params')"
  by (simp add: peers_def state_new_def)

text \<open>One record: it always can be written, and the matching state reads it back.\<close>

lemma encrypt_inner_decrypt:
  assumes ok: "aead_ok cr" and len: "length bts < 2 ^ 31" and ctr: "send_nonce_ctr st + 2 < 2 ^ 64"
  obtains out c where
    "encrypt_inner cr bts pad st =
       Some (out, length bts + 36, st\<lparr>send_nonce_ctr := send_nonce_ctr st + 2, send_buf := c\<rparr>)"
    "length out = length bts + 36"
    "\<And>rt rest. peers st rt \<Longrightarrow> decrypt cr (out @ rest) rt =
       Some (Inr (if pad then [] else bts, length bts + 36,
         rt\<lparr>recv_nonce_ctr := recv_nonce_ctr rt + 2\<rparr>))"
proof -
  obtain w where w: "length_field pad (length bts) = Some w" "i32_unsigned_abs w = length bts"
      "0 < sint w \<longleftrightarrow> \<not> pad \<and> 0 < length bts"
    using length_field_ok [OF len] .
  define n1 n2 where "n1 = nonce_bytes (send_nonce_ctr st)" and "n2 = nonce_bytes (send_nonce_ctr st + 1)"
  obtain lc lt where l: "seal cr (send_aead st) n1 (u32_le w) = Some (lc, lt)"
      "length lc = length (u32_le w)" "length lt = 16" "unseal cr (send_aead st) n1 lc lt = Some (u32_le w)"
    by (rule aead_okE [OF ok, of "u32_le w" "send_aead st" n1]) auto
  obtain c t where b: "seal cr (send_aead st) n2 bts = Some (c, t)"
      "length c = length bts" "length t = 16" "unseal cr (send_aead st) n2 c t = Some bts"
    using aead_okE [OF ok len] .
  show thesis
  proof (rule that [of "lc @ lt @ c @ t" c])
    show "encrypt_inner cr bts pad st = Some (lc @ lt @ c @ t, length bts + 36,
        st\<lparr>send_nonce_ctr := send_nonce_ctr st + 2, send_buf := c\<rparr>)"
      using ctr w(1) l b by (simp add: encrypt_inner_def send_nonce_def u64_add_def n1_def n2_def)
    show "length (lc @ lt @ c @ t) = length bts + 36" using l b by simp
    fix rt rest
    assume p: "peers st rt"
    have n: "recv_nonce rt 0 = Some n1" "recv_nonce rt 1 = Some n2"
        "u64_add (recv_nonce_ctr rt) 2 = Some (recv_nonce_ctr rt + 2)"
      using p ctr by (simp_all add: recv_nonce_def peers_def u64_add_def n1_def n2_def)
    have k: "recv_aead rt = send_aead st" using p by (simp add: peers_def)
    have lens: "length lc = 4" using l by simp
    show "decrypt cr ((lc @ lt @ c @ t) @ rest) rt = Some (Inr (if pad then [] else bts,
        length bts + 36, rt\<lparr>recv_nonce_ctr := recv_nonce_ctr rt + 2\<rparr>))"
      unfolding decrypt_def n k using l(3,4) b(2-4) w(2,3) lens
      by (simp add: codec_simps n Let_def)
  qed
qed

text \<open>
  A whole message: encryption never panics, its length on the wire, and the one or two
  records it consists of.
\<close>

definition wire_len :: "bool \<Rightarrow> nat \<Rightarrow> nat \<Rightarrow> nat" where
  "wire_len pad rnd n =
     (if pad \<and> n + 36 < 2000 then next_power_of_two (n + 72) + rnd else n + 36)"

lemma encrypt_ok:
  assumes ok: "aead_ok cr" and len: "length bts < 2 ^ 31" and rnd: "rnd < 10"
    and ctr: "send_nonce_ctr st + 4 < 2 ^ 64"
  obtains out st' where
    "encrypt cr rnd bts st = Some (out, st')"
    "length out = wire_len (obfs_lengths (obfs_params st)) rnd (length bts)"
    "send_aead st' = send_aead st" "obfs_params st' = obfs_params st"
    "send_nonce_ctr st' \<le> send_nonce_ctr st + 4"
    "\<And>rt rest buf. peers st rt \<Longrightarrow> \<exists>rt'. peers st' rt' \<and>
       drain cr (out @ rest) buf rt = drain cr rest (buf @ bts) rt'"
proof -
  from ctr have ctr1: "send_nonce_ctr st + 2 < 2 ^ 64" by simp
  obtain o1 c1 where e1: "encrypt_inner cr bts False st = Some (o1, length bts + 36,
        st\<lparr>send_nonce_ctr := send_nonce_ctr st + 2, send_buf := c1\<rparr>)" (is "_ = Some (_, _, ?s1)")
      "length o1 = length bts + 36"
      "\<And>rt rest. peers st rt \<Longrightarrow> decrypt cr (o1 @ rest) rt = Some (Inr (bts, length bts + 36,
         rt\<lparr>recv_nonce_ctr := recv_nonce_ctr rt + 2\<rparr>))"
    using encrypt_inner_decrypt [OF ok len ctr1, of False] by (metis (full_types))
  show thesis
  proof (cases "obfs_lengths (obfs_params st) \<and> length bts + 36 < 2000")
    case False
    show thesis
    proof (rule that [of o1 ?s1])
      fix rt rest buf
      assume "peers st rt"
      with drain_record [of cr o1 rest rt bts "rt\<lparr>recv_nonce_ctr := recv_nonce_ctr rt + 2\<rparr>"] e1(2,3)
      show "\<exists>rt'. peers ?s1 rt' \<and> drain cr (o1 @ rest) buf rt = drain cr rest (buf @ bts) rt'"
        by (intro exI [of _ "rt\<lparr>recv_nonce_ctr := recv_nonce_ctr rt + 2\<rparr>"]) (simp add: peers_def)
    qed (use False e1 in \<open>auto simp: encrypt_def wire_len_def\<close>)
  next
    case True
    define x pad where "x = length bts + 72" and "pad = next_power_of_two x + rnd - x"
    have x: "x \<le> next_power_of_two x" "next_power_of_two x \<le> x + 1023"
      using True next_power_of_two_bounds(1) [of x] padding_fits [of x] by (simp_all add: x_def)
    then have pad: "pad \<le> 2000" "pad < 2 ^ 31" using rnd by (simp_all add: pad_def)
    have "send_nonce_ctr ?s1 + 2 < 2 ^ 64" using ctr by simp
    with pad obtain o2 c2 where e2: "encrypt_inner cr (replicate pad 0) True ?s1 =
          Some (o2, pad + 36, ?s1\<lparr>send_nonce_ctr := send_nonce_ctr ?s1 + 2, send_buf := c2\<rparr>)"
          (is "_ = Some (_, _, ?s2)")
        "length o2 = pad + 36"
        "\<And>rt rest. peers ?s1 rt \<Longrightarrow> decrypt cr (o2 @ rest) rt = Some (Inr ([], pad + 36,
           rt\<lparr>recv_nonce_ctr := recv_nonce_ctr rt + 2\<rparr>))"
      by (rule_tac encrypt_inner_decrypt [OF ok, of "replicate pad 0" ?s1 True]) auto
    show thesis
    proof (rule that [of "o1 @ o2" ?s2])
      show "encrypt cr rnd bts st = Some (o1 @ o2, ?s2)"
        using True e1(1) e2(1) x pad(1) by (simp add: encrypt_def x_def pad_def algebra_simps)
      show "length (o1 @ o2) = wire_len (obfs_lengths (obfs_params st)) rnd (length bts)"
        using True e1(2) e2(2) x by (simp add: wire_len_def x_def pad_def add.commute)
      fix rt rest buf
      assume p: "peers st rt"
      let ?r1 = "rt\<lparr>recv_nonce_ctr := recv_nonce_ctr rt + 2\<rparr>"
      let ?r2 = "rt\<lparr>recv_nonce_ctr := recv_nonce_ctr rt + 4\<rparr>"
      have "drain cr (o1 @ o2 @ rest) buf rt = drain cr (o2 @ rest) (buf @ bts) ?r1"
        using e1(2) e1(3) [OF p] by (intro drain_record) simp
      also have "\<dots> = drain cr rest ((buf @ bts) @ []) ?r2"
        using e2(2) e2(3) [of ?r1] p by (intro drain_record) (simp add: peers_def)
      finally show "\<exists>rt'. peers ?s2 rt' \<and>
          drain cr ((o1 @ o2) @ rest) buf rt = drain cr rest (buf @ bts) rt'"
        using p by (intro exI [of _ ?r2]) (simp add: peers_def)
    qed simp_all
  qed
qed

section \<open>Properties of drain\<close>

lemma decrypt_append:
  assumes "\<And>e. decrypt cr a st = Some (Inl e) \<Longrightarrow> kind e = BrokenPipe"
  shows "decrypt cr (a @ b) st = decrypt cr a st"
proof -
  have l: "\<not> length a < 24" using assms by (auto simp: decrypt_def)
  then have t: "take 4 (a @ b) = take 4 a" "take 16 (drop 4 (a @ b)) = take 16 (drop 4 a)"
      "drop 20 (a @ b) = drop 20 a @ b" "\<not> length (a @ b) < 24"
    by simp_all
  show ?thesis
  proof (cases "recv_nonce st 0")
    case None
    with l show ?thesis by (simp add: decrypt_def)
  next
    case (Some n)
    show ?thesis
    proof (cases "unseal cr (recv_aead st) n (take 4 a) (take 16 (drop 4 a))")
      case None
      then show ?thesis unfolding decrypt_def t using l Some by simp
    next
      case len: (Some len)
      let ?n = "i32_unsigned_abs (u32_of_le len)"
      have "\<not> length (drop 20 a) < ?n + 16"
        using assms l Some len by (auto simp: decrypt_def Let_def)
      then have "\<not> length (drop 20 a @ b) < ?n + 16" "take ?n (drop 20 a @ b) = take ?n (drop 20 a)"
          "take 16 (drop ?n (drop 20 a @ b)) = take 16 (drop ?n (drop 20 a))"
          "\<not> length (drop 20 a) < ?n + 16"
        by simp_all
      then show ?thesis
        unfolding decrypt_def t Let_def using l t(4) Some len
        by (simp only: if_False bind.bind_lunit option.case)
    qed
  qed
qed

lemma drain_buf:
  "drain cr raw (pre @ buf) st = map_option (\<lambda>(e, r, b, s). (e, r, pre @ b, s)) (drain cr raw buf st)"
proof (induction cr raw buf st rule: drain.induct)
  case (1 cr raw buf st)
  show ?case
  proof (cases "\<exists>out n st'. decrypt cr raw st = Some (Inr (out, n, st'))")
    case True
    then obtain out n st' where "decrypt cr raw st = Some (Inr (out, n, st'))" by blast
    with 1 [OF this refl refl refl] show ?thesis by (subst (1 2) drain.simps) simp
  next
    case False
    then show ?thesis by (subst (1 2) drain.simps) (auto split: option.splits sum.splits)
  qed
qed

text \<open>
  Draining does not depend on how the bytes were cut into chunks: draining a first part and
  then the rest is draining everything, and a failure in the first part stays one.
\<close>

lemma drain_append:
  "drain cr (a @ b) buf st =
     (case drain cr a buf st of
        None \<Rightarrow> None
      | Some (Some e, raw, buf', st') \<Rightarrow> Some (Some e, raw @ b, buf', st')
      | Some (None, raw, buf', st') \<Rightarrow> drain cr (raw @ b) buf' st')"
proof (induction cr a buf st rule: drain.induct)
  case (1 cr a buf st)
  consider "decrypt cr a st = None" | e where "decrypt cr a st = Some (Inl e)"
    | out n st' where "decrypt cr a st = Some (Inr (out, n, st'))"
    by (metis option.exhaust old.sum.exhaust prod.exhaust)
  then show ?case
  proof cases
    case 1
    then show ?thesis using decrypt_append [of cr a st b] by (subst (1 2) drain.simps) simp
  next
    case (2 e)
    then show ?thesis
      using decrypt_append [of cr a st b]
      by (cases "kind e = BrokenPipe") (simp_all add: drain.simps [of cr a] drain.simps [of cr "a @ b"])
  next
    case (3 out n st')
    have n: "n \<le> length a" using decrypt_consumes [OF 3] by simp
    show ?thesis
      using 1 [OF 3 refl refl refl] decrypt_append [of cr a st b] n 3
      by (subst (1 2) drain.simps) simp
  qed
qed

section \<open>An instance of the primitives\<close>

text \<open>
  A transparent instance that satisfies the laws, on which the properties can be evaluated:
  the ciphertext is the message and the tag is constant.
\<close>

definition plain_crypto :: sos_crypto where
  "plain_crypto =
     \<lparr>seal = \<lambda>k n m. Some (m, replicate 16 0),
      unseal = \<lambda>k n c t. if t = replicate 16 0 then Some c else None,
      derive_key = \<lambda>label m. m,
      blake3_hash = \<lambda>m. replicate 32 (word_of_nat (length m)),
      x25519 = \<lambda>a b. map2 (+) (take 32 (a @ replicate 32 0)) b,
      x25519_public = \<lambda>a. take 32 (a @ replicate 32 0)\<rparr>"

lemma plain_crypto_aead: "aead_ok plain_crypto"
  by (simp add: aead_ok_def plain_crypto_def)

lemma plain_crypto_dh: "dh_ok plain_crypto"
  by (auto simp: dh_ok_def plain_crypto_def add.commute intro!: nth_equalityI)

text \<open>
  With length obfuscation on, a message of less than 1964 bytes always leaves the encoder
  as a power of two plus the random number drawn (0 to 9) of bytes, every other message with
  36 bytes of overhead; the encoder never panics, in particular its final assertion holds
  and its padding fits into the 2000 bytes it has.
\<close>

theorem encrypt_total:
  assumes "aead_ok cr" and "length bts < 2 ^ 31" and "rnd < 10"
    and "send_nonce_ctr st + 4 < 2 ^ 64"
  shows "\<exists>out st'. encrypt cr rnd bts st = Some (out, st') \<and>
     (if obfs_lengths (obfs_params st) \<and> length bts < 1964
      then \<exists>k. length out = 2 ^ k + rnd \<and> length bts + 72 \<le> 2 ^ k \<and> 2 ^ k < 2 * (length bts + 72)
      else length out = length bts + 36)"
proof -
  obtain out st' where e: "encrypt cr rnd bts st = Some (out, st')"
      "length out = wire_len (obfs_lengths (obfs_params st)) rnd (length bts)"
    using encrypt_ok [OF assms] by metis
  have "\<exists>k. next_power_of_two (length bts + 72) = 2 ^ k"
    using next_pow2_from_pow [of 0 "length bts + 72"] by (simp add: next_power_of_two_def)
  then show ?thesis
    using e next_power_of_two_bounds(1,2) [of "length bts + 72"] by (auto simp: wire_len_def)
qed

theorem encrypt_total_witness:
  "\<exists>out st'. encrypt plain_crypto 3 [1, 2] (state_new plain_crypto [7] False
      \<lparr>obfs_lengths = True, obfs_timing = False\<rparr>) = Some (out, st') \<and> (\<exists>k. length out = 2 ^ k + 3 \<and> 74 \<le> (2::nat) ^ k \<and> (2::nat) ^ k < 148)"
  using encrypt_total [OF plain_crypto_aead, of "[1, 2]" 3
      "state_new plain_crypto [7] False \<lparr>obfs_lengths = True, obfs_timing = False\<rparr>"]
  by (simp add: state_new_def)

end
