(* ===== verification/Sos_Pipe.thy ===== *)
theory Sos_Pipe
  imports Sos_State "HOL-Library.Sublist"
begin

text \<open>
  The sosistab3 connection as a byte pipe (libraries/sillad-sosistab3/src/lib.rs): cookies, and
  the poll functions of SosistabPipe over a lower pipe. What the lower pipe answers to the
  successive polls is an argument: a list of answers; the end of the list stands for Pending.
  A panic is None.
\<close>

section \<open>Cookies\<close>

record Cookie =
  cookie_key :: bytes
  cookie_params :: ObfsParams

definition default_params :: ObfsParams where
  "default_params = \<lparr>obfs_lengths = False, obfs_timing = False\<rparr>"

text \<open>\<open>str::split_once\<close> at the first three dashes.\<close>

fun split_once_dashes :: "string \<Rightarrow> (string \<times> string) option" where
  "split_once_dashes [] = None"
| "split_once_dashes (c # cs) =
     (if take 3 (c # cs) = ''---'' then Some ([], drop 3 (c # cs))
      else map_option (\<lambda>(a, b). (c # a, b)) (split_once_dashes cs))"

definition string_bytes :: "string \<Rightarrow> bytes" where
  "string_bytes s = map (\<lambda>c. word_of_nat (of_char c)) s"

definition cookie_new :: "sos_crypto \<Rightarrow> (string \<Rightarrow> ObfsParams option) \<Rightarrow> string \<Rightarrow> Cookie" where
  "cookie_new cr parse_params s =
     (let (cookie, ps) =
        (case split_once_dashes s of
           Some (a, b) \<Rightarrow> (a, case parse_params b of None \<Rightarrow> default_params | Some p \<Rightarrow> p)
         | None \<Rightarrow> (s, default_params))
      in \<lparr>cookie_key = derive_key cr ''cookie'' (string_bytes cookie), cookie_params = ps\<rparr>)"

definition cookie_derive_key :: "sos_crypto \<Rightarrow> Cookie \<Rightarrow> bool \<Rightarrow> bytes" where
  "cookie_derive_key cr c is_server =
     derive_key cr (if is_server then ''server'' else ''client'') (cookie_key c)"

section \<open>The pipe\<close>

record pipe =
  pipe_state :: State
  read_buf :: bytes
  read_closed :: bool
  raw_read_buf :: bytes
  to_write_buf :: bytes

definition pipe_new :: "State \<Rightarrow> pipe" where
  "pipe_new st =
     \<lparr>pipe_state = st, read_buf = [], read_closed = False, raw_read_buf = [], to_write_buf = []\<rparr>"

text \<open>
  The loop of \<open>poll_write\<close>: what it returns, what is left to write, what the lower pipe took,
  and the answers not used. Taking more than there is panics.
\<close>

fun write_loop ::
    "(io_error + nat) list \<Rightarrow> bytes
       \<Rightarrow> (unit poll \<times> bytes \<times> bytes \<times> (io_error + nat) list) option" where
  "write_loop [] buf = Some (Pending, buf, [], [])"
| "write_loop (Inl e # lower) buf = Some (Ready (Inl e), buf, [], lower)"
| "write_loop (Inr n # lower) buf =
     (if length buf < n then None
      else if drop n buf = [] then Some (Ready (Inr ()), [], take n buf, lower)
      else map_option (\<lambda>(r, buf', sent, lower'). (r, buf', take n buf @ sent, lower'))
             (write_loop lower (drop n buf)))"

definition pipe_poll_write ::
    "sos_crypto \<Rightarrow> nat \<Rightarrow> (io_error + nat) list \<Rightarrow> bytes \<Rightarrow> pipe
       \<Rightarrow> (nat poll \<times> pipe \<times> bytes) option" where
  "pipe_poll_write cr rnd lower buf p =
     Option.bind
       (if to_write_buf p = [] then encrypt cr rnd buf (pipe_state p)
        else Some (to_write_buf p, pipe_state p))
       (\<lambda>(out, st).
        map_option (\<lambda>(r, left, sent, _).
            (case r of
               Pending \<Rightarrow> Pending
             | Ready (Inl e) \<Rightarrow> Ready (Inl e)
             | Ready (Inr _) \<Rightarrow> Ready (Inr (length buf)),
             p\<lparr>pipe_state := st, to_write_buf := left\<rparr>, sent))
          (write_loop lower out))"

text \<open>
  \<open>poll_flush\<close> polls the lower pipe's write at most once; \<open>lower_flush\<close> is the answer of its
  flush. The result also tells whether a waker is registered with the lower pipe.
\<close>

definition pipe_poll_flush ::
    "(nat poll) \<Rightarrow> unit poll \<Rightarrow> pipe \<Rightarrow> (unit poll \<times> bool \<times> pipe \<times> bytes) option" where
  "pipe_poll_flush lower_write lower_flush p =
     (if to_write_buf p \<noteq> []
      then (case lower_write of
              Pending \<Rightarrow> Some (Pending, True, p, [])
            | Ready (Inl err) \<Rightarrow> Some (Ready (Inl err), False, p, [])
            | Ready (Inr n) \<Rightarrow>
                if length (to_write_buf p) < n then None
                else
                  let p' = p\<lparr>to_write_buf := drop n (to_write_buf p)\<rparr>;
                      sent = take n (to_write_buf p)
                  in if to_write_buf p' \<noteq> [] then Some (Pending, False, p', sent)
                     else Some (lower_flush, lower_flush = Pending, p', sent))
      else Some (lower_flush, lower_flush = Pending, p, []))"

text \<open>
  \<open>poll_read\<close> with a caller's buffer of \<open>buf_len\<close> bytes. Reading from the VecDeque returns bytes
  of its front slice only; \<open>front\<close> is the length of that slice.
\<close>

fun pipe_poll_read ::
    "sos_crypto \<Rightarrow> nat \<Rightarrow> nat \<Rightarrow> bytes poll list \<Rightarrow> pipe
       \<Rightarrow> (bytes poll \<times> pipe \<times> bytes poll list) option" where
  "pipe_poll_read cr buf_len front lower p =
     (if read_buf p \<noteq> [] \<or> read_closed p
      then let n = min buf_len front
           in Some (Ready (Inr (take n (read_buf p))), p\<lparr>read_buf := drop n (read_buf p)\<rparr>, lower)
      else (case lower of
              [] \<Rightarrow> Some (Pending, p, [])
            | Pending # lower' \<Rightarrow> Some (Pending, p, lower')
            | Ready (Inl e) # lower' \<Rightarrow> Some (Ready (Inl e), p, lower')
            | Ready (Inr bs) # lower' \<Rightarrow>
                if bs = [] then pipe_poll_read cr buf_len front lower' (p\<lparr>read_closed := True\<rparr>)
                else if buf_len < length bs then None
                else (case drain cr (raw_read_buf p @ bs) (read_buf p) (pipe_state p) of
                        None \<Rightarrow> None
                      | Some (err, raw, buf, st) \<Rightarrow>
                          let p' = p\<lparr>raw_read_buf := raw, read_buf := buf, pipe_state := st\<rparr>
                          in (case err of
                                Some e \<Rightarrow> Some (Ready (Inl e), p', lower')
                              | None \<Rightarrow> pipe_poll_read cr buf_len front lower' p'))))"

declare pipe_poll_read.simps [simp del]

section \<open>Callers\<close>

text \<open>
  A caller that writes a buffer polls with the same buffer until the pipe is ready; \<open>polls\<close>
  gives for each poll the random number and the answers of the lower pipe. A caller that
  writes several messages does so for each in turn and goes on only after success.
\<close>

fun write_run ::
    "sos_crypto \<Rightarrow> bytes \<Rightarrow> (nat \<times> (io_error + nat) list) list \<Rightarrow> pipe
       \<Rightarrow> (nat poll \<times> pipe \<times> bytes) option" where
  "write_run cr buf [] p = Some (Pending, p, [])"
| "write_run cr buf ((rnd, lower) # polls) p =
     Option.bind (pipe_poll_write cr rnd lower buf p) (\<lambda>(r, p', sent).
       case r of
         Ready x \<Rightarrow> Some (Ready x, p', sent)
       | Pending \<Rightarrow> map_option (\<lambda>(r', p'', sent'). (r', p'', sent @ sent')) (write_run cr buf polls p'))"

type_synonym write_call = "bytes \<times> (nat \<times> (io_error + nat) list) list"

fun write_msgs :: "sos_crypto \<Rightarrow> write_call list \<Rightarrow> pipe \<Rightarrow> (pipe \<times> bytes) option" where
  "write_msgs cr [] p = Some (p, [])"
| "write_msgs cr ((buf, polls) # ws) p =
     (case write_run cr buf polls p of
        Some (Ready (Inr _), p', sent) \<Rightarrow>
          map_option (\<lambda>(p'', sent'). (p'', sent @ sent')) (write_msgs cr ws p')
      | _ \<Rightarrow> None)"

text \<open>
  A caller that reads, with the buffer length of each poll; what it was given, the pipe, and
  the answers of the lower pipe not yet asked for.
\<close>

fun ready_bytes :: "bytes poll \<Rightarrow> bytes" where
  "ready_bytes (Ready (Inr bs)) = bs"
| "ready_bytes _ = []"

fun read_run ::
    "sos_crypto \<Rightarrow> (nat \<times> nat) list \<Rightarrow> bytes poll list \<Rightarrow> pipe
       \<Rightarrow> (bytes \<times> pipe \<times> bytes poll list) option" where
  "read_run cr [] lower p = Some ([], p, lower)"
| "read_run cr ((buf_len, front) # polls) lower p =
     Option.bind (pipe_poll_read cr buf_len front lower p) (\<lambda>(r, p', lower').
       map_option (\<lambda>(d, p'', lower''). (ready_bytes r @ d, p'', lower'')) (read_run cr polls lower' p'))"

definition chunks :: "bytes poll list \<Rightarrow> bytes" where
  "chunks lower = concat (map ready_bytes lower)"

definition fits :: "nat \<Rightarrow> bytes poll list \<Rightarrow> bool" where
  "fits buf_len lower \<longleftrightarrow> (\<forall>a \<in> set lower. length (ready_bytes a) \<le> buf_len)"

section \<open>Writing\<close>

lemma write_loop_sent:
  "write_loop lower buf = Some (r, left, sent, rest) \<Longrightarrow> buf \<noteq> [] \<Longrightarrow>
     sent @ left = buf \<and> (r = Ready (Inr ()) \<longleftrightarrow> left = [])"
proof (induction lower buf arbitrary: r left sent rest rule: write_loop.induct)
  case (3 n lower buf)
  then show ?case by (fastforce split: if_splits simp: append_assoc [symmetric])
qed auto

lemma write_run_pending:
  assumes "to_write_buf p \<noteq> []" and "write_run cr buf polls p = Some (Ready (Inr n), p', sent)"
  shows "sent = to_write_buf p \<and> n = length buf \<and> p' = p\<lparr>to_write_buf := []\<rparr>"
  using assms
proof (induction polls arbitrary: p sent)
  case Nil
  then show ?case by simp
next
  case (Cons a polls)
  obtain rnd lower where a: "a = (rnd, lower)" by (cases a)
  obtain r left s1 rest where w: "write_loop lower (to_write_buf p) = Some (r, left, s1, rest)"
    using Cons.prems by (auto simp: a pipe_poll_write_def bind_eq_Some_conv)
  note sent = write_loop_sent [OF w Cons.prems(1)]
  show ?case
  proof (cases r)
    case Pending
    with sent have "left \<noteq> []" by auto
    with Cons.IH [of "p\<lparr>to_write_buf := left\<rparr>"] Cons.prems w Pending sent show ?thesis
      by (auto simp: a pipe_poll_write_def)
  next
    case (Ready x)
    with Cons.prems w sent show ?thesis
      by (cases x) (auto simp: a pipe_poll_write_def)
  qed
qed

lemma write_run_exact:
  assumes empty: "to_write_buf p = []" and enc: "encrypt cr rnd buf (pipe_state p) = Some (ct, st')"
    and ct: "ct \<noteq> []"
    and run: "write_run cr buf ((rnd, lower) # polls) p = Some (Ready (Inr n), p', sent)"
  shows "sent = ct \<and> n = length buf \<and> p' = p\<lparr>pipe_state := st'\<rparr>"
proof -
  have "pipe_poll_write cr rnd lower buf p = pipe_poll_write cr rnd lower buf (p\<lparr>pipe_state := st', to_write_buf := ct\<rparr>)"
    using empty enc ct by (simp add: pipe_poll_write_def)
  then have "write_run cr buf ((rnd, lower) # polls) (p\<lparr>pipe_state := st', to_write_buf := ct\<rparr>)
      = Some (Ready (Inr n), p', sent)"
    using run by simp
  with write_run_pending [of "p\<lparr>pipe_state := st', to_write_buf := ct\<rparr>"] ct empty show ?thesis
    by fastforce
qed

definition call_ok :: "write_call \<Rightarrow> bool" where
  "call_ok w \<longleftrightarrow> length (fst w) < 2 ^ 31 \<and> (\<forall>(rnd, lower) \<in> set (snd w). rnd < 10)"

lemma wire_len_pos: "0 < wire_len pad rnd n"
  using next_power_of_two_bounds(1) [of "n + 72"] by (auto simp: wire_len_def)

lemma write_msgs_wire:
  assumes ok: "aead_ok cr"
  shows "write_msgs cr ws p = Some (p', wire) \<Longrightarrow> to_write_buf p = [] \<Longrightarrow>
     peers (pipe_state p) rt \<Longrightarrow> \<forall>w \<in> set ws. call_ok w \<Longrightarrow>
     send_nonce_ctr (pipe_state p) + 4 * length ws < 2 ^ 64 \<Longrightarrow>
     \<exists>rt'. drain cr (wire @ rest) buf rt = drain cr rest (buf @ concat (map fst ws)) rt'"
proof (induction ws arbitrary: p wire rt buf)
  case Nil
  then show ?case by auto
next
  case (Cons w ws)
  obtain msg polls where w: "w = (msg, polls)" by (cases w)
  obtain n p1 sent wire' where run: "write_run cr msg polls p = Some (Ready (Inr n), p1, sent)"
      and rec: "write_msgs cr ws p1 = Some (p', wire')" and wire: "wire = sent @ wire'"
    using Cons.prems(1) by (auto simp: w split: option.splits poll.splits sum.splits)
  obtain rnd lower polls' where polls: "polls = (rnd, lower) # polls'"
    using run by (cases polls) auto
  have pre: "length msg < 2 ^ 31" "rnd < 10" "send_nonce_ctr (pipe_state p) + 4 < 2 ^ 64"
    using Cons.prems by (auto simp: w polls call_ok_def)
  obtain ct st' where e: "encrypt cr rnd msg (pipe_state p) = Some (ct, st')"
      "length ct = wire_len (obfs_lengths (obfs_params (pipe_state p))) rnd (length msg)"
      "send_nonce_ctr st' \<le> send_nonce_ctr (pipe_state p) + 4"
      "\<And>rt rest buf. peers (pipe_state p) rt \<Longrightarrow> \<exists>rt'. peers st' rt' \<and>
         drain cr (ct @ rest) buf rt = drain cr rest (buf @ msg) rt'"
    using encrypt_ok [OF ok pre] by metis
  have "ct \<noteq> []" using e(2) wire_len_pos by (metis length_greater_0_conv)
  then have s: "sent = ct" "p1 = p\<lparr>pipe_state := st'\<rparr>"
    using write_run_exact [OF Cons.prems(2) e(1) _ run [unfolded polls]] by auto
  obtain rt' where rt': "peers st' rt'"
      "drain cr (ct @ wire' @ rest) buf rt = drain cr (wire' @ rest) (buf @ msg) rt'"
    using e(4) [OF Cons.prems(3), of "wire' @ rest" buf] by blast
  have "send_nonce_ctr (pipe_state p1) + 4 * length ws < 2 ^ 64"
    using Cons.prems(5) e(3) by (simp add: s)
  with Cons.IH [OF rec, of rt' "buf @ msg"] Cons.prems rt' show ?case
    by (auto simp: w wire s)
qed

section \<open>Reading\<close>

text \<open>The pipe holds what draining all bytes received so far gives, less what it delivered.\<close>

definition drained :: "sos_crypto \<Rightarrow> State \<Rightarrow> bytes \<Rightarrow> bytes \<Rightarrow> pipe \<Rightarrow> bool" where
  "drained cr rt rcv del p \<longleftrightarrow>
     drain cr rcv [] rt = Some (None, raw_read_buf p, del @ read_buf p, pipe_state p)"

lemma drained_prefix:
  assumes "drain cr (a @ b) buf st = Some (None, x)"
  obtains y where "drain cr a buf st = Some (None, y)"
  using assms by (auto simp: drain_append split: option.splits)

lemma drained_more:
  assumes "drained cr rt rcv del p" and "drain cr (rcv @ bs) [] rt = Some (None, x)"
  obtains raw buf st where
    "drain cr (raw_read_buf p @ bs) (read_buf p) (pipe_state p) = Some (None, raw, buf, st)"
    "drained cr rt (rcv @ bs) del (p\<lparr>raw_read_buf := raw, read_buf := buf, pipe_state := st\<rparr>)"
proof -
  have "drain cr (rcv @ bs) [] rt = drain cr (raw_read_buf p @ bs) (del @ read_buf p) (pipe_state p)"
    using assms(1) by (simp add: drain_append drained_def)
  then have e: "drain cr (rcv @ bs) [] rt = map_option (\<lambda>(e, r, b, s). (e, r, del @ b, s))
      (drain cr (raw_read_buf p @ bs) (read_buf p) (pipe_state p))"
    by (simp add: drain_buf)
  with assms(2) obtain raw buf st where
    d: "drain cr (raw_read_buf p @ bs) (read_buf p) (pipe_state p) = Some (None, raw, buf, st)"
    by auto
  with e show thesis by (intro that [OF d]) (simp add: drained_def)
qed

lemma poll_read_drained:
  assumes "drained cr rt rcv del p" and "drain cr (rcv @ chunks lower @ later) [] rt = Some (None, x)"
    and "fits buf_len lower"
  shows "\<exists>r p' lower' c. pipe_poll_read cr buf_len front lower p = Some (r, p', lower') \<and>
     chunks lower = c @ chunks lower' \<and> set lower' \<subseteq> set lower \<and>
     drained cr rt (rcv @ c) (del @ ready_bytes r) p'"
  using assms
proof (induction lower arbitrary: p rcv)
  case Nil
  then show ?case
    by (subst pipe_poll_read.simps) (auto simp: drained_def chunks_def Let_def)
next
  case (Cons a lower)
  show ?case
  proof (cases "read_buf p \<noteq> [] \<or> read_closed p")
    case True
    then show ?thesis using Cons.prems(1)
      by (subst pipe_poll_read.simps) (auto simp: drained_def chunks_def Let_def)
  next
    case idle: False
    consider "a = Pending" | e where "a = Ready (Inl e)" | "a = Ready (Inr [])"
      | bs where "a = Ready (Inr bs)" "bs \<noteq> []"
      by (metis poll.exhaust old.sum.exhaust)
    then show ?thesis
    proof cases
      case 1
      with idle Cons.prems(1) show ?thesis
        by (subst pipe_poll_read.simps) (auto simp: chunks_def)
    next
      case (2 e)
      with idle Cons.prems(1) show ?thesis
        by (subst pipe_poll_read.simps) (auto simp: chunks_def)
    next
      case 3
      have "drained cr rt rcv del (p\<lparr>read_closed := True\<rparr>)"
        using Cons.prems(1) by (simp add: drained_def)
      from Cons.IH [OF this] Cons.prems idle 3 show ?thesis
        by (subst pipe_poll_read.simps) (fastforce simp: chunks_def fits_def)
    next
      case (4 bs)
      have "drain cr ((rcv @ bs) @ (chunks lower @ later)) [] rt = Some (None, x)"
        using Cons.prems(2) 4 by (simp add: chunks_def)
      then obtain y where "drain cr (rcv @ bs) [] rt = Some (None, y)"
        by (rule drained_prefix)
      from drained_more [OF Cons.prems(1) this] obtain raw buf st where
        d: "drain cr (raw_read_buf p @ bs) (read_buf p) (pipe_state p) = Some (None, raw, buf, st)"
          "drained cr rt (rcv @ bs) del (p\<lparr>raw_read_buf := raw, read_buf := buf, pipe_state := st\<rparr>)" .
      have "length bs \<le> buf_len" "fits buf_len lower"
        using Cons.prems(3) 4 by (auto simp: fits_def)
      with Cons.IH [OF d(2)] Cons.prems(2) d(1) idle 4 show ?thesis
        by (subst pipe_poll_read.simps) (fastforce simp: chunks_def Let_def)
    qed
  qed
qed

lemma read_run_drained:
  assumes "drained cr rt rcv del p" and "drain cr (rcv @ chunks lower @ later) [] rt = Some (None, x)"
    and "\<forall>(buf_len, front) \<in> set polls. fits buf_len lower"
  shows "\<exists>d p' lower' c. read_run cr polls lower p = Some (d, p', lower') \<and>
     chunks lower = c @ chunks lower' \<and> drained cr rt (rcv @ c) (del @ d) p'"
  using assms
proof (induction polls arbitrary: p rcv del lower)
  case Nil
  then show ?case by auto
next
  case (Cons a polls)
  obtain n f where a: "a = (n, f)" by (cases a)
  obtain r p1 lower1 c where s: "pipe_poll_read cr n f lower p = Some (r, p1, lower1)"
      "chunks lower = c @ chunks lower1" "set lower1 \<subseteq> set lower"
      "drained cr rt (rcv @ c) (del @ ready_bytes r) p1"
    using poll_read_drained [OF Cons.prems(1,2), of n f] Cons.prems(3) a by auto
  have "\<forall>(buf_len, front) \<in> set polls. fits buf_len lower1"
    using Cons.prems(3) s(3) by (fastforce simp: fits_def)
  with Cons.IH [OF s(4), of lower1] Cons.prems(2) s(2) show ?case
    by (auto simp: a s(1))
qed

lemma drain_extends:
  assumes "drain cr raw buf st = Some (e, raw', buf', st')"
  shows "prefix buf buf'"
  using assms drain_buf [of cr raw buf "[]" st]
  by (cases "drain cr raw [] st") (auto simp: prefix_def)

section \<open>The connection\<close>

text \<open>
  C12: End-to-end delivery of a sosistab3 connection. One side writes messages, each polled to
  completion however the lower pipe accepts the bytes and whatever padding is added; the other
  side reads with any buffer sizes while the lower pipe delivers the bytes cut anywhere, with
  pending answers and transient errors in between. Then no read panics, what the reader has
  been given and what it has buffered is a prefix of the concatenated messages, and all of it
  once all bytes have arrived.
\<close>

theorem sos_pipe_delivers:
  assumes "aead_ok cr" and "\<forall>w \<in> set ws. call_ok w" and "4 * length ws < 2 ^ 64"
    and "write_msgs cr ws (pipe_new (state_new cr ss is_server ps)) = Some (wp, wire)"
    and "chunks lower @ later = wire"
    and "\<forall>(buf_len, front) \<in> set polls. fits buf_len lower"
  shows "\<exists>d rp rest.
     read_run cr polls lower (pipe_new (state_new cr ss (\<not> is_server) ps')) = Some (d, rp, rest) \<and>
     prefix (d @ read_buf rp) (concat (map fst ws)) \<and>
     (chunks rest @ later = [] \<longrightarrow> d @ read_buf rp = concat (map fst ws))"
proof -
  let ?rt = "state_new cr ss (\<not> is_server) ps'"
  have "\<exists>rt'. drain cr (wire @ []) [] ?rt = drain cr [] ([] @ concat (map fst ws)) rt'"
    by (rule write_msgs_wire [OF assms(1,4) _ _ assms(2)])
      (use assms(3) peers_new in \<open>simp_all add: pipe_new_def state_new_def peers_def\<close>)
  then obtain rt' where all: "drain cr wire [] ?rt = Some (None, [], concat (map fst ws), rt')"
    by (auto simp: drain_empty)
  have "drained cr ?rt [] [] (pipe_new ?rt)"
    by (simp add: drained_def pipe_new_def drain_empty)
  from read_run_drained [OF this _ assms(6)] all assms(5) obtain d rp rest c where
    r: "read_run cr polls lower (pipe_new ?rt) = Some (d, rp, rest)" "chunks lower = c @ chunks rest"
      "drained cr ?rt c d rp"
    by fastforce
  have "drain cr (c @ chunks rest @ later) [] ?rt = Some (None, [], concat (map fst ws), rt')"
    using all assms(5) r(2) by simp
  then have e: "drain cr (raw_read_buf rp @ chunks rest @ later) (d @ read_buf rp) (pipe_state rp)
      = Some (None, [], concat (map fst ws), rt')"
    using r(3) by (simp add: drain_append drained_def)
  moreover have "d @ read_buf rp = concat (map fst ws)" if "chunks rest @ later = []"
    using all r that assms(5) by (simp add: drained_def)
  ultimately show ?thesis using r(1) drain_extends [OF e] by blast
qed

text \<open>Two messages over a lower pipe that takes and gives a few bytes at a time.\<close>

definition example_calls :: "write_call list" where
  "example_calls = [([1, 2, 3], [(0, [Inr 4]), (0, [Inr 35])]), ([4], [(0, [Inr 37])])]"

definition example_wire :: bytes where
  "example_wire = [3, 0, 0, 0] @ replicate 16 0 @ [1, 2, 3] @ replicate 16 0
     @ [1, 0, 0, 0] @ replicate 16 0 @ [4] @ replicate 16 0"

lemma example_writes:
  "\<exists>wp. write_msgs plain_crypto example_calls (pipe_new (state_new plain_crypto [9] False default_params))
     = Some (wp, example_wire)"
proof -
  have l: "u32_le 3 = [3, 0, 0, 0]" "u32_le 1 = [1, 0, 0, 0]"
    by (simp_all add: u32_le_def le_bytes_numeral)
  show ?thesis
    by (simp add: example_calls_def pipe_new_def state_new_def pipe_poll_write_def encrypt_def
        encrypt_inner_def length_field_def send_nonce_def u64_add_def plain_crypto_def
        default_params_def l example_wire_def)
qed

theorem sos_pipe_delivers_witness:
  "\<exists>d rp rest. read_run plain_crypto [(100, 100)]
       [Ready (Inr (take 30 example_wire)), Ready (Inr (drop 30 example_wire))]
       (pipe_new (state_new plain_crypto [9] True default_params)) = Some (d, rp, rest) \<and>
     prefix (d @ read_buf rp) [1, 2, 3, 4]"
proof -
  obtain wp where w: "write_msgs plain_crypto example_calls
      (pipe_new (state_new plain_crypto [9] False default_params)) = Some (wp, example_wire)"
    using example_writes by blast
  let ?lower = "[Ready (Inr (take 30 example_wire)), Ready (Inr (drop 30 example_wire))]"
  have c: "chunks ?lower @ [] = example_wire" by (simp add: chunks_def)
  have f: "\<forall>(buf_len, front) \<in> set [(100 :: nat, 100 :: nat)]. fits buf_len ?lower"
    by (simp add: fits_def example_wire_def)
  have e: "\<forall>w \<in> set example_calls. call_ok w" "4 * length example_calls < 2 ^ 64"
      "concat (map fst example_calls) = [1, 2, 3, 4]"
    by (simp_all add: example_calls_def call_ok_def)
  show ?thesis
    using sos_pipe_delivers [OF plain_crypto_aead e(1,2) w c f, of default_params]
    unfolding e(3) not_False_eq_True by blast
qed

text \<open>
  A poll for zero bytes of the lower pipe's end of file and a read into an empty buffer are
  the same to this code: after one read with an empty buffer the pipe counts as closed and
  every later read, with data waiting below, reports end of file.
\<close>

theorem empty_read_closes:
  "pipe_poll_read cr 0 front (Ready (Inr []) # lower) (pipe_new st) =
     Some (Ready (Inr []), (pipe_new st)\<lparr>read_closed := True\<rparr>, lower) \<and>
   pipe_poll_read cr buf_len front lower ((pipe_new st)\<lparr>read_closed := True\<rparr>) =
     Some (Ready (Inr []), (pipe_new st)\<lparr>read_closed := True\<rparr>, lower)"
  by (simp add: pipe_poll_read.simps [of _ _ _ "_ # _"] pipe_poll_read.simps [of _ _ _ lower] pipe_new_def)

text \<open>
  A flush that the lower pipe accepts only in part answers Pending although it has not
  registered a waker anywhere, so nothing wakes the task that waits for it.
\<close>

theorem partial_flush_sleeps:
  assumes "n < length (to_write_buf p)"
  shows "pipe_poll_flush (Ready (Inr n)) lower_flush p =
     Some (Pending, False, p\<lparr>to_write_buf := drop n (to_write_buf p)\<rparr>, take n (to_write_buf p))"
  using assms by (auto simp: pipe_poll_flush_def)

theorem partial_flush_sleeps_witness:
  "pipe_poll_flush (Ready (Inr 1)) Pending
       ((pipe_new (state_new plain_crypto [] True default_params))\<lparr>to_write_buf := [1, 2]\<rparr>) =
     Some (Pending, False,
       (pipe_new (state_new plain_crypto [] True default_params))\<lparr>to_write_buf := [2]\<rparr>, [1])"
  using partial_flush_sleeps [of 1
      "(pipe_new (state_new plain_crypto [] True default_params))\<lparr>to_write_buf := [1, 2]\<rparr>" Pending]
  by simp

end
