(* ===== verification/Sos_Handshake.thy ===== *)
theory Sos_Handshake
  imports Sos_Pipe "HOL-Library.AList"
begin

text \<open>
  Establishing a sosistab3 connection (handshake.rs, dedup.rs, dialer.rs and listener.rs of
  libraries/sillad-sosistab3/src): the handshake message and its encryption under the cookie,
  the table of handshakes already seen, the dialer, and what the listener does with one
  accepted connection. Random choices (ephemeral keys, nonces, padding) are arguments. Instants
  are milliseconds, time stamps seconds.
\<close>

section \<open>Handshake messages\<close>

record Handshake =
  eph_pk :: bytes
  timestamp :: u64
  padding_len :: u64
  padding_hash :: bytes
  responding_to :: bytes

definition hs_bytes :: "Handshake \<Rightarrow> bytes" where
  "hs_bytes h =
     eph_pk h @ u64_be (timestamp h) @ u64_be (padding_len h) @ padding_hash h @ responding_to h"

definition hs_from_bytes :: "bytes \<Rightarrow> Handshake" where
  "hs_from_bytes bs =
     \<lparr>eph_pk = take 32 bs, timestamp = u64_of_be (take 8 (drop 32 bs)),
      padding_len = u64_of_be (take 8 (drop 40 bs)), padding_hash = take 32 (drop 48 bs),
      responding_to = take 32 (drop 80 bs)\<rparr>"

definition wf_handshake :: "Handshake \<Rightarrow> bool" where
  "wf_handshake h \<longleftrightarrow>
     length (eph_pk h) = 32 \<and> length (padding_hash h) = 32 \<and> length (responding_to h) = 32"

text \<open>\<open>nonce\<close>: the 12 random bytes of \<open>generate_nonce\<close>.\<close>

definition hs_encrypt :: "sos_crypto \<Rightarrow> bytes \<Rightarrow> Cookie \<Rightarrow> bool \<Rightarrow> Handshake \<Rightarrow> bytes option" where
  "hs_encrypt cr nonce cookie is_server h =
     map_option (\<lambda>(c, tag). nonce @ c @ tag)
       (seal cr (cookie_derive_key cr cookie is_server) nonce (hs_bytes h))"

definition hs_decrypt :: "sos_crypto \<Rightarrow> bytes \<Rightarrow> Cookie \<Rightarrow> bool \<Rightarrow> io_error + Handshake" where
  "hs_decrypt cr enc cookie is_server =
     (let nonce = take 12 enc; encrypted_data = take 112 (drop 12 enc); tag = take 16 (drop 124 enc)
      in case unseal cr (cookie_derive_key cr cookie is_server) nonce encrypted_data tag of
           None \<Rightarrow> Inl (IoError InvalidData ''Decryption failed'')
         | Some plain \<Rightarrow> Inr (hs_from_bytes plain))"

lemma hs_bytes_roundtrip [codec_simps]:
  "wf_handshake h \<Longrightarrow> length (hs_bytes h) = 112 \<and> hs_from_bytes (hs_bytes h) = h"
  by (simp add: wf_handshake_def hs_bytes_def hs_from_bytes_def codec_simps)

lemma hs_encrypt_decrypt:
  assumes "aead_ok cr" and "wf_handshake h" and "length nonce = 12"
  obtains enc where "hs_encrypt cr nonce cookie is_server h = Some enc" "length enc = 140"
    "hs_decrypt cr enc cookie is_server = Inr h"
proof -
  have l: "length (hs_bytes h) = 112" "hs_from_bytes (hs_bytes h) = h"
    using assms(2) hs_bytes_roundtrip by blast+
  then obtain c t where s: "seal cr (cookie_derive_key cr cookie is_server) nonce (hs_bytes h) = Some (c, t)"
      "length c = 112" "length t = 16"
      "unseal cr (cookie_derive_key cr cookie is_server) nonce c t = Some (hs_bytes h)"
    by (rule_tac aead_okE [OF assms(1), of "hs_bytes h"]) auto
  show thesis
    by (rule that [of "nonce @ c @ t"])
      (use s l assms(3) in \<open>simp_all add: hs_encrypt_def hs_decrypt_def Let_def\<close>)
qed

section \<open>Handshakes already seen\<close>

record 'k Dedup =
  bucket :: "('k \<times> nat) list"
  last_size :: nat
  expiry :: nat

definition dedup_new :: "nat \<Rightarrow> 'k Dedup" where
  "dedup_new ex = \<lparr>bucket = [], last_size = 1, expiry = ex\<rparr>"

definition dedup_cleanup :: "nat \<Rightarrow> 'k Dedup \<Rightarrow> 'k Dedup" where
  "dedup_cleanup now d =
     (let kept = filter (\<lambda>(_, v). now - v < expiry d) (bucket d)
      in d\<lparr>bucket := kept, last_size := length kept\<rparr>)"

definition dedup_insert :: "nat \<Rightarrow> 'k \<Rightarrow> 'k Dedup \<Rightarrow> 'k Dedup" where
  "dedup_insert now k d =
     (let d1 = d\<lparr>bucket := AList.update k now (bucket d)\<rparr>
      in if last_size d1 * 2 < length (bucket d1) then dedup_cleanup now d1 else d1)"

definition dedup_contains :: "'k Dedup \<Rightarrow> 'k \<Rightarrow> bool" where
  "dedup_contains d k \<longleftrightarrow> map_of (bucket d) k \<noteq> None"

text \<open>
  What the listener relies on: a key that was inserted stays known for the expiry time,
  whatever else is inserted meanwhile.
\<close>

locale replay_guard =
  fixes ins :: "nat \<Rightarrow> 'k \<Rightarrow> 's \<Rightarrow> 's" and mem :: "'s \<Rightarrow> 'k \<Rightarrow> bool"
    and since :: "'s \<Rightarrow> 'k \<Rightarrow> nat option" and good :: "'s \<Rightarrow> bool" and ttl :: nat
  assumes mem_iff: "good s \<Longrightarrow> mem s k \<longleftrightarrow> since s k \<noteq> None"
    and ins_good: "good s \<Longrightarrow> good (ins t k s)"
    and ins_new: "good s \<Longrightarrow> since (ins t k s) k = Some t"
    and ins_other: "good s \<Longrightarrow> since s k = Some t0 \<Longrightarrow> t < t0 + ttl \<Longrightarrow> k' \<noteq> k \<Longrightarrow>
      since (ins t k' s) k = Some t0"
begin

lemma remembered_step:
  assumes "good s" and "since s k = Some t1" and "t0 \<le> t1" and "t < t0 + ttl" and "t0 \<le> t"
  shows "\<exists>t2. since (ins t k' s) k = Some t2 \<and> t0 \<le> t2"
  using assms ins_new ins_other by (cases "k' = k") force+

lemma remembered:
  assumes "good s" and "\<forall>(t, k') \<in> set evs. t0 \<le> t \<and> t < t0 + ttl"
  shows "good (fold (\<lambda>(t, k'). ins t k') evs (ins t0 k s)) \<and>
     mem (fold (\<lambda>(t, k'). ins t k') evs (ins t0 k s)) k"
proof -
  have "good s' \<Longrightarrow> since s' k = Some t1 \<Longrightarrow> t0 \<le> t1 \<Longrightarrow> \<forall>(t, k') \<in> set evs. t0 \<le> t \<and> t < t0 + ttl \<Longrightarrow>
      good (fold (\<lambda>(t, k'). ins t k') evs s') \<and>
      since (fold (\<lambda>(t, k'). ins t k') evs s') k \<noteq> None" for s' t1
  proof (induction evs arbitrary: s' t1)
    case Nil
    then show ?case by simp
  next
    case (Cons e evs)
    obtain t k' where e: "e = (t, k')" by (cases e)
    obtain t2 where "since (ins t k' s') k = Some t2" "t0 \<le> t2"
      using remembered_step [of s' k t1 t0 t k'] Cons.prems e by auto
    with Cons.IH [of "ins t k' s'" t2] Cons.prems e ins_good show ?case by simp
  qed
  from this [OF ins_good [OF assms(1)] ins_new [OF assms(1)] order_refl assms(2)]
  show ?thesis using mem_iff by blast
qed

end

definition dedup_good :: "nat \<Rightarrow> 'k Dedup \<Rightarrow> bool" where
  "dedup_good ex d \<longleftrightarrow> distinct (map fst (bucket d)) \<and> expiry d = ex"

lemma map_of_retain:
  assumes "distinct (map fst xs)" and "map_of xs k = Some v" and "P v"
  shows "map_of (filter (\<lambda>(_, v). P v) xs) k = Some v"
proof -
  have "(k, v) \<in> set (filter (\<lambda>(_, v). P v) xs)" using assms by (auto dest: map_of_SomeD)
  moreover have "distinct (map fst (filter (\<lambda>(_, v). P v) xs))"
    using assms(1) by (rule distinct_map_filter)
  ultimately show ?thesis by simp
qed

lemma dedup_insert_lookup:
  assumes "dedup_good ex d" and "map_of (AList.update k' t (bucket d)) k = Some v" and "t - v < ex"
  shows "map_of (bucket (dedup_insert t k' d)) k = Some v"
proof -
  have "distinct (map fst (AList.update k' t (bucket d)))"
    using assms(1) by (simp add: dedup_good_def distinct_update)
  from map_of_retain [OF this assms(2), of "\<lambda>v. t - v < ex"] assms show ?thesis
    by (simp add: dedup_insert_def dedup_cleanup_def dedup_good_def Let_def)
qed

interpretation dedup_guard: replay_guard
  dedup_insert dedup_contains "\<lambda>d. map_of (bucket d)" "dedup_good (Suc ex)" "Suc ex"
proof
  fix s :: "'k Dedup" and k k' :: 'k and t t0 :: nat
  assume good: "dedup_good (Suc ex) s"
  show "dedup_contains s k = (map_of (bucket s) k \<noteq> None)"
    by (simp add: dedup_contains_def)
  show "dedup_good (Suc ex) (dedup_insert t k s)"
    using good by (auto simp: dedup_good_def dedup_insert_def dedup_cleanup_def Let_def
        distinct_update intro!: distinct_map_filter)
  show "map_of (bucket (dedup_insert t k s)) k = Some t"
    by (rule dedup_insert_lookup [OF good]) (simp_all add: update_conv')
  assume "map_of (bucket s) k = Some t0" "t < t0 + Suc ex" "k' \<noteq> k"
  then show "map_of (bucket (dedup_insert t k' s)) k = Some t0"
    by (intro dedup_insert_lookup [OF good]) (simp_all add: update_conv')
qed

section \<open>The dialer\<close>

text \<open>The random choices of one side of a handshake.\<close>

record hs_random =
  eph_sk :: bytes
  hs_nonce :: bytes
  padding :: bytes

definition my_handshake :: "sos_crypto \<Rightarrow> hs_random \<Rightarrow> nat \<Rightarrow> bytes \<Rightarrow> Handshake" where
  "my_handshake cr rnd now responding =
     \<lparr>eph_pk = x25519_public cr (eph_sk rnd), timestamp = word_of_nat now,
      padding_len = word_of_nat (length (padding rnd)), padding_hash = blake3_hash cr (padding rnd),
      responding_to = responding\<rparr>"

text \<open>What \<open>dial\<close> sends, with the encrypted handshake alone.\<close>

definition dial_start ::
    "sos_crypto \<Rightarrow> Cookie \<Rightarrow> hs_random \<Rightarrow> nat \<Rightarrow> (bytes \<times> bytes) option" where
  "dial_start cr cookie rnd now =
     map_option (\<lambda>enc. (enc @ padding rnd, enc))
       (hs_encrypt cr (hs_nonce rnd) cookie False (my_handshake cr rnd now (blake3_hash cr [])))"

text \<open>
  Reading the peer's padding: the buffer of the announced length is allocated first, which
  panics from 2 to the 63 on.
\<close>

definition read_padding :: "sos_crypto \<Rightarrow> string \<Rightarrow> Handshake \<Rightarrow> bytes \<Rightarrow> (io_error + bytes) option" where
  "read_padding cr msg h inp =
     (if 2 ^ 63 \<le> unat (padding_len h) then None
      else Some (result_bind (read_exact (unat (padding_len h)) inp) (\<lambda>(buff, rest).
        if blake3_hash cr buff \<noteq> padding_hash h then Inl (IoError InvalidData msg) else Inr rest)))"

text \<open>What \<open>dial\<close> does with the answer: the new state and the bytes that follow.\<close>

definition dial_finish ::
    "sos_crypto \<Rightarrow> Cookie \<Rightarrow> hs_random \<Rightarrow> bytes \<Rightarrow> bytes \<Rightarrow> (io_error + State \<times> bytes) option" where
  "dial_finish cr cookie rnd my_enc inp =
     (case read_exact 140 inp of
        Inl e \<Rightarrow> Some (Inl e)
      | Inr (their, rest) \<Rightarrow>
          (case hs_decrypt cr their cookie True of
             Inl e \<Rightarrow> Some (Inl e)
           | Inr h \<Rightarrow>
               if responding_to h \<noteq> blake3_hash cr my_enc
               then Some (Inl (IoError InvalidData
                      ''the server handshake does not correctly respond to my handshake''))
               else map_option (map_sum id (\<lambda>rest'.
                      (state_new cr (x25519 cr (eph_sk rnd) (eph_pk h)) False (cookie_params cookie), rest')))
                    (read_padding cr ''the server handshake gave us an incorrect padding hash'' h rest)))"

section \<open>The listener\<close>

definition WAIT_INTERVAL :: nat where "WAIT_INTERVAL = 30"

definition listen_dedup :: "bytes Dedup" where
  "listen_dedup = dedup_new (WAIT_INTERVAL * 2 * 1000)"

definition timestamp_bad :: "Handshake \<Rightarrow> nat \<Rightarrow> bool" where
  "timestamp_bad h current_timestamp \<longleftrightarrow> WAIT_INTERVAL < abs_diff (unat (timestamp h)) current_timestamp"

text \<open>
  One accepted connection. \<open>current_timestamp\<close> is the clock when the connection was accepted,
  \<open>now\<close> the instant at which the table is consulted, after the handshake and its padding have
  been read. The result is the answer sent, the state of the connection and the rest of the
  input, together with the table.
\<close>

definition listen_session ::
    "sos_crypto \<Rightarrow> Cookie \<Rightarrow> hs_random \<Rightarrow> nat \<Rightarrow> nat \<Rightarrow> bytes \<Rightarrow> bytes Dedup
       \<Rightarrow> ((io_error + bytes \<times> State \<times> bytes) \<times> bytes Dedup) option" where
  "listen_session cr cookie rnd current_timestamp now inp dedup =
     (case read_exact 140 inp of
        Inl e \<Rightarrow> Some (Inl e, dedup)
      | Inr (their, rest) \<Rightarrow>
          (let their_hash = blake3_hash cr their in
           case hs_decrypt cr their cookie False of
             Inl e \<Rightarrow> Some (Inl e, dedup)
           | Inr h \<Rightarrow>
               (case read_padding cr ''the client handshake gave us an incorrect padding hash'' h rest of
                  None \<Rightarrow> None
                | Some (Inl e) \<Rightarrow> Some (Inl e, dedup)
                | Some (Inr rest') \<Rightarrow>
                    if timestamp_bad h current_timestamp
                    then Some (Inl (IoError InvalidData ''the client handshake has a bad timestamp''), dedup)
                    else if dedup_contains dedup their_hash
                    then Some (Inl (IoError InvalidData ''handshake already seen''), dedup)
                    else
                      let dedup' = dedup_insert now their_hash dedup in
                      Option.bind (hs_encrypt cr (hs_nonce rnd) cookie True
                          (my_handshake cr rnd current_timestamp their_hash)) (\<lambda>enc.
                        Some (Inr (enc @ padding rnd,
                          state_new cr (x25519 cr (eph_sk rnd) (eph_pk h)) True (cookie_params cookie),
                          rest'), dedup')))))"

section \<open>Agreement\<close>

definition rnd_ok :: "hs_random \<Rightarrow> bool" where
  "rnd_ok rnd \<longleftrightarrow> length (hs_nonce rnd) = 12 \<and> length (padding rnd) \<le> 1024"

lemma my_handshake_wf:
  "dh_ok cr \<Longrightarrow> length responding = 32 \<Longrightarrow> wf_handshake (my_handshake cr rnd now responding)"
  by (simp add: wf_handshake_def my_handshake_def dh_ok_def)

lemma my_padding_len:
  "rnd_ok rnd \<Longrightarrow> unat (padding_len (my_handshake cr rnd now responding)) = length (padding rnd)"
  by (simp add: my_handshake_def rnd_ok_def unat_of_nat)

lemma read_padding_ok:
  "rnd_ok rnd \<Longrightarrow>
     read_padding cr msg (my_handshake cr rnd now responding) (padding rnd @ rest) = Some (Inr rest)"
  using my_padding_len [of rnd cr now responding]
  by (simp add: read_padding_def) (simp add: rnd_ok_def my_handshake_def)

lemma hash_len: "dh_ok cr \<Longrightarrow> length (blake3_hash cr m) = 32"
  by (simp add: dh_ok_def)

lemma handshake_accepted:
  assumes ok: "aead_ok cr" "dh_ok cr" and rnd: "rnd_ok dr" "rnd_ok lr"
    and clock: "dial_now < 2 ^ 64" "abs_diff dial_now listen_now \<le> 30"
    and dial: "dial_start cr cookie dr dial_now = Some (to_send, enc)"
    and fresh: "\<not> dedup_contains dedup (blake3_hash cr enc)"
  obtains lenc where
    "listen_session cr cookie lr listen_now now (to_send @ up) dedup =
       Some (Inr (lenc @ padding lr,
         state_new cr (x25519 cr (eph_sk lr) (x25519_public cr (eph_sk dr))) True (cookie_params cookie), up),
         dedup_insert now (blake3_hash cr enc) dedup)"
    "length lenc = 140"
    "hs_decrypt cr lenc cookie True = Inr (my_handshake cr lr listen_now (blake3_hash cr enc))"
proof -
  let ?dh = "my_handshake cr dr dial_now (blake3_hash cr [])"
  let ?lh = "my_handshake cr lr listen_now (blake3_hash cr enc)"
  have wf: "wf_handshake ?dh" "wf_handshake ?lh" using ok(2) by (simp_all add: my_handshake_wf hash_len)
  have d: "to_send = enc @ padding dr" "length enc = 140" "hs_decrypt cr enc cookie False = Inr ?dh"
    using dial hs_encrypt_decrypt [OF ok(1) wf(1), of "hs_nonce dr" cookie False] rnd(1)
    by (auto simp: dial_start_def rnd_ok_def)
  obtain lenc where l: "hs_encrypt cr (hs_nonce lr) cookie True ?lh = Some lenc" "length lenc = 140"
      "hs_decrypt cr lenc cookie True = Inr ?lh"
    using rnd(2) by (auto simp: rnd_ok_def intro: hs_encrypt_decrypt [OF ok(1) wf(2)])
  have t: "\<not> timestamp_bad ?dh listen_now"
    using clock by (simp add: timestamp_bad_def my_handshake_def WAIT_INTERVAL_def unat_of_nat)
  have pk: "eph_pk ?dh = x25519_public cr (eph_sk dr)" by (simp add: my_handshake_def)
  show thesis
    by (rule that [OF _ l(2,3)])
      (use d(2,3) l(1) t fresh read_padding_ok [OF rnd(1)] pk in \<open>simp add: listen_session_def d(1)\<close>)
qed

text \<open>
  C14: Handshake agreement. A dialer and a listener that share a cookie, whose clocks differ by
  at most 30 seconds and whose handshake has not been seen before, complete the handshake for
  every choice of keys, nonces and padding; both then hold the same shared secret, each side's
  sending key and nonce are the other's receiving ones, and the bytes after the handshakes are
  left for the connection.
\<close>

theorem handshake_agreement:
  assumes ok: "aead_ok cr" "dh_ok cr" and rnd: "rnd_ok dr" "rnd_ok lr"
    and clock: "dial_now < 2 ^ 64" "abs_diff dial_now listen_now \<le> 30"
    and dial: "dial_start cr cookie dr dial_now = Some (to_send, enc)"
    and fresh: "\<not> dedup_contains dedup (blake3_hash cr enc)"
  shows "\<exists>reply ls ds.
     listen_session cr cookie lr listen_now now (to_send @ up) dedup =
       Some (Inr (reply, ls, up), dedup_insert now (blake3_hash cr enc) dedup) \<and>
     dial_finish cr cookie dr enc (reply @ dn) = Some (Inr (ds, dn)) \<and>
     shared_secret ds = shared_secret ls \<and> peers ds ls \<and> peers ls ds"
proof -
  let ?lh = "my_handshake cr lr listen_now (blake3_hash cr enc)"
  obtain lenc where l: "listen_session cr cookie lr listen_now now (to_send @ up) dedup =
       Some (Inr (lenc @ padding lr,
         state_new cr (x25519 cr (eph_sk lr) (x25519_public cr (eph_sk dr))) True (cookie_params cookie), up),
         dedup_insert now (blake3_hash cr enc) dedup)" "length lenc = 140"
      "hs_decrypt cr lenc cookie True = Inr ?lh"
    using handshake_accepted [OF assms] .
  moreover have "dial_finish cr cookie dr enc ((lenc @ padding lr) @ dn) =
      Some (Inr (state_new cr (x25519 cr (eph_sk dr) (eph_pk ?lh)) False (cookie_params cookie), dn))"
    using l(2,3) read_padding_ok [OF rnd(2), of cr _ listen_now "blake3_hash cr enc" dn]
    by (simp add: dial_finish_def) (simp add: my_handshake_def)
  moreover have "x25519 cr (eph_sk dr) (eph_pk ?lh) = x25519 cr (eph_sk lr) (x25519_public cr (eph_sk dr))"
    using ok(2) by (simp add: my_handshake_def dh_ok_def)
  ultimately show ?thesis by (auto simp: state_new_def peers_def)
qed

definition example_cookie :: Cookie where
  "example_cookie = \<lparr>cookie_key = [1], cookie_params = default_params\<rparr>"

definition example_random :: hs_random where
  "example_random = \<lparr>eph_sk = [5], hs_nonce = replicate 12 0, padding = [8, 8]\<rparr>"

definition example_hello :: bytes where
  "example_hello = replicate 12 0
     @ hs_bytes (my_handshake plain_crypto example_random 1000 (blake3_hash plain_crypto []))
     @ replicate 16 0"

lemma example_dial:
  "dial_start plain_crypto example_cookie example_random 1000 = Some (example_hello @ [8, 8], example_hello)"
  by (simp add: dial_start_def hs_encrypt_def example_hello_def)
    (simp add: plain_crypto_def example_random_def)

lemma example_random_ok: "rnd_ok example_random"
  by (simp add: rnd_ok_def example_random_def)

lemma example_accepted:
  obtains x d1 where "listen_session plain_crypto example_cookie example_random 1010 7
    (example_hello @ [8, 8]) listen_dedup = Some (Inr x, d1)"
proof -
  have c: "abs_diff 1000 1010 \<le> 30" "\<not> dedup_contains listen_dedup (blake3_hash plain_crypto example_hello)"
    by (simp_all add: abs_diff_def dedup_contains_def listen_dedup_def dedup_new_def)
  show thesis
    by (rule handshake_accepted [OF plain_crypto_aead plain_crypto_dh example_random_ok
          example_random_ok _ c(1) example_dial c(2), of 7 "[]"]) (auto intro: that)
qed

theorem handshake_agreement_witness:
  "\<exists>reply ls ds.
     listen_session plain_crypto example_cookie example_random 1010 7 (example_hello @ [8, 8]) listen_dedup =
       Some (Inr (reply, ls, []), dedup_insert 7 (blake3_hash plain_crypto example_hello) listen_dedup) \<and>
     dial_finish plain_crypto example_cookie example_random example_hello reply = Some (Inr (ds, [])) \<and>
     shared_secret ds = shared_secret ls \<and> peers ds ls \<and> peers ls ds"
  using handshake_agreement [OF plain_crypto_aead plain_crypto_dh example_random_ok example_random_ok
      _ _ example_dial, of 1010 listen_dedup 7 "[]" "[]"]
  by (simp add: abs_diff_def dedup_contains_def listen_dedup_def dedup_new_def)

section \<open>Replays\<close>

text \<open>
  A listener that serves a sequence of connections: for each the random choices, the clock
  when it was accepted, the instant of the lookup, and its input.
\<close>

type_synonym session = "hs_random \<times> nat \<times> nat \<times> bytes"

fun session_instant :: "session \<Rightarrow> nat" where
  "session_instant (rnd, ts, now, inp) = now"

fun run_session ::
    "sos_crypto \<Rightarrow> Cookie \<Rightarrow> session \<Rightarrow> bytes Dedup
       \<Rightarrow> ((io_error + bytes \<times> State \<times> bytes) \<times> bytes Dedup) option" where
  "run_session cr cookie (rnd, ts, now, inp) d = listen_session cr cookie rnd ts now inp d"

fun listen_run :: "sos_crypto \<Rightarrow> Cookie \<Rightarrow> session list \<Rightarrow> bytes Dedup \<Rightarrow> bytes Dedup option" where
  "listen_run cr cookie [] d = Some d"
| "listen_run cr cookie (s # ss) d =
     Option.bind (run_session cr cookie s d) (\<lambda>(r, d'). listen_run cr cookie ss d')"

text \<open>The steps before the table is consulted, and what the session does after them.\<close>

definition session_checks ::
    "sos_crypto \<Rightarrow> Cookie \<Rightarrow> nat \<Rightarrow> bytes \<Rightarrow> (io_error + Handshake \<times> bytes) option" where
  "session_checks cr cookie ts inp =
     (case read_exact 140 inp of
        Inl e \<Rightarrow> Some (Inl e)
      | Inr (their, rest) \<Rightarrow>
          (case hs_decrypt cr their cookie False of
             Inl e \<Rightarrow> Some (Inl e)
           | Inr h \<Rightarrow>
               (case read_padding cr ''the client handshake gave us an incorrect padding hash'' h rest of
                  None \<Rightarrow> None
                | Some (Inl e) \<Rightarrow> Some (Inl e)
                | Some (Inr rest') \<Rightarrow>
                    if timestamp_bad h ts
                    then Some (Inl (IoError InvalidData ''the client handshake has a bad timestamp''))
                    else Some (Inr (h, rest')))))"

lemma listen_session_split:
  "listen_session cr cookie rnd ts now inp d =
     (let k = blake3_hash cr (take 140 inp) in
      case session_checks cr cookie ts inp of
        None \<Rightarrow> None
      | Some (Inl e) \<Rightarrow> Some (Inl e, d)
      | Some (Inr (h, rest)) \<Rightarrow>
          if dedup_contains d k then Some (Inl (IoError InvalidData ''handshake already seen''), d)
          else map_option (\<lambda>enc. (Inr (enc @ padding rnd,
                   state_new cr (x25519 cr (eph_sk rnd) (eph_pk h)) True (cookie_params cookie), rest),
                   dedup_insert now k d))
                 (hs_encrypt cr (hs_nonce rnd) cookie True (my_handshake cr rnd ts k)))"
proof (cases "read_exact 140 inp")
  case (Inl e)
  then show ?thesis by (simp add: listen_session_def session_checks_def Let_def)
next
  case (Inr b)
  obtain their rest where b: "b = (their, rest)" by (cases b)
  have t: "their = take 140 inp" using Inr by (simp add: b read_exact_Inr_iff)
  have [simp]: "Option.bind r (\<lambda>x. Some (f x)) = map_option f r" for r :: "bytes option" and f :: "bytes \<Rightarrow> 'z"
    by (cases r) simp_all
  show ?thesis
    by (cases "hs_decrypt cr (take 140 inp) cookie False")
      (simp_all add: listen_session_def session_checks_def Let_def Inr b t
        split: option.split sum.split)
qed

lemma listen_session_dedup:
  assumes "listen_session cr cookie rnd ts now inp d = Some (r, d')"
  shows "(\<exists>e. r = Inl e) \<and> d' = d \<or>
     (\<exists>x. r = Inr x) \<and> \<not> dedup_contains d (blake3_hash cr (take 140 inp)) \<and>
       d' = dedup_insert now (blake3_hash cr (take 140 inp)) d"
  using assms unfolding listen_session_split Let_def
  by (auto split: option.splits sum.splits if_splits)

lemma listen_run_good:
  "dedup_good (Suc ex) d \<Longrightarrow> listen_run cr cookie ss d = Some d' \<Longrightarrow> dedup_good (Suc ex) d'"
proof (induction ss arbitrary: d)
  case Nil
  then show ?case by simp
next
  case (Cons s ss)
  obtain rnd ts now inp where s: "s = (rnd, ts, now, inp)" by (cases s) auto
  with Cons.prems obtain r d1 where d1: "listen_session cr cookie rnd ts now inp d = Some (r, d1)"
      "listen_run cr cookie ss d1 = Some d'"
    by (auto simp: bind_eq_Some_conv)
  have "dedup_good (Suc ex) d1"
    using listen_session_dedup [OF d1(1)] Cons.prems(1) dedup_guard.ins_good [of ex d now] by auto
  with Cons.IH d1(2) show ?case by blast
qed

lemma listen_run_remembers:
  "dedup_good (Suc ex) d \<Longrightarrow> map_of (bucket d) k = Some t1 \<Longrightarrow> t0 \<le> t1 \<Longrightarrow>
     \<forall>s \<in> set ss. t0 \<le> session_instant s \<and> session_instant s < t0 + Suc ex \<Longrightarrow>
     listen_run cr cookie ss d = Some d' \<Longrightarrow> dedup_contains d' k"
proof (induction ss arbitrary: d t1)
  case Nil
  then show ?case by (simp add: dedup_contains_def)
next
  case (Cons s ss)
  obtain rnd ts now inp where s: "s = (rnd, ts, now, inp)" by (cases s) auto
  with Cons.prems obtain r d1 where d1: "listen_session cr cookie rnd ts now inp d = Some (r, d1)"
      "listen_run cr cookie ss d1 = Some d'"
    by (auto simp: bind_eq_Some_conv)
  have "dedup_good (Suc ex) d1 \<and> (\<exists>t2. map_of (bucket d1) k = Some t2 \<and> t0 \<le> t2)"
    using listen_session_dedup [OF d1(1)] Cons.prems dedup_guard.ins_good [of ex d now]
      dedup_guard.remembered_step [of ex d k t1 t0 now "blake3_hash cr (take 140 inp)"]
    by (auto simp: s)
  with Cons.IH [of d1] Cons.prems d1(2) show ?case by auto
qed

text \<open>
  Replay protection. After a listener has accepted a handshake, a connection that presents
  the same 140 bytes again is never accepted as long as the lookups in between happen less than
  60 seconds after the first one, however many other connections it serves meanwhile.
\<close>

theorem replay_rejected:
  assumes "listen_run cr cookie before listen_dedup = Some d0"
    and "listen_session cr cookie rnd ts t0 inp d0 = Some (Inr x, d1)"
    and "\<forall>s \<in> set between. t0 \<le> session_instant s \<and> session_instant s < t0 + 60000"
    and "listen_run cr cookie between d1 = Some d2"
    and "take 140 inp' = take 140 inp"
  shows "listen_session cr cookie rnd' ts' now' inp' d2 \<noteq> Some (Inr y, d3)"
proof -
  let ?k = "blake3_hash cr (take 140 inp)"
  have "dedup_good (Suc 59999) listen_dedup"
    by (simp add: dedup_good_def listen_dedup_def dedup_new_def WAIT_INTERVAL_def)
  from listen_run_good [OF this assms(1)] have g0: "dedup_good (Suc 59999) d0" .
  have d1: "d1 = dedup_insert t0 ?k d0" using listen_session_dedup [OF assms(2)] by simp
  have "dedup_good (Suc 59999) d1" "map_of (bucket d1) ?k = Some t0"
    using dedup_guard.ins_good [OF g0] dedup_guard.ins_new [OF g0] by (simp_all add: d1)
  from listen_run_remembers [OF this order_refl _ assms(4)] assms(3) have "dedup_contains d2 ?k" by simp
  then show ?thesis
    using listen_session_dedup [of cr cookie rnd' ts' now' inp' d2 "Inr y" d3] assms(5) by auto
qed

theorem replay_rejected_witness:
  "\<exists>x d1. listen_session plain_crypto example_cookie example_random 1010 7 (example_hello @ [8, 8]) listen_dedup
       = Some (Inr x, d1) \<and>
     (\<forall>y d3. listen_session plain_crypto example_cookie example_random 1020 10007 (example_hello @ [8, 8]) d1
       \<noteq> Some (Inr y, d3))"
proof -
  obtain x d1 where a: "listen_session plain_crypto example_cookie example_random 1010 7
      (example_hello @ [8, 8]) listen_dedup = Some (Inr x, d1)"
    by (rule example_accepted)
  have "listen_session plain_crypto example_cookie example_random 1020 10007 (example_hello @ [8, 8]) d1
      \<noteq> Some (Inr y, d3)" for y d3
    by (rule replay_rejected [OF _ a, of "[]" "[]"]) simp_all
  with a show ?thesis by blast
qed

text \<open>
  The time stamp is compared with the clock read when the connection was accepted, not when
  the handshake arrives: a connection kept open is served as if no time had passed. So a
  handshake accepted once is accepted again on such a connection at any later instant at which
  the table has dropped it.
\<close>

theorem stale_connection_replays:
  assumes "listen_session cr cookie rnd ts t0 inp d0 = Some (Inr x, d1)"
    and "\<not> dedup_contains d2 (blake3_hash cr (take 140 inp))"
  shows "listen_session cr cookie rnd ts later inp d2 =
     Some (Inr x, dedup_insert later (blake3_hash cr (take 140 inp)) d2)"
  using assms unfolding listen_session_split Let_def
  by (auto split: option.splits sum.splits if_splits)

theorem stale_connection_replays_witness:
  "\<exists>x d1 d2. listen_session plain_crypto example_cookie example_random 1010 7 (example_hello @ [8, 8])
       listen_dedup = Some (Inr x, d1) \<and>
     d2 = dedup_insert 60007 [2] (dedup_insert 60007 [1] d1) \<and>
     listen_session plain_crypto example_cookie example_random 1010 60008 (example_hello @ [8, 8]) d2 =
       Some (Inr x, dedup_insert 60008 (blake3_hash plain_crypto example_hello) d2)"
proof -
  obtain x d1 where a: "listen_session plain_crypto example_cookie example_random 1010 7
      (example_hello @ [8, 8]) listen_dedup = Some (Inr x, d1)"
    by (rule example_accepted)
  let ?k = "blake3_hash plain_crypto example_hello"
  let ?d2 = "dedup_insert 60007 [2] (dedup_insert 60007 [1] d1)"
  have len: "length example_hello = 140"
    using hs_bytes_roundtrip [OF my_handshake_wf [OF plain_crypto_dh hash_len [OF plain_crypto_dh]]]
    by (simp add: example_hello_def)
  have d1: "d1 = dedup_insert 7 ?k listen_dedup"
    using listen_session_dedup [OF a] by (simp add: len)
  have k: "?k \<noteq> [2]" "?k \<noteq> [1]"
    using hash_len [OF plain_crypto_dh, of example_hello] by auto
  then have "\<not> dedup_contains ?d2 ?k"
    by (simp add: d1 dedup_contains_def dedup_insert_def dedup_cleanup_def listen_dedup_def
        dedup_new_def WAIT_INTERVAL_def)
  with stale_connection_replays [OF a, of ?d2 60008]
  have "listen_session plain_crypto example_cookie example_random 1010 60008 (example_hello @ [8, 8]) ?d2 =
      Some (Inr x, dedup_insert 60008 ?k ?d2)"
    by (simp add: len)
  with a show ?thesis by blast
qed

end
