(* ===== verification/Mizaru.thy ===== *)
theory Mizaru
  imports Prelude
begin

text \<open>
  Mizaru blind signatures (libraries/mizaru2/src/lib.rs): one RSA key per epoch, a Merkle tree
  over the public keys, blind signing with the key of an epoch, unblinding, and verification
  against the root of the tree.

  BLAKE3 and the blind RSA crate are parameters: the hash type is a type variable 'h, \<open>hash\<close> is
  \<open>blake3::hash\<close>, \<open>khash\<close> is \<open>blake3::keyed_hash\<close> and the record \<open>brs\<close> holds the operations of
  blind-rsa-signatures on DER-encoded keys. A panic is None.
\<close>

definition KEY_COUNT :: nat where "KEY_COUNT = 65536"

definition unix_to_epoch :: "nat \<Rightarrow> u16" where
  "unix_to_epoch unix = word_of_nat (unix div 86400)"

record 's brs =
  public_der :: "bytes \<Rightarrow> bytes"
  valid_public :: "bytes \<Rightarrow> bool"
  rsa_blind :: "bytes \<Rightarrow> nat \<Rightarrow> bytes \<Rightarrow> bytes \<times> 's"
  rsa_blind_sign :: "bytes \<Rightarrow> bytes \<Rightarrow> bytes option"
  rsa_finalize :: "bytes \<Rightarrow> bytes \<Rightarrow> 's \<Rightarrow> bytes \<Rightarrow> bytes option"
  rsa_verify :: "bytes \<Rightarrow> bytes \<Rightarrow> bytes \<Rightarrow> bool"

section \<open>Secret keys\<close>

record 'h SecretKey =
  rsa_keys_der :: "bytes list"
  merkle_tree :: "'h list list"

definition decimate :: "('h \<Rightarrow> 'h \<Rightarrow> 'h) \<Rightarrow> 'h list \<Rightarrow> 'h list" where
  "decimate khash level = map (\<lambda>i. khash (level ! (i * 2)) (level ! (i * 2 + 1))) [0 ..< length level div 2]"

lemma length_decimate [simp]: "length (decimate khash level) = length level div 2"
  by (simp add: decimate_def)

function build_levels :: "('h \<Rightarrow> 'h \<Rightarrow> 'h) \<Rightarrow> 'h list \<Rightarrow> 'h list list" where
  "build_levels khash level =
     (if 1 < length level then level # build_levels khash (decimate khash level) else [level])"
  by pat_completeness auto
termination
  by (relation "measure (\<lambda>(khash, level). length level)") auto

declare build_levels.simps [simp del]

text \<open>\<open>keys\<close>: the DER encodings of the keys \<open>brs::KeyPair::generate\<close> returned.\<close>

definition generate :: "(bytes \<Rightarrow> 'h) \<Rightarrow> ('h \<Rightarrow> 'h \<Rightarrow> 'h) \<Rightarrow> 's brs \<Rightarrow> bytes list \<Rightarrow> 'h SecretKey" where
  "generate hash khash b keys =
     \<lparr>rsa_keys_der = keys,
      merkle_tree = build_levels khash (map (\<lambda>k. hash (public_der b k)) keys)\<rparr>"

definition other :: "nat \<Rightarrow> nat" where
  "other i = i div 2 * 2 + (i + 1) mod 2"

fun branch_from :: "nat \<Rightarrow> 'h list list \<Rightarrow> 'h list option" where
  "branch_from idx [] = Some []"
| "branch_from idx (level # levels) =
     (if other idx < length level
      then map_option (\<lambda>hs. level ! other idx # hs) (branch_from (idx div 2) levels)
      else None)"

definition merkle_branch :: "'h SecretKey \<Rightarrow> u16 \<Rightarrow> 'h list option" where
  "merkle_branch sk idx =
     branch_from (unat idx) (take (length (merkle_tree sk) - 1) (merkle_tree sk))"

definition to_public_key :: "'h SecretKey \<Rightarrow> 'h option" where
  "to_public_key sk =
     (if merkle_tree sk = [] \<or> last (merkle_tree sk) = [] then None
      else Some (last (merkle_tree sk) ! 0))"

definition get_subkey :: "'h SecretKey \<Rightarrow> u16 \<Rightarrow> bytes option" where
  "get_subkey sk epoch =
     (if unat epoch < length (rsa_keys_der sk) then Some (rsa_keys_der sk ! unat epoch) else None)"

section \<open>Tokens and signatures\<close>

record 'h BlindedSignature =
  bs_epoch :: u16
  bs_used_key :: bytes
  bs_merkle_branch :: "'h list"
  blinded_sig :: bytes

record 'h UnblindedSignature =
  epoch :: u16
  used_key :: bytes
  us_merkle_branch :: "'h list"
  unblinded_sig :: bytes

definition token_blind :: "'s brs \<Rightarrow> nat \<Rightarrow> bytes \<Rightarrow> bytes \<Rightarrow> bytes \<times> 's" where
  "token_blind b rnd subkey token = rsa_blind b subkey rnd token"

definition blind_sign ::
    "'s brs \<Rightarrow> 'h SecretKey \<Rightarrow> u16 \<Rightarrow> bytes \<Rightarrow> 'h BlindedSignature option" where
  "blind_sign b sk ep blinded_token =
     Option.bind (get_subkey sk ep) (\<lambda>key_to_use.
     Option.bind (rsa_blind_sign b key_to_use blinded_token) (\<lambda>bare_sig.
     Option.bind (merkle_branch sk ep) (\<lambda>branch.
       Some \<lparr>bs_epoch = ep, bs_used_key = public_der b key_to_use, bs_merkle_branch = branch,
             blinded_sig = bare_sig\<rparr>)))"

definition unblind ::
    "'s brs \<Rightarrow> 'h BlindedSignature \<Rightarrow> 's \<Rightarrow> bytes \<Rightarrow> string + 'h UnblindedSignature" where
  "unblind b sig secret msg =
     (if \<not> valid_public b (bs_used_key sig) then Inl ''invalid public key''
      else (case rsa_finalize b (bs_used_key sig) (blinded_sig sig) secret msg of
              None \<Rightarrow> Inl ''finalize failed''
            | Some unblinded \<Rightarrow>
                Inr \<lparr>epoch = bs_epoch sig, used_key = bs_used_key sig,
                     us_merkle_branch = bs_merkle_branch sig, unblinded_sig = unblinded\<rparr>))"

text \<open>
  The loop of \<open>verify_member\<close> from position \<open>i\<close> on. Shifting a u16 by 16 or more panics under
  the overflow checks of the release profile.
\<close>

fun climb :: "('h \<Rightarrow> 'h \<Rightarrow> 'h) \<Rightarrow> u16 \<Rightarrow> nat \<Rightarrow> 'h \<Rightarrow> 'h list \<Rightarrow> 'h option" where
  "climb khash ep i acc [] = Some acc"
| "climb khash ep i acc (h # branch) =
     (if 16 \<le> i then None
      else if even (unat ep div 2 ^ i) then climb khash ep (Suc i) (khash acc h) branch
      else climb khash ep (Suc i) (khash h acc) branch)"

definition verify_member ::
    "(bytes \<Rightarrow> 'h) \<Rightarrow> ('h \<Rightarrow> 'h \<Rightarrow> 'h) \<Rightarrow> 'h \<Rightarrow> u16 \<Rightarrow> bytes \<Rightarrow> 'h list \<Rightarrow> (string + unit) option" where
  "verify_member hash khash root ep subkey branch =
     map_option (\<lambda>acc. if acc = root then Inr () else Inl ''merkle proof is wrong'')
       (climb khash ep 0 (hash subkey) branch)"

definition blind_verify ::
    "(bytes \<Rightarrow> 'h) \<Rightarrow> ('h \<Rightarrow> 'h \<Rightarrow> 'h) \<Rightarrow> 's brs \<Rightarrow> 'h \<Rightarrow> bytes \<Rightarrow> 'h UnblindedSignature
       \<Rightarrow> (string + unit) option" where
  "blind_verify hash khash b root token sig =
     (case verify_member hash khash root (epoch sig) (used_key sig) (us_merkle_branch sig) of
        None \<Rightarrow> None
      | Some (Inl e) \<Rightarrow> Some (Inl e)
      | Some (Inr _) \<Rightarrow>
          if \<not> valid_public b (used_key sig) then Some (Inl ''invalid public key'')
          else if \<not> rsa_verify b (used_key sig) (unblinded_sig sig) token
          then Some (Inl ''verification failed'')
          else Some (Inr ()))"

section \<open>The Merkle tree\<close>

lemma build_levels_ne [simp]: "build_levels khash level \<noteq> []"
  by (subst build_levels.simps) simp

definition root_of :: "('h \<Rightarrow> 'h \<Rightarrow> 'h) \<Rightarrow> 'h list \<Rightarrow> 'h" where
  "root_of khash level = last (build_levels khash level) ! 0"

lemma build_levels_step:
  assumes "length level = 2 ^ Suc n"
  shows "build_levels khash level = level # build_levels khash (decimate khash level)"
    and "root_of khash level = root_of khash (decimate khash level)"
proof -
  have "1 < (2::nat) ^ Suc n" by (rule one_less_power) simp_all
  then have "1 < length level" by (simp only: assms)
  then show s: "build_levels khash level = level # build_levels khash (decimate khash level)"
    by (subst build_levels.simps) simp
  then show "root_of khash level = root_of khash (decimate khash level)"
    by (simp add: root_of_def)
qed

lemma build_levels_length:
  "length level = 2 ^ n \<Longrightarrow> length (build_levels khash level) = Suc n"
proof (induction n arbitrary: level)
  case 0
  then show ?case by (subst build_levels.simps) simp
next
  case (Suc n)
  then show ?case by (simp add: build_levels_step)
qed

lemma build_levels_last:
  "length level = 2 ^ n \<Longrightarrow> length (last (build_levels khash level)) = 1"
proof (induction n arbitrary: level)
  case 0
  then show ?case by (subst build_levels.simps) simp
next
  case (Suc n)
  then show ?case by (simp add: build_levels_step)
qed

lemma build_levels_suffix:
  assumes "length level = 2 ^ n" and "j \<le> n"
  shows "\<exists>lv. build_levels khash level ! j = lv \<and> length lv = 2 ^ (n - j) \<and>
     root_of khash lv = root_of khash level \<and>
     set (build_levels khash lv) \<subseteq> set (build_levels khash level)"
  using assms
proof (induction n arbitrary: level j)
  case 0
  then show ?case by (auto simp: build_levels.simps [of khash level])
next
  case (Suc n)
  note step = build_levels_step [OF Suc.prems(1)]
  show ?case
  proof (cases j)
    case 0
    then show ?thesis using Suc.prems step by simp
  next
    case (Suc j')
    with Suc.prems Suc.IH [of "decimate khash level" j'] show ?thesis by (auto simp: step)
  qed
qed

lemma other_less:
  assumes "idx < 2 ^ Suc n"
  shows "other idx < 2 ^ Suc n" and "idx div 2 < 2 ^ n"
  using assms unfolding other_def by (simp_all, presburger)

lemma decimate_nth:
  assumes "length level = 2 ^ Suc n" and "idx < 2 ^ Suc n"
  shows "decimate khash level ! (idx div 2) =
     (if even idx then khash (level ! idx) (level ! other idx)
      else khash (level ! other idx) (level ! idx))"
proof -
  have "decimate khash level ! (idx div 2)
      = khash (level ! (idx div 2 * 2)) (level ! (idx div 2 * 2 + 1))"
    using assms other_less(2) [OF assms(2)] by (simp add: decimate_def)
  then show ?thesis by (cases "even idx") (auto simp: other_def mult.commute [of _ 2] elim!: evenE oddE)
qed

text \<open>Climbing the branch of a leaf from the leaf reaches the root.\<close>

lemma climb_branch:
  assumes "length level = 2 ^ n" and "unat ep div 2 ^ i = idx" and "idx < 2 ^ n" and "i + n \<le> 16"
  shows "\<exists>br. branch_from idx (butlast (build_levels khash level)) = Some br \<and> length br = n \<and>
     climb khash ep i (level ! idx) br = Some (root_of khash level)"
  using assms
proof (induction n arbitrary: level i idx)
  case 0
  then show ?case by (subst (1) build_levels.simps) (simp add: root_of_def build_levels.simps)
next
  case (Suc n)
  note step = build_levels_step [OF Suc.prems(1)]
  have "unat ep div 2 ^ Suc i = unat ep div 2 ^ i div 2"
    by (simp add: div_mult2_eq [symmetric] mult.commute)
  then have "length (decimate khash level) = 2 ^ n" "unat ep div 2 ^ Suc i = idx div 2"
    using Suc.prems by simp_all
  from Suc.IH [OF this other_less(2) [OF Suc.prems(3)]] Suc.prems(4) obtain br where
    br: "branch_from (idx div 2) (butlast (build_levels khash (decimate khash level))) = Some br"
      "length br = n"
      "climb khash ep (Suc i) (decimate khash level ! (idx div 2)) br
        = Some (root_of khash (decimate khash level))"
    by auto
  show ?case
    using br Suc.prems other_less(1) [OF Suc.prems(3)] decimate_nth [OF Suc.prems(1,3), of khash]
    by (auto simp: step(1)) (simp_all add: step(2) cong: if_cong)
qed

text \<open>
  What a successful climb to the root shows. The pairs of hashes the verifier feeds to the
  keyed hash and the pairs of sibling hashes of the tree are finite lists; a pair of each with
  the same keyed hash but different components is an explicit collision.
\<close>

fun climb_pairs :: "('h \<Rightarrow> 'h \<Rightarrow> 'h) \<Rightarrow> u16 \<Rightarrow> nat \<Rightarrow> 'h \<Rightarrow> 'h list \<Rightarrow> ('h \<times> 'h) list" where
  "climb_pairs khash ep i acc [] = []"
| "climb_pairs khash ep i acc (h # branch) =
     (let p = if even (unat ep div 2 ^ i) then (acc, h) else (h, acc)
      in p # climb_pairs khash ep (Suc i) (khash (fst p) (snd p)) branch)"

definition level_pairs :: "'h list \<Rightarrow> ('h \<times> 'h) list" where
  "level_pairs level = map (\<lambda>i. (level ! (i * 2), level ! (i * 2 + 1))) [0 ..< length level div 2]"

definition clash :: "('h \<Rightarrow> 'h \<Rightarrow> 'h) \<Rightarrow> ('h \<times> 'h) list \<Rightarrow> ('h \<times> 'h) list \<Rightarrow> bool" where
  "clash khash ps qs \<longleftrightarrow>
     (\<exists>(a, b) \<in> set ps. \<exists>(c, d) \<in> set qs. (a, b) \<noteq> (c, d) \<and> khash a b = khash c d)"

lemma clash_mono: "clash khash ps qs \<Longrightarrow> set ps \<subseteq> set ps' \<Longrightarrow> set qs \<subseteq> set qs' \<Longrightarrow> clash khash ps' qs'"
  unfolding clash_def by blast

lemma climb_step:
  "climb khash ep i acc (h # branch) =
     (let p = if even (unat ep div 2 ^ i) then (acc, h) else (h, acc)
      in if 16 \<le> i then None else climb khash ep (Suc i) (khash (fst p) (snd p)) branch)"
  by simp

lemma climb_long: "16 < i + length branch \<Longrightarrow> i \<le> 16 \<Longrightarrow> climb khash ep i acc branch = None"
proof (induction branch arbitrary: i acc)
  case Nil
  then show ?case by simp
next
  case (Cons h branch)
  then show ?case by (cases "i = 16") auto
qed

lemma climb_sound:
  assumes "length level = 2 ^ length br" and "i + length br \<le> 16"
    and "climb khash ep i acc br = Some (root_of khash level)"
  shows "acc = level ! (unat ep div 2 ^ i mod 2 ^ length br) \<or>
     clash khash (climb_pairs khash ep i acc br)
       (concat (map level_pairs (build_levels khash level)))"
  using assms
proof (induction br arbitrary: level i acc)
  case Nil
  then show ?case by (simp add: root_of_def build_levels.simps)
next
  case (Cons h br)
  define idx where "idx = unat ep div 2 ^ i mod 2 ^ Suc (length br)"
  define p where "p = (if even (unat ep div 2 ^ i) then (acc, h) else (h, acc))"
  let ?q = "(level ! (idx div 2 * 2), level ! (idx div 2 * 2 + 1))"
  have len: "length level = 2 ^ Suc (length br)" using Cons.prems(1) by simp
  have idx: "idx < 2 ^ Suc (length br)" by (simp add: idx_def)
  have par: "even (unat ep div 2 ^ i) \<longleftrightarrow> even idx"
    by (simp add: idx_def dvd_mod_iff)
  have idx2: "unat ep div 2 ^ Suc i mod 2 ^ length br = idx div 2"
    by (simp add: idx_def div_mult2_eq [symmetric] mod_mult2_eq mult.commute)
  have c: "climb khash ep (Suc i) (khash (fst p) (snd p)) br = Some (root_of khash (decimate khash level))"
    using Cons.prems(2,3) by (simp add: climb_step Let_def p_def build_levels_step(2) [OF len] del: climb.simps)
  have "length (decimate khash level) = 2 ^ length br" "Suc i + length br \<le> 16"
    using len Cons.prems(2) by simp_all
  from Cons.IH [OF this c] consider
      "khash (fst p) (snd p) = decimate khash level ! (idx div 2)"
    | "clash khash (climb_pairs khash ep (Suc i) (khash (fst p) (snd p)) br)
        (concat (map level_pairs (build_levels khash (decimate khash level))))"
    unfolding idx2 by blast
  then show ?case
  proof cases
    case 1
    have q: "?q \<in> set (level_pairs level)"
      using other_less(2) [OF idx] len by (auto simp: level_pairs_def)
    have "khash (fst p) (snd p) = khash (fst ?q) (snd ?q)"
      using 1 other_less(2) [OF idx] len by (simp add: decimate_def)
    moreover have "acc = level ! idx" if "p = ?q"
      using that par by (auto simp: p_def mult.commute [of _ 2] elim!: evenE oddE split: if_splits)
    ultimately have "acc = level ! idx \<or> clash khash [p] (level_pairs level)"
      using q unfolding clash_def by (cases p) force
    moreover have "clash khash (climb_pairs khash ep i acc (h # br))
        (concat (map level_pairs (build_levels khash level)))" if "clash khash [p] (level_pairs level)"
      by (rule clash_mono [OF that]) (auto simp: Let_def p_def build_levels_step(1) [OF len])
    ultimately show ?thesis by (auto simp: idx_def)
  next
    case 2
    have "clash khash (climb_pairs khash ep i acc (h # br))
        (concat (map level_pairs (build_levels khash level)))"
      by (rule clash_mono [OF 2]) (auto simp: Let_def p_def build_levels_step(1) [OF len])
    then show ?thesis by blast
  qed
qed

section \<open>Properties\<close>

lemma generate_tree:
  assumes "length keys = KEY_COUNT"
  shows "to_public_key (generate hash khash b keys) =
      Some (root_of khash (map (\<lambda>k. hash (public_der b k)) keys))"
    and "merkle_branch (generate hash khash b keys) ep =
      branch_from (unat ep) (butlast (build_levels khash (map (\<lambda>k. hash (public_der b k)) keys)))"
    and "get_subkey (generate hash khash b keys) ep = Some (keys ! unat ep)"
proof -
  have len: "length (map (\<lambda>k. hash (public_der b k)) keys) = 2 ^ 16"
    using assms by (simp add: KEY_COUNT_def)
  show "to_public_key (generate hash khash b keys) =
      Some (root_of khash (map (\<lambda>k. hash (public_der b k)) keys))"
    using build_levels_last [OF len, of khash]
    by (auto simp: to_public_key_def generate_def root_of_def)
  show "merkle_branch (generate hash khash b keys) ep =
      branch_from (unat ep) (butlast (build_levels khash (map (\<lambda>k. hash (public_der b k)) keys)))"
    by (simp add: merkle_branch_def generate_def butlast_conv_take)
  show "get_subkey (generate hash khash b keys) ep = Some (keys ! unat ep)"
    using assms unsigned_less [of ep, where ?'a = nat]
    by (simp add: get_subkey_def generate_def KEY_COUNT_def)
qed

lemma generate_branch:
  assumes "length keys = KEY_COUNT"
  obtains br where "merkle_branch (generate hash khash b keys) ep = Some br" "length br = 16"
    "climb khash ep 0 (hash (public_der b (keys ! unat ep))) br =
       to_public_key (generate hash khash b keys)"
proof -
  let ?leaves = "map (\<lambda>k. hash (public_der b k)) keys"
  have e: "unat ep < 65536" using unsigned_less [of ep, where ?'a = nat] by simp
  have "length ?leaves = 2 ^ 16" using assms by (simp add: KEY_COUNT_def)
  from climb_branch [OF this, of ep 0 "unat ep" khash] e obtain br where
    "branch_from (unat ep) (butlast (build_levels khash ?leaves)) = Some br" "length br = 16"
    "climb khash ep 0 (?leaves ! unat ep) br = Some (root_of khash ?leaves)"
    by auto
  with e assms show thesis
    by (intro that) (simp_all add: generate_tree [OF assms] KEY_COUNT_def)
qed

text \<open>
  What the code relies on of blind RSA, for a key it generated: its public key parses, and a
  blinded message that is signed and finalized verifies.
\<close>

definition brs_ok :: "'s brs \<Rightarrow> bytes \<Rightarrow> bool" where
  "brs_ok b sk \<longleftrightarrow> valid_public b (public_der b sk) \<and>
     (\<forall>rnd msg blinded secret. rsa_blind b (public_der b sk) rnd msg = (blinded, secret) \<longrightarrow>
        (\<exists>bsig sig. rsa_blind_sign b sk blinded = Some bsig \<and>
          rsa_finalize b (public_der b sk) bsig secret msg = Some sig \<and>
          rsa_verify b (public_der b sk) sig msg))"

text \<open>
  Instances on which the properties can be evaluated: signatures that are the message with the
  key in front, and symbolic hashes.
\<close>

definition plain_brs :: "unit brs" where
  "plain_brs =
     \<lparr>public_der = \<lambda>sk. sk, valid_public = \<lambda>pk. pk \<noteq> [], rsa_blind = \<lambda>pk rnd msg. (msg, ()),
      rsa_blind_sign = \<lambda>sk m. Some (sk @ m), rsa_finalize = \<lambda>pk bsig s msg. Some bsig,
      rsa_verify = \<lambda>pk sig msg. sig = pk @ msg\<rparr>"

datatype sym_hash = Plain_Hash bytes | Keyed_Hash sym_hash sym_hash

definition example_keys :: "bytes list" where
  "example_keys = map (\<lambda>i. [word_of_nat (i div 256), word_of_nat i]) [0 ..< KEY_COUNT]"

lemma example_keys_ok: "length example_keys = KEY_COUNT" "\<forall>k \<in> set example_keys. brs_ok plain_brs k"
  by (auto simp: example_keys_def brs_ok_def plain_brs_def)

lemma climb_total: "i + length branch \<le> 16 \<Longrightarrow> \<exists>acc'. climb khash ep i acc branch = Some acc'"
  by (induction branch arbitrary: i acc) auto

lemma blind_verify_no_panic:
  "length (us_merkle_branch sig) \<le> 16 \<Longrightarrow> \<exists>v. blind_verify hash khash b root token sig = Some v"
  using climb_total [of 0 "us_merkle_branch sig" khash "epoch sig" "hash (used_key sig)"]
  by (auto simp: blind_verify_def verify_member_def)

lemma signed_token_verifies:
  assumes "length keys = KEY_COUNT" and "\<forall>k \<in> set keys. brs_ok b k"
    and "token_blind b rnd (public_der b (keys ! unat ep)) token = (blinded, secret)"
  shows "\<exists>bsig sig root.
     blind_sign b (generate hash khash b keys) ep blinded = Some bsig \<and>
     unblind b bsig secret token = Inr sig \<and>
     to_public_key (generate hash khash b keys) = Some root \<and>
     blind_verify hash khash b root token sig = Some (Inr ()) \<and>
     length (us_merkle_branch sig) = 16"
proof -
  let ?sk = "keys ! unat ep"
  have "unat ep < length keys"
    using assms(1) unsigned_less [of ep, where ?'a = nat] by (simp add: KEY_COUNT_def)
  then have "brs_ok b ?sk" using assms(2) by simp
  then obtain bsig sig where r: "valid_public b (public_der b ?sk)"
      "rsa_blind_sign b ?sk blinded = Some bsig"
      "rsa_finalize b (public_der b ?sk) bsig secret token = Some sig"
      "rsa_verify b (public_der b ?sk) sig token"
    using assms(3) unfolding brs_ok_def token_blind_def by blast
  obtain br where br: "merkle_branch (generate hash khash b keys) ep = Some br" "length br = 16"
      "climb khash ep 0 (hash (public_der b ?sk)) br = to_public_key (generate hash khash b keys)"
    using generate_branch [OF assms(1)] by metis
  show ?thesis
    using r br
    by (simp add: blind_sign_def unblind_def blind_verify_def verify_member_def
        generate_tree(1,3) [OF assms(1)])
qed

text \<open>
  C17: A token blinded with the key of an epoch, signed with that key and unblinded is accepted
  by the public key, for every epoch and every token: the Merkle branch the signer attaches
  leads to the root, no index is out of range and nothing panics.
\<close>

theorem blind_sign_verifies:
  assumes "length keys = KEY_COUNT" and "\<forall>k \<in> set keys. brs_ok b k"
    and "token_blind b rnd (public_der b (keys ! unat ep)) token = (blinded, secret)"
  shows "\<exists>bsig sig root.
     blind_sign b (generate hash khash b keys) ep blinded = Some bsig \<and>
     unblind b bsig secret token = Inr sig \<and>
     to_public_key (generate hash khash b keys) = Some root \<and>
     blind_verify hash khash b root token sig = Some (Inr ())"
  using signed_token_verifies [OF assms, of hash khash] by blast

theorem blind_sign_verifies_witness:
  "\<exists>bsig sig root.
     blind_sign plain_brs (generate Plain_Hash Keyed_Hash plain_brs example_keys) 300 [9, 9] = Some bsig \<and>
     unblind plain_brs bsig () [9, 9] = Inr sig \<and>
     to_public_key (generate Plain_Hash Keyed_Hash plain_brs example_keys) = Some root \<and>
     blind_verify Plain_Hash Keyed_Hash plain_brs root [9, 9] sig = Some (Inr ())"
proof -
  have "token_blind plain_brs 0 (public_der plain_brs (example_keys ! unat (300 :: u16))) [9, 9] = ([9, 9], ())"
    by (simp add: token_blind_def plain_brs_def)
  from blind_sign_verifies [OF example_keys_ok this] show ?thesis .
qed

text \<open>
  C18: Soundness of membership proofs. If the proof that a key belongs to an epoch is accepted,
  then either the key hashes to the node of the tree the length of the branch and the epoch
  determine - for a branch of 16 hashes, to the leaf of exactly that epoch - or the proof and
  the tree contain an explicit collision of the keyed hash.
\<close>

theorem verify_member_sound:
  assumes "length keys = KEY_COUNT"
    and "to_public_key (generate hash khash b keys) = Some root"
    and "verify_member hash khash root ep subkey branch = Some (Inr ())"
  shows "length branch \<le> 16 \<and>
     (hash subkey = merkle_tree (generate hash khash b keys) ! (16 - length branch)
         ! (unat ep mod 2 ^ length branch) \<or>
      clash khash (climb_pairs khash ep 0 (hash subkey) branch)
        (concat (map level_pairs (merkle_tree (generate hash khash b keys)))))"
proof -
  let ?leaves = "map (\<lambda>k. hash (public_der b k)) keys"
  have c: "climb khash ep 0 (hash subkey) branch = Some root"
    using assms(3) by (auto simp: verify_member_def split: if_splits)
  then have n: "length branch \<le> 16" using climb_long [of 0 branch khash ep] by fastforce
  have "length ?leaves = 2 ^ 16" using assms(1) by (simp add: KEY_COUNT_def)
  from build_levels_suffix [OF this, of "16 - length branch" khash] n obtain level where
    l: "length level = 2 ^ length branch" "root_of khash level = root_of khash ?leaves"
      "build_levels khash ?leaves ! (16 - length branch) = level"
      "set (build_levels khash level) \<subseteq> set (build_levels khash ?leaves)"
    by auto
  have "climb khash ep 0 (hash subkey) branch = Some (root_of khash level)"
    using c assms(2) generate_tree(1) [OF assms(1), of hash khash b] l(2) by simp
  from climb_sound [OF l(1) _ this] n consider
      "hash subkey = level ! (unat ep mod 2 ^ length branch)"
    | "clash khash (climb_pairs khash ep 0 (hash subkey) branch)
        (concat (map level_pairs (build_levels khash level)))"
    by auto
  then show ?thesis
  proof cases
    case 1
    then show ?thesis using n l(3) by (simp add: generate_def)
  next
    case 2
    have "clash khash (climb_pairs khash ep 0 (hash subkey) branch)
        (concat (map level_pairs (build_levels khash ?leaves)))"
      by (rule clash_mono [OF 2]) (use l(4) in auto)
    then show ?thesis using n by (simp add: generate_def)
  qed
qed

theorem verify_member_sound_witness:
  "\<exists>root branch.
     verify_member Plain_Hash Keyed_Hash root 300 [1, 44] branch = Some (Inr ()) \<and> length branch \<le> 16 \<and>
     (Plain_Hash [1, 44] = merkle_tree (generate Plain_Hash Keyed_Hash plain_brs example_keys)
          ! (16 - length branch) ! (300 mod 2 ^ length branch) \<or>
      clash Keyed_Hash (climb_pairs Keyed_Hash 300 0 (Plain_Hash [1, 44]) branch)
        (concat (map level_pairs (merkle_tree (generate Plain_Hash Keyed_Hash plain_brs example_keys)))))"
proof -
  let ?sk = "generate Plain_Hash Keyed_Hash plain_brs example_keys"
  have key: "public_der plain_brs (example_keys ! unat (300 :: u16)) = [1, 44]"
    by (simp add: example_keys_def KEY_COUNT_def plain_brs_def)
  obtain br where br: "climb Keyed_Hash 300 0 (Plain_Hash [1, 44]) br = to_public_key ?sk"
    using generate_branch [OF example_keys_ok(1), of Plain_Hash Keyed_Hash plain_brs 300] key by metis
  obtain root where root: "to_public_key ?sk = Some root"
    using generate_tree(1) [OF example_keys_ok(1)] by blast
  have v: "verify_member Plain_Hash Keyed_Hash root 300 [1, 44] br = Some (Inr ())"
    using br root by (simp add: verify_member_def)
  with verify_member_sound [OF example_keys_ok(1) root v] show ?thesis by auto
qed

text \<open>
  The length of the branch is not checked before the loop: whatever the key and the root, a
  signature with more than 16 hashes in its branch makes the verifier panic in the 17th shift.
\<close>

theorem long_branch_panics:
  assumes "16 < length (us_merkle_branch sig)"
  shows "blind_verify hash khash b root token sig = None"
  using climb_long [of 0 "us_merkle_branch sig"] assms
  by (simp add: blind_verify_def verify_member_def)

theorem long_branch_panics_witness:
  "blind_verify Plain_Hash Keyed_Hash plain_brs (Plain_Hash []) [7]
     \<lparr>epoch = 3, used_key = [1], us_merkle_branch = replicate 17 (Plain_Hash [2]), unblinded_sig = []\<rparr> = None"
  by (rule long_branch_panics) simp

end
