(* ===== verification/Broker_Protocol.thy ===== *)
theory Broker_Protocol
  imports Mizaru Complex_Main
begin

text \<open>
  The vocabulary broker, exits, bridges and clients share (libraries/geph5-broker-protocol/src):
  account levels and errors, descriptors of exits, bridges and routes, and the two envelopes
  Mac and Signed. BLAKE3, ed25519 and the stdcode serialization are parameters: the record
  \<open>proto_crypto\<close> and the argument \<open>stdcode\<close> of the operations. A SocketAddr is its text, an
  f32 a rational number.
\<close>

type_synonym sock_addr = string

datatype AccountLevel = Free | Plus

datatype AuthError = RateLimited | Forbidden | WrongLevel

datatype Credential =
    TestDummy
  | LegacyUsernamePassword (username: string) (password: string)
  | Secret string

record UserInfo =
  user_id :: int
  plus_expires_unix :: "int option"
  recurring :: bool

record VoucherInfo =
  code :: string
  explanation :: "(string \<times> string) list"

record ExitDescriptor =
  c2e_listen :: sock_addr
  b2e_listen :: sock_addr
  country :: string
  city :: string
  load :: rat
  expiry :: nat

record ExitList =
  all_exits :: "(bytes \<times> ExitDescriptor) list"
  city_names :: "(string \<times> (string \<times> string) list) list"

text \<open>The overall expiry of a list of exits, in seconds after the epoch.\<close>

definition exit_list_expiry :: "ExitList \<Rightarrow> nat" where
  "exit_list_expiry l =
     (case map (\<lambda>e. expiry (snd e)) (all_exits l) of [] \<Rightarrow> 0 | x # xs \<Rightarrow> Min (set (x # xs)))"

record BridgeDescriptor =
  control_listen :: sock_addr
  control_cookie :: string
  pool :: string
  br_expiry :: nat

datatype RouteDescriptor =
    Tcp sock_addr
  | Sosistab3 string RouteDescriptor
  | PlainTls "string option" RouteDescriptor
  | Race "RouteDescriptor list"
  | Fallback "RouteDescriptor list"
  | Timeout nat RouteDescriptor
  | Delay nat RouteDescriptor
  | ConnTest nat RouteDescriptor
  | Other string

definition DOMAIN_EXIT_DESCRIPTOR :: string where
  "DOMAIN_EXIT_DESCRIPTOR = ''exit-descriptor''"

section \<open>Envelopes\<close>

record proto_crypto =
  b3_hash :: "bytes \<Rightarrow> bytes"
  b3_keyed :: "bytes \<Rightarrow> bytes \<Rightarrow> bytes"
  ed_public :: "bytes \<Rightarrow> bytes"
  ed_sign :: "bytes \<Rightarrow> bytes \<Rightarrow> bytes"
  ed_verify :: "bytes \<Rightarrow> bytes \<Rightarrow> bytes \<Rightarrow> bool"

definition text_bytes :: "string \<Rightarrow> bytes" where
  "text_bytes s = map (\<lambda>c. word_of_nat (of_char c)) s"

record 'a Mac =
  mac_inner :: 'a
  khash :: bytes

definition mac_new :: "proto_crypto \<Rightarrow> ('a \<Rightarrow> bytes) \<Rightarrow> 'a \<Rightarrow> bytes \<Rightarrow> 'a Mac" where
  "mac_new pc stdcode x preshared_secret =
     \<lparr>mac_inner = x, khash = b3_keyed pc preshared_secret (stdcode x)\<rparr>"

definition mac_verify :: "proto_crypto \<Rightarrow> ('a \<Rightarrow> bytes) \<Rightarrow> 'a Mac \<Rightarrow> bytes \<Rightarrow> string + 'a" where
  "mac_verify pc stdcode m preshared_secret =
     (let expected_hash = b3_keyed pc preshared_secret (stdcode (mac_inner m))
      in if khash m = expected_hash then Inr (mac_inner m) else Inl ''Invalid MAC'')"

record 'a Signed =
  signed_inner :: 'a
  signature :: bytes
  pubkey :: bytes

definition signed_digest :: "proto_crypto \<Rightarrow> ('a \<Rightarrow> bytes) \<Rightarrow> string \<Rightarrow> 'a \<Rightarrow> bytes" where
  "signed_digest pc stdcode domain x = b3_keyed pc (b3_hash pc (text_bytes domain)) (stdcode x)"

definition signed_new :: "proto_crypto \<Rightarrow> ('a \<Rightarrow> bytes) \<Rightarrow> 'a \<Rightarrow> string \<Rightarrow> bytes \<Rightarrow> 'a Signed" where
  "signed_new pc stdcode x domain seckey =
     \<lparr>signed_inner = x, signature = ed_sign pc seckey (signed_digest pc stdcode domain x),
      pubkey = ed_public pc seckey\<rparr>"

definition signed_verify ::
    "proto_crypto \<Rightarrow> ('a \<Rightarrow> bytes) \<Rightarrow> 'a Signed \<Rightarrow> string \<Rightarrow> (bytes \<Rightarrow> bool) \<Rightarrow> string + 'a" where
  "signed_verify pc stdcode s domain is_valid_pk =
     (if \<not> is_valid_pk (pubkey s) then Inl ''Invalid public key''
      else if \<not> ed_verify pc (pubkey s) (signed_digest pc stdcode domain (signed_inner s)) (signature s)
      then Inl ''Invalid signature''
      else Inr (signed_inner s))"

text \<open>What is relied on of ed25519: signatures verify under the key that made them.\<close>

definition ed_ok :: "proto_crypto \<Rightarrow> bool" where
  "ed_ok pc \<longleftrightarrow> (\<forall>sk m. ed_verify pc (ed_public pc sk) m (ed_sign pc sk m))"

lemma mac_roundtrip: "mac_verify pc stdcode (mac_new pc stdcode x k) k = Inr x"
  by (simp add: mac_verify_def mac_new_def)

lemma mac_verify_Inr_iff:
  "mac_verify pc stdcode m k = Inr x \<longleftrightarrow> mac_inner m = x \<and> khash m = b3_keyed pc k (stdcode x)"
  by (auto simp: mac_verify_def Let_def)

text \<open>A plain instance of the primitives: keys are their own public keys, signatures tag the digest.\<close>

definition plain_proto :: proto_crypto where
  "plain_proto =
     \<lparr>b3_hash = \<lambda>m. m, b3_keyed = \<lambda>k m. k @ m, ed_public = \<lambda>sk. sk,
      ed_sign = \<lambda>sk m. sk @ m, ed_verify = \<lambda>pk m s. s = pk @ m\<rparr>"

lemma plain_proto_ok: "ed_ok plain_proto"
  by (simp add: ed_ok_def plain_proto_def)

lemma signed_roundtrip:
  "ed_ok pc \<Longrightarrow> is_valid_pk (ed_public pc sk) \<Longrightarrow>
     signed_verify pc stdcode (signed_new pc stdcode x domain sk) domain is_valid_pk = Inr x"
  by (simp add: signed_verify_def signed_new_def ed_ok_def)

lemma signed_verify_Inr_iff:
  "signed_verify pc stdcode s domain is_valid_pk = Inr x \<longleftrightarrow>
     is_valid_pk (pubkey s) \<and> signed_inner s = x \<and>
     ed_verify pc (pubkey s) (signed_digest pc stdcode domain x) (signature s)"
  by (auto simp: signed_verify_def)

lemma exit_list_expiry_le:
  assumes "e \<in> set (all_exits l)"
  shows "exit_list_expiry l \<le> expiry (snd e)"
proof -
  let ?es = "map (\<lambda>e. expiry (snd e)) (all_exits l)"
  have "expiry (snd e) \<in> set ?es" using assms by simp
  then have "exit_list_expiry l = Min (set ?es)" "Min (set ?es) \<le> expiry (snd e)"
    by (auto simp: exit_list_expiry_def split: list.splits)
  then show ?thesis by simp
qed

end
