(* ===== verification/Broker_Db.thy ===== *)
theory Broker_Db
  imports Broker_Protocol
begin

text \<open>
  The state of the broker and the operations on it below the RPC layer
  (binaries/geph5-broker/src: database.rs, auth.rs, free_voucher.rs, puzzle.rs). The tables of
  the PostgreSQL database are lists of rows or maps; a query is modelled by its effect on them.
  Any query can fail: an operation takes \<open>q\<close>, which says for each of its queries, numbered in
  program order, whether the database answers. The password hash, the proof of work and the
  payment service are third-party code, the fields of \<open>broker_fns\<close>. Times are milliseconds.

  used_puzzles has a unique key (the code deduplicates on insert), and the keys the upserts
  name in their ON CONFLICT clauses are unique.
\<close>

record broker_fns =
  verify_password :: "string \<Rightarrow> string \<Rightarrow> bool option"
  b64_decode :: "string \<Rightarrow> bytes option"
  proof_parse :: "bytes \<Rightarrow> bytes option"
  proof_verify :: "bytes \<Rightarrow> string \<Rightarrow> nat \<Rightarrow> bool"
  puzzle_difficulty :: nat
  create_giftcard :: "int \<Rightarrow> string + string"
  start_session :: "int \<Rightarrow> string + string"
  spend_giftcard :: "string \<Rightarrow> string \<Rightarrow> string + int"
  start_stripe_url :: "string \<Rightarrow> nat \<Rightarrow> bool \<Rightarrow> string + string"
  start_aliwechat :: "string \<Rightarrow> nat \<Rightarrow> string \<Rightarrow> string + string"
  parse_description :: "string \<Rightarrow> (string \<times> string) list option"
  voucher_description :: string
  digest :: "string \<Rightarrow> nat"

section \<open>Caches\<close>

text \<open>
  The moka and cached caches: an entry is used until it is \<open>ttl\<close> old - with \<open>idle\<close>, until it
  has not been used for that long; otherwise the value is computed, and kept if there was no
  error.
\<close>

type_synonym ('k, 'v) cache = "'k \<Rightarrow> ('v \<times> nat) option"

definition cache_hit :: "nat \<Rightarrow> nat \<Rightarrow> 'k \<Rightarrow> ('k, 'v) cache \<Rightarrow> 'v option" where
  "cache_hit ttl now k c =
     (case c k of None \<Rightarrow> None | Some (v, t) \<Rightarrow> if now - t < ttl then Some v else None)"

definition cache_fetch ::
    "bool \<Rightarrow> nat \<Rightarrow> nat \<Rightarrow> 'k \<Rightarrow> 'e + 'v \<Rightarrow> ('k, 'v) cache \<Rightarrow> ('e + 'v) \<times> ('k, 'v) cache" where
  "cache_fetch idle ttl now k fresh c =
     (case cache_hit ttl now k c of
        Some v \<Rightarrow> (Inr v, if idle then c(k \<mapsto> (v, now)) else c)
      | None \<Rightarrow> (case fresh of Inl e \<Rightarrow> (Inl e, c) | Inr v \<Rightarrow> (Inr v, c(k \<mapsto> (v, now)))))"

section \<open>Tables\<close>

record ExitRow =
  row_pubkey :: bytes
  row_c2e :: string
  row_b2e :: string
  row_country :: string
  row_city :: string
  row_load :: rat
  row_expiry :: int

record bridge_row =
  bn_listen :: string
  bn_cookie :: string
  bn_pool :: string
  bn_expiry :: int
  bn_alloc_count :: nat

record voucher_row =
  fv_id :: int
  fv_voucher :: string
  fv_description :: string
  fv_visible_after :: nat

record broker =
  user_seq :: int
  users :: "int list"
  auth_secret :: "(int \<times> string) list"
  auth_password :: "string \<Rightarrow> (int \<times> string) option"
  auth_tokens :: "(string \<times> int) list"
  subscriptions :: "(int \<times> int) list"
  recurring_subs :: "int list"
  payment_events :: "nat list"
  free_vouchers :: "voucher_row list"
  last_login :: "int \<Rightarrow> nat option"
  used_puzzles :: "string list"
  exits_new :: "ExitRow list"
  bridges_new :: "bridge_row list"
  bridge_group_delays :: "string \<Rightarrow> (nat \<times> bool) option"
  cred_cache :: "(Credential, int) cache"
  token_cache :: "(string, int option) cache"
  ts_cache :: "(nat, int) cache"
  sub_cache :: "(int, int \<Rightarrow> (int \<times> bool) option) cache"
  exit_cache :: "(unit, ExitList) cache"
  bridge_cache :: "(string, (BridgeDescriptor \<times> nat \<times> bool) list) cache"
  route_cache :: "(BridgeDescriptor \<times> sock_addr, string + RouteDescriptor) cache"

section \<open>database.rs\<close>

text \<open>The casts between u64 and i64 reinterpret the bits.\<close>

definition as_i64 :: "nat \<Rightarrow> int" where
  "as_i64 n = sint (word_of_nat n :: u64)"

definition as_u64 :: "int \<Rightarrow> nat" where
  "as_u64 i = unat (word_of_int i :: u64)"

definition gc_exits :: "nat \<Rightarrow> broker \<Rightarrow> broker" where
  "gc_exits now st = st\<lparr>exits_new := filter (\<lambda>r. \<not> row_expiry r * 1000 < int now) (exits_new st)\<rparr>"

definition gc_bridges :: "nat \<Rightarrow> broker \<Rightarrow> broker" where
  "gc_bridges now st = st\<lparr>bridges_new := filter (\<lambda>r. \<not> bn_expiry r * 1000 < int now) (bridges_new st)\<rparr>"

text \<open>One turn of \<open>database_gc_loop\<close>; an error ends the loop.\<close>

definition database_gc :: "(nat \<Rightarrow> bool) \<Rightarrow> nat \<Rightarrow> broker \<Rightarrow> (string + unit) \<times> broker" where
  "database_gc q now st =
     (if \<not> q 0 then (Inl ''database error'', st)
      else let st1 = gc_exits now st
           in if \<not> q 1 then (Inl ''database error'', st1) else (Inr (), gc_bridges now st1))"

text \<open>INSERT ... ON CONFLICT (key) DO UPDATE: the row with this key is replaced.\<close>

fun upsert :: "('r \<Rightarrow> 'k) \<Rightarrow> 'r \<Rightarrow> 'r list \<Rightarrow> 'r list" where
  "upsert key r [] = [r]"
| "upsert key r (x # xs) = (if key x = key r then r # xs else x # upsert key r xs)"

definition db_insert_exit :: "ExitRow \<Rightarrow> broker \<Rightarrow> broker" where
  "db_insert_exit r st = st\<lparr>exits_new := upsert row_pubkey r (exits_new st)\<rparr>"

text \<open>
  The upsert of a bridge sets cookie, pool and expiry and keeps the allocation count; a new row
  starts at zero.
\<close>

definition db_insert_bridge :: "BridgeDescriptor \<Rightarrow> broker \<Rightarrow> broker" where
  "db_insert_bridge d st =
     (let old = find (\<lambda>r. bn_listen r = control_listen d) (bridges_new st)
      in st\<lparr>bridges_new := upsert bn_listen
           \<lparr>bn_listen = control_listen d, bn_cookie = control_cookie d, bn_pool = pool d,
            bn_expiry = as_i64 (br_expiry d),
            bn_alloc_count = (case old of None \<Rightarrow> 0 | Some r \<Rightarrow> bn_alloc_count r)\<rparr> (bridges_new st)\<rparr>)"

text \<open>
  \<open>query_bridges\<close>: of each pool the bridge with the least digest of its address and the key;
  the selected bridges' allocation counts go up. Cached for 300 seconds per key.
\<close>

definition select_bridges :: "broker_fns \<Rightarrow> string \<Rightarrow> bridge_row list \<Rightarrow> bridge_row list" where
  "select_bridges fns key rows =
     map (\<lambda>p. arg_min_list (\<lambda>r. digest fns (bn_listen r @ key)) (filter (\<lambda>r. bn_pool r = p) rows))
       (remdups (map bn_pool rows))"

definition bridge_tuple :: "broker \<Rightarrow> bridge_row \<Rightarrow> BridgeDescriptor \<times> nat \<times> bool" where
  "bridge_tuple st r =
     (\<lparr>control_listen = bn_listen r, control_cookie = bn_cookie r, pool = bn_pool r,
       br_expiry = as_u64 (bn_expiry r)\<rparr>,
      (case bridge_group_delays st (bn_pool r) of None \<Rightarrow> 0 | Some (d, p) \<Rightarrow> d),
      (case bridge_group_delays st (bn_pool r) of None \<Rightarrow> False | Some (d, p) \<Rightarrow> p))"

definition query_bridges ::
    "broker_fns \<Rightarrow> bool \<Rightarrow> nat \<Rightarrow> string \<Rightarrow> broker
       \<Rightarrow> (string + (BridgeDescriptor \<times> nat \<times> bool) list) \<times> broker" where
  "query_bridges fns q now key st =
     (let sel = select_bridges fns key (bridges_new st);
          fresh = if q then Inr (map (bridge_tuple st) sel) else Inl ''database error'';
          miss = (cache_hit 300000 now key (bridge_cache st) = None);
          (r, c) = cache_fetch False 300000 now key fresh (bridge_cache st)
      in (r, st\<lparr>bridge_cache := c,
               bridges_new := if miss \<and> q
                 then map (\<lambda>r. if bn_listen r \<in> set (map bn_listen sel)
                            then r\<lparr>bn_alloc_count := bn_alloc_count r + 1\<rparr> else r) (bridges_new st)
                 else bridges_new st\<rparr>))"

section \<open>auth.rs\<close>

text \<open>\<open>digits\<close>: 23 random numbers from 0..9, that is 0 to 8.\<close>

definition new_secret :: "nat list \<Rightarrow> string" where
  "new_secret digits = CHR ''9'' # map (\<lambda>d. ''0123456789'' ! d) digits"

definition next_visible :: "nat \<Rightarrow> voucher_row list \<Rightarrow> nat" where
  "next_visible now rows =
     (case rows of [] \<Rightarrow> now | _ \<Rightarrow> Max (set (map fv_visible_after rows)) + 1000)"

text \<open>One transaction: an error rolls it back, except for the sequence of user ids.\<close>

definition register_secret ::
    "broker_fns \<Rightarrow> (nat \<Rightarrow> bool) \<Rightarrow> nat \<Rightarrow> nat list \<Rightarrow> int option \<Rightarrow> broker \<Rightarrow> (string + string) \<times> broker" where
  "register_secret fns q now digits uid st =
     (let (uid', st1) = (case uid of
            Some u \<Rightarrow> (u, st)
          | None \<Rightarrow> (user_seq st, st\<lparr>user_seq := user_seq st + 1, users := users st @ [user_seq st]\<rparr>));
          back = st\<lparr>user_seq := user_seq st1\<rparr>
      in if uid = None \<and> \<not> q 0 then (Inl ''database error'', st)
         else if \<not> q 1 then (Inl ''database error'', back)
         else (case map_of (auth_secret st1) uid' of
                 Some secret \<Rightarrow> if \<not> q 4 then (Inl ''database error'', back) else (Inr secret, st1)
               | None \<Rightarrow>
                   (let secret = new_secret digits;
                        st2 = st1\<lparr>auth_secret := auth_secret st1 @ [(uid', secret)]\<rparr>
                    in if \<not> q 2 then (Inl ''database error'', back)
                       else (case create_giftcard fns 1 of
                               Inl e \<Rightarrow> (Inl e, back)
                             | Inr voucher \<Rightarrow>
                                 if \<not> q 3 \<or> \<not> q 4 then (Inl ''database error'', back)
                                 else (Inr secret, st2\<lparr>free_vouchers := free_vouchers st2 @
                                         [\<lparr>fv_id = uid', fv_voucher = voucher,
                                           fv_description = voucher_description fns,
                                           fv_visible_after = next_visible now (free_vouchers st2)\<rparr>]\<rparr>)))))"

definition validate_secret :: "bool \<Rightarrow> string \<Rightarrow> broker \<Rightarrow> AuthError + int" where
  "validate_secret q secret st =
     (if \<not> q then Inl RateLimited
      else case find (\<lambda>(_, s). s = secret) (auth_secret st) of
             Some (uid, _) \<Rightarrow> Inr uid
           | None \<Rightarrow> Inl Forbidden)"

definition validate_username_pwd :: "broker_fns \<Rightarrow> bool \<Rightarrow> string \<Rightarrow> string \<Rightarrow> broker \<Rightarrow> AuthError + int" where
  "validate_username_pwd fns q uname pwd st =
     (if \<not> q then Inl RateLimited
      else case auth_password st uname of
             None \<Rightarrow> Inl Forbidden
           | Some (uid, phc_string) \<Rightarrow>
               (case verify_password fns phc_string pwd of
                  None \<Rightarrow> Inl Forbidden
                | Some ok \<Rightarrow> if ok then Inr uid else Inl Forbidden))"

definition credential_user :: "broker_fns \<Rightarrow> bool \<Rightarrow> Credential \<Rightarrow> broker \<Rightarrow> AuthError + int" where
  "credential_user fns q cred st =
     (case cred of
        TestDummy \<Rightarrow> Inl Forbidden
      | LegacyUsernamePassword u p \<Rightarrow> validate_username_pwd fns q u p st
      | Secret s \<Rightarrow> validate_secret q s st)"

text \<open>Results, not errors, are cached for a day.\<close>

definition validate_credential ::
    "broker_fns \<Rightarrow> bool \<Rightarrow> nat \<Rightarrow> Credential \<Rightarrow> broker \<Rightarrow> (AuthError + int) \<times> broker" where
  "validate_credential fns q now cred st =
     (let (r, c) = cache_fetch False 86400000 now cred (credential_user fns q cred st) (cred_cache st)
      in (r, st\<lparr>cred_cache := c\<rparr>))"

text \<open>\<open>token\<close>: thirty random alphanumeric characters.\<close>

definition new_auth_token :: "bool \<Rightarrow> string \<Rightarrow> int \<Rightarrow> broker \<Rightarrow> (string + string) \<times> broker" where
  "new_auth_token q token uid st =
     (if q then (Inr token, st\<lparr>auth_tokens := auth_tokens st @ [(token, uid)]\<rparr>)
      else (Inl ''database failed'', st))"

definition get_user_id_from_token ::
    "bool \<Rightarrow> nat \<Rightarrow> string \<Rightarrow> broker \<Rightarrow> (string + int option) \<times> broker" where
  "get_user_id_from_token q now token st =
     (let fresh = if q then Inr (map_of (auth_tokens st) token) else Inl ''database error'';
          (r, c) = cache_fetch False 86400000 now token fresh (token_cache st)
      in (r, st\<lparr>token_cache := c\<rparr>))"

text \<open>
  Subscriptions: the whole table is cached under the time of the latest payment event, in whole
  seconds (the cast of the epoch to bigint rounds); that time is cached for the current slot of
  50 milliseconds. Both caches expire after 60 seconds without use.
\<close>

definition subscription_table :: "broker \<Rightarrow> int \<Rightarrow> (int \<times> bool) option" where
  "subscription_table st uid =
     map_option (\<lambda>ex. (ex, uid \<in> set (recurring_subs st))) (map_of (rev (subscriptions st)) uid)"

definition last_payment :: "broker \<Rightarrow> int option" where
  "last_payment st =
     (case payment_events st of [] \<Rightarrow> None | es \<Rightarrow> Some (int ((Max (set es) + 500) div 1000)))"

definition get_subscription_expiry ::
    "(nat \<Rightarrow> bool) \<Rightarrow> nat \<Rightarrow> int \<Rightarrow> broker \<Rightarrow> (string + (int \<times> bool) option) \<times> broker" where
  "get_subscription_expiry q now uid st =
     (let fresh_ts = (case last_payment st of
            None \<Rightarrow> Inl ''unexpected null'' | Some ts \<Rightarrow> if q 0 then Inr ts else Inl ''database error'');
          (rt, ct) = cache_fetch True 60000 now (now div 50) fresh_ts (ts_cache st);
          st1 = st\<lparr>ts_cache := ct\<rparr>
      in case rt of
           Inl e \<Rightarrow> (Inl e, st1)
         | Inr ts \<Rightarrow>
             (let fresh = if q 1 then Inr (subscription_table st) else Inl ''database error'';
                  (rs, cs) = cache_fetch True 60000 now ts fresh (sub_cache st)
              in (map_sum id (\<lambda>tbl. tbl uid) rs, st1\<lparr>sub_cache := cs\<rparr>)))"

definition record_auth :: "bool \<Rightarrow> nat \<Rightarrow> int \<Rightarrow> broker \<Rightarrow> broker" where
  "record_auth q now uid st = (if q then st\<lparr>last_login := (last_login st)(uid \<mapsto> now)\<rparr> else st)"

definition valid_auth_token ::
    "(nat \<Rightarrow> bool) \<Rightarrow> nat \<Rightarrow> string \<Rightarrow> broker \<Rightarrow> (string + (int \<times> AccountLevel) option) \<times> broker" where
  "valid_auth_token q now token st =
     (case get_user_id_from_token (q 0) now token st of
        (Inl e, st1) \<Rightarrow> (Inl e, st1)
      | (Inr None, st1) \<Rightarrow> (Inr None, st1)
      | (Inr (Some uid), st1) \<Rightarrow>
          (case get_subscription_expiry (\<lambda>i. q (Suc i)) now uid st1 of
             (Inl e, st2) \<Rightarrow> (Inl e, st2)
           | (Inr ex, st2) \<Rightarrow>
               (Inr (Some (uid, if ex = None then Free else Plus)), record_auth (q 3) now uid st2)))"

definition get_user_info ::
    "(nat \<Rightarrow> bool) \<Rightarrow> nat \<Rightarrow> int \<Rightarrow> broker \<Rightarrow> (AuthError + UserInfo option) \<times> broker" where
  "get_user_info q now uid st =
     (case get_subscription_expiry q now uid st of
        (Inl _, st1) \<Rightarrow> (Inl RateLimited, st1)
      | (Inr ex, st1) \<Rightarrow>
          (Inr (Some \<lparr>user_id = uid, plus_expires_unix = map_option fst ex,
                     recurring = (case ex of None \<Rightarrow> False | Some (_, r) \<Rightarrow> r)\<rparr>), st1))"

section \<open>free_voucher.rs and puzzle.rs\<close>

definition db_get_free_voucher :: "broker_fns \<Rightarrow> bool \<Rightarrow> int \<Rightarrow> broker \<Rightarrow> string + VoucherInfo option" where
  "db_get_free_voucher fns q uid st =
     (if \<not> q then Inl ''database error''
      else case find (\<lambda>r. fv_id r = uid \<and> uid \<in> set (users st)) (free_vouchers st) of
             None \<Rightarrow> Inr None
           | Some r \<Rightarrow>
               (case parse_description fns (fv_description r) of
                  None \<Rightarrow> Inl ''bad description''
                | Some m \<Rightarrow> Inr (Some \<lparr>code = fv_voucher r, explanation = m\<rparr>)))"

definition delete_free_voucher :: "bool \<Rightarrow> int \<Rightarrow> broker \<Rightarrow> (string + bool) \<times> broker" where
  "delete_free_voucher q uid st =
     (if \<not> q then (Inl ''database error'', st)
      else (Inr (\<exists>r \<in> set (free_vouchers st). fv_id r = uid),
            st\<lparr>free_vouchers := filter (\<lambda>r. fv_id r \<noteq> uid) (free_vouchers st)\<rparr>))"

text \<open>
  Creating a voucher for every user with a secret; \<open>gift\<close> answers each request for a code. The
  database is taken to answer; the first refusal of the payment service ends the run.
\<close>

fun create_vouchers ::
    "broker_fns \<Rightarrow> (int \<Rightarrow> string + string) \<Rightarrow> nat \<Rightarrow> int list \<Rightarrow> nat \<Rightarrow> broker \<Rightarrow> (string + nat) \<times> broker" where
  "create_vouchers fns gift now [] created_count st = (Inr created_count, st)"
| "create_vouchers fns gift now (uid # uids) created_count st =
     (if \<exists>r \<in> set (free_vouchers st). fv_id r = uid
      then create_vouchers fns gift now uids created_count st
      else (case gift uid of
              Inl e \<Rightarrow> (Inl (''Failed to create giftcard: '' @ e), st)
            | Inr voucher \<Rightarrow>
                create_vouchers fns gift now uids (created_count + 1)
                  (st\<lparr>free_vouchers := free_vouchers st @
                     [\<lparr>fv_id = uid, fv_voucher = voucher, fv_description = voucher_description fns,
                       fv_visible_after = next_visible now (free_vouchers st)\<rparr>]\<rparr>)))"

definition create_one_day_vouchers_for_all_users ::
    "broker_fns \<Rightarrow> (int \<Rightarrow> string + string) \<Rightarrow> nat \<Rightarrow> broker \<Rightarrow> (string + nat) \<times> broker" where
  "create_one_day_vouchers_for_all_users fns gift now st =
     create_vouchers fns gift now (map fst (auth_secret st)) 0 st"

definition check_puzzle_solution :: "broker_fns \<Rightarrow> string \<Rightarrow> nat \<Rightarrow> string \<Rightarrow> string + unit" where
  "check_puzzle_solution fns puzzle difficulty solution =
     (case b64_decode fns solution of
        None \<Rightarrow> Inl ''invalid base64''
      | Some bts \<Rightarrow>
          (case proof_parse fns bts of
             None \<Rightarrow> Inl ''invalid solution format''
           | Some pf \<Rightarrow>
               if proof_verify fns pf puzzle difficulty then Inr () else Inl ''invalid solution to puzzle''))"

definition verify_puzzle_solution ::
    "broker_fns \<Rightarrow> bool \<Rightarrow> string \<Rightarrow> string \<Rightarrow> broker \<Rightarrow> (string + unit) \<times> broker" where
  "verify_puzzle_solution fns q puzzle solution st =
     (case check_puzzle_solution fns puzzle (puzzle_difficulty fns) solution of
        Inl e \<Rightarrow> (Inl e, st)
      | Inr _ \<Rightarrow>
          if \<not> q \<or> puzzle \<in> set (used_puzzles st) then (Inl ''database error'', st)
          else (Inr (), st\<lparr>used_puzzles := used_puzzles st @ [puzzle]\<rparr>))"

end
