(* ===== verification/Broker.thy ===== *)
theory Broker
  imports Broker_Db
begin

text \<open>
  The RPC handlers of the broker (binaries/geph5-broker/src/rpc_impl.rs) and the routes it
  builds (routes.rs). The mizaru keys, the configuration and the third-party primitives are the
  fields of \<open>broker_env\<close>; what a bridge answers to a request for a forwarding is the argument
  \<open>fwd\<close>. Handlers that verify mizaru signatures can panic: None.
\<close>

record ('h, 's) broker_env =
  env_fns :: broker_fns
  env_pc :: proto_crypto
  mz_hash :: "bytes \<Rightarrow> 'h"
  mz_khash :: "'h \<Rightarrow> 'h \<Rightarrow> 'h"
  mz_brs :: "'s brs"
  free_sk :: "'h SecretKey"
  plus_sk :: "'h SecretKey"
  master_secret :: bytes
  exit_token :: string
  bridge_token :: string
  code_exit :: "ExitDescriptor \<Rightarrow> bytes"
  code_signed_exit :: "ExitDescriptor Signed \<Rightarrow> bytes"
  code_exit_list :: "ExitList \<Rightarrow> bytes"
  code_bridge :: "BridgeDescriptor \<Rightarrow> bytes"
  city_table :: "(string \<times> (string \<times> string) list) list"
  debug_token :: "bytes \<Rightarrow> string"

definition level_sk :: "('h, 's) broker_env \<Rightarrow> AccountLevel \<Rightarrow> 'h SecretKey" where
  "level_sk env lvl = (case lvl of Free \<Rightarrow> free_sk env | Plus \<Rightarrow> plus_sk env)"

section \<open>Tokens\<close>

definition get_mizaru_subkey :: "('h, 's) broker_env \<Rightarrow> AccountLevel \<Rightarrow> u16 \<Rightarrow> bytes option" where
  "get_mizaru_subkey env lvl ep =
     map_option (public_der (mz_brs env)) (get_subkey (level_sk env lvl) ep)"

definition get_auth_token ::
    "('h, 's) broker_env \<Rightarrow> (nat \<Rightarrow> bool) \<Rightarrow> nat \<Rightarrow> string \<Rightarrow> Credential \<Rightarrow> broker
       \<Rightarrow> (AuthError + string) \<times> broker" where
  "get_auth_token env q now token cred st =
     (case validate_credential (env_fns env) (q 0) now cred st of
        (Inl e, st1) \<Rightarrow> (Inl e, st1)
      | (Inr uid, st1) \<Rightarrow>
          (case new_auth_token (q 1) token uid st1 of
             (Inl _, st2) \<Rightarrow> (Inl RateLimited, st2)
           | (Inr t, st2) \<Rightarrow> (Inr t, st2)))"

definition get_connect_token ::
    "('h, 's) broker_env \<Rightarrow> (nat \<Rightarrow> bool) \<Rightarrow> nat \<Rightarrow> string \<Rightarrow> AccountLevel \<Rightarrow> u16 \<Rightarrow> bytes \<Rightarrow> broker
       \<Rightarrow> ((AuthError + 'h BlindedSignature) \<times> broker) option" where
  "get_connect_token env q now auth_token lvl ep blind_token st =
     (case valid_auth_token q now auth_token st of
        (Inl _, st1) \<Rightarrow> Some (Inl RateLimited, st1)
      | (Inr None, st1) \<Rightarrow> Some (Inl Forbidden, st1)
      | (Inr (Some (_, user_level)), st1) \<Rightarrow>
          if lvl = Plus \<and> user_level \<noteq> lvl then Some (Inl WrongLevel, st1)
          else map_option (\<lambda>signed. (Inr signed, st1))
                 (blind_sign (mz_brs env) (level_sk env lvl) ep blind_token))"

definition rpc_get_user_info ::
    "(nat \<Rightarrow> bool) \<Rightarrow> nat \<Rightarrow> string \<Rightarrow> broker \<Rightarrow> (AuthError + UserInfo option) \<times> broker" where
  "rpc_get_user_info q now auth_token st =
     (case valid_auth_token q now auth_token st of
        (Inr (Some (uid, _)), st1) \<Rightarrow> get_user_info (\<lambda>i. q (i + 4)) now uid st1
      | (Inr None, st1) \<Rightarrow> (Inr None, st1)
      | (Inl _, st1) \<Rightarrow> (Inl RateLimited, st1))"

definition get_user_info_by_cred ::
    "('h, 's) broker_env \<Rightarrow> (nat \<Rightarrow> bool) \<Rightarrow> nat \<Rightarrow> Credential \<Rightarrow> broker
       \<Rightarrow> (AuthError + UserInfo option) \<times> broker" where
  "get_user_info_by_cred env q now cred st =
     (case validate_credential (env_fns env) (q 0) now cred st of
        (Inl Forbidden, st1) \<Rightarrow> (Inr None, st1)
      | (Inl e, st1) \<Rightarrow> (Inl e, st1)
      | (Inr uid, st1) \<Rightarrow> get_user_info (\<lambda>i. q (Suc i)) now uid st1)"

section \<open>Exits\<close>

definition exit_of_row :: "ExitRow \<Rightarrow> bytes \<times> ExitDescriptor" where
  "exit_of_row row =
     (row_pubkey row,
      \<lparr>c2e_listen = row_c2e row, b2e_listen = row_b2e row, country = row_country row,
       city = row_city row, load = row_load row, expiry = as_u64 (row_expiry row)\<rparr>)"

definition get_all_exits ::
    "('h, 's) broker_env \<Rightarrow> bool \<Rightarrow> nat \<Rightarrow> broker \<Rightarrow> (string + ExitList) \<times> broker" where
  "get_all_exits env q now st =
     (let fresh = if q then Inr \<lparr>all_exits = map exit_of_row (exits_new st), city_names = city_table env\<rparr>
                  else Inl ''database error'';
          (r, c) = cache_fetch False 10000 now () fresh (exit_cache st)
      in (r, st\<lparr>exit_cache := c\<rparr>))"

definition is_plus_exit :: "ExitDescriptor \<Rightarrow> bool" where
  "is_plus_exit e \<longleftrightarrow> country e \<notin> {''CA'', ''NL'', ''FR'', ''PL'', ''DE''}"

definition sign_exits :: "('h, 's) broker_env \<Rightarrow> ExitList \<Rightarrow> ExitList Signed" where
  "sign_exits env l =
     signed_new (env_pc env) (code_exit_list env) l DOMAIN_EXIT_DESCRIPTOR (master_secret env)"

definition get_exits ::
    "('h, 's) broker_env \<Rightarrow> bool \<Rightarrow> nat \<Rightarrow> broker \<Rightarrow> (string + ExitList Signed) \<times> broker" where
  "get_exits env q now st =
     (let (r, st1) = get_all_exits env q now st in (map_sum id (sign_exits env) r, st1))"

definition get_free_exits ::
    "('h, 's) broker_env \<Rightarrow> bool \<Rightarrow> nat \<Rightarrow> broker \<Rightarrow> (string + ExitList Signed) \<times> broker" where
  "get_free_exits env q now st =
     (let (r, st1) = get_all_exits env q now st
      in (map_sum id (\<lambda>l. sign_exits env
            (l\<lparr>all_exits := filter (\<lambda>(_, e). \<not> is_plus_exit e) (all_exits l)\<rparr>)) r, st1))"

text \<open>\<open>insert_exit\<close>: the MAC under the exit token, the exit's own signature, then the expiry.\<close>

definition insert_exit ::
    "('h, 's) broker_env \<Rightarrow> bool \<Rightarrow> nat \<Rightarrow> ExitDescriptor Signed Mac \<Rightarrow> broker \<Rightarrow> (string + unit) \<times> broker" where
  "insert_exit env q now m st =
     (case mac_verify (env_pc env) (code_signed_exit env) m
             (b3_hash (env_pc env) (text_bytes (exit_token env))) of
        Inl e \<Rightarrow> (Inl e, st)
      | Inr s \<Rightarrow>
          (case signed_verify (env_pc env) (code_exit env) s DOMAIN_EXIT_DESCRIPTOR (\<lambda>_. True) of
             Inl e \<Rightarrow> (Inl e, st)
           | Inr d \<Rightarrow>
               (let secs = now div 1000
                in if expiry d < secs
                   then (Inl ''Exit info timestamp is before current time (potential replay attack)'', st)
                   else if \<not> q then (Inl ''database error'', st)
                   else (Inr (), db_insert_exit
                     \<lparr>row_pubkey = pubkey s, row_c2e = c2e_listen d, row_b2e = b2e_listen d,
                      row_country = country d, row_city = city d, row_load = load d,
                      row_expiry = int (secs + 10)\<rparr> st))))"

definition insert_bridge ::
    "('h, 's) broker_env \<Rightarrow> bool \<Rightarrow> BridgeDescriptor Mac \<Rightarrow> broker \<Rightarrow> (string + unit) \<times> broker" where
  "insert_bridge env q m st =
     (case mac_verify (env_pc env) (code_bridge env) m
             (b3_hash (env_pc env) (text_bytes (bridge_token env))) of
        Inl e \<Rightarrow> (Inl e, st)
      | Inr d \<Rightarrow> if q then (Inr (), db_insert_bridge d st) else (Inl ''database error'', st))"

section \<open>Routes\<close>

datatype ObfsProtocol =
    Obfs_Sosistab3 string
  | Obfs_None
  | Obfs_ConnTest ObfsProtocol
  | Obfs_PlainTls ObfsProtocol
  | Obfs_Sosistab3New string ObfsProtocol

fun protocol_to_descriptor :: "ObfsProtocol \<Rightarrow> sock_addr \<Rightarrow> RouteDescriptor" where
  "protocol_to_descriptor (Obfs_Sosistab3 cookie) addr = Sosistab3 cookie (Tcp addr)"
| "protocol_to_descriptor Obfs_None addr = Tcp addr"
| "protocol_to_descriptor (Obfs_ConnTest p) addr = ConnTest 1 (protocol_to_descriptor p addr)"
| "protocol_to_descriptor (Obfs_PlainTls p) addr =
     PlainTls (Some ''labooyah-squish.be'') (protocol_to_descriptor p addr)"
| "protocol_to_descriptor (Obfs_Sosistab3New cookie p) addr =
     Sosistab3 cookie (protocol_to_descriptor p addr)"

text \<open>\<open>fwd\<close>: the answer of the bridge's \<open>tcp_forward\<close>, with a timeout as an error.\<close>

type_synonym forwarder = "BridgeDescriptor \<Rightarrow> sock_addr \<Rightarrow> ObfsProtocol \<Rightarrow> string + sock_addr"

definition bridge_to_leaf_route_inner ::
    "forwarder \<Rightarrow> BridgeDescriptor \<Rightarrow> sock_addr \<Rightarrow> ObfsProtocol \<Rightarrow> string + RouteDescriptor" where
  "bridge_to_leaf_route_inner fwd bridge exit_b2e protocol =
     map_sum id (protocol_to_descriptor protocol) (fwd bridge exit_b2e protocol)"

fun contains_sub :: "string \<Rightarrow> string \<Rightarrow> bool" where
  "contains_sub pat [] \<longleftrightarrow> pat = []"
| "contains_sub pat (c # cs) \<longleftrightarrow> take (length pat) (c # cs) = pat \<or> contains_sub pat cs"

definition leaf_route ::
    "forwarder \<Rightarrow> string \<Rightarrow> BridgeDescriptor \<Rightarrow> nat \<Rightarrow> sock_addr \<Rightarrow> string + RouteDescriptor" where
  "leaf_route fwd cookie bridge delay_ms exit_b2e =
     (if contains_sub ''waw'' (pool bridge) then
        map_sum id (Delay delay_ms)
          (bridge_to_leaf_route_inner fwd bridge exit_b2e
             (Obfs_ConnTest (Obfs_Sosistab3New cookie (Obfs_PlainTls Obfs_None))))
      else if contains_sub ''rbxa'' (pool bridge) then
        map_sum id (Delay delay_ms)
          (bridge_to_leaf_route_inner fwd bridge exit_b2e (Obfs_ConnTest Obfs_None))
      else
        result_bind (bridge_to_leaf_route_inner fwd bridge exit_b2e
            (Obfs_ConnTest (Obfs_Sosistab3New cookie Obfs_None))) (\<lambda>plain_route.
        result_bind (bridge_to_leaf_route_inner fwd bridge exit_b2e Obfs_None) (\<lambda>legacy_route.
          Inr (Delay delay_ms (Fallback [plain_route, legacy_route])))))"

text \<open>The cache holds results, errors included, under the bridge without its expiry and the exit.\<close>

definition bridge_to_leaf_route ::
    "forwarder \<Rightarrow> string \<Rightarrow> nat \<Rightarrow> BridgeDescriptor \<Rightarrow> nat \<Rightarrow> sock_addr \<Rightarrow> broker
       \<Rightarrow> (string + RouteDescriptor) \<times> broker" where
  "bridge_to_leaf_route fwd cookie now bridge delay_ms exit_b2e st =
     (let b = bridge\<lparr>br_expiry := 0\<rparr>;
          fresh = Inr (leaf_route fwd cookie b delay_ms exit_b2e);
          (r, c) = cache_fetch False 600000 now (b, exit_b2e) fresh (route_cache st)
      in (case r of Inl (e :: unit) \<Rightarrow> Inl ''unreachable'' | Inr x \<Rightarrow> x, st\<lparr>route_cache := c\<rparr>))"

fun all_routes ::
    "forwarder \<Rightarrow> (nat \<Rightarrow> string) \<Rightarrow> nat \<Rightarrow> sock_addr \<Rightarrow> (BridgeDescriptor \<times> nat \<times> bool) list \<Rightarrow> broker
       \<Rightarrow> RouteDescriptor list \<times> broker" where
  "all_routes fwd cookies now exit [] st = ([], st)"
| "all_routes fwd cookies now exit ((desc, delay_ms, _) # ds) st =
     (let (r, st1) = bridge_to_leaf_route fwd (cookies (length ds)) now desc delay_ms exit st;
          (rs, st2) = all_routes fwd cookies now exit ds st1
      in (case r of Inl _ \<Rightarrow> rs | Inr route \<Rightarrow> route # rs, st2))"

text \<open>The level a token is good for: Plus is tried first; None is a panic of the verifier.\<close>

definition token_level ::
    "('h, 's) broker_env \<Rightarrow> bytes \<Rightarrow> 'h UnblindedSignature \<Rightarrow> (string + AccountLevel) option" where
  "token_level env token sig =
     Option.bind (to_public_key (plus_sk env)) (\<lambda>plus_pk.
     Option.bind (blind_verify (mz_hash env) (mz_khash env) (mz_brs env) plus_pk token sig) (\<lambda>r.
       case r of
         Inr _ \<Rightarrow> Some (Inr Plus)
       | Inl _ \<Rightarrow>
           Option.bind (to_public_key (free_sk env)) (\<lambda>free_pk.
             map_option (map_sum id (\<lambda>_. Free))
               (blind_verify (mz_hash env) (mz_khash env) (mz_brs env) free_pk token sig))))"

definition get_routes ::
    "('h, 's) broker_env \<Rightarrow> bool \<Rightarrow> forwarder \<Rightarrow> (nat \<Rightarrow> string) \<Rightarrow> nat \<Rightarrow> bytes \<Rightarrow> 'h UnblindedSignature
       \<Rightarrow> sock_addr \<Rightarrow> broker \<Rightarrow> ((string + RouteDescriptor) \<times> broker) option" where
  "get_routes env q fwd cookies now token sig exit st =
     Option.bind (token_level env token sig) (\<lambda>lvl.
       case lvl of
         Inl e \<Rightarrow> Some (Inl e, st)
       | Inr account_level \<Rightarrow>
           (case query_bridges (env_fns env) q now (debug_token env token) st of
              (Inl e, st1) \<Rightarrow> Some (Inl e, st1)
            | (Inr raw, st1) \<Rightarrow>
                let ds = if account_level = Free then filter (\<lambda>(_, _, is_plus). \<not> is_plus) raw else raw;
                    (routes, st2) = all_routes fwd cookies now exit ds st1
                in Some (Inr (Race routes), st2)))"

section \<open>Accounts and payments\<close>

definition register_user_secret ::
    "('h, 's) broker_env \<Rightarrow> (nat \<Rightarrow> bool) \<Rightarrow> nat \<Rightarrow> nat list \<Rightarrow> string \<Rightarrow> string \<Rightarrow> broker
       \<Rightarrow> (string + string) \<times> broker" where
  "register_user_secret env q now digits puzzle solution st =
     (case verify_puzzle_solution (env_fns env) (q 0) puzzle solution st of
        (Inl e, st1) \<Rightarrow> (Inl e, st1)
      | (Inr _, st1) \<Rightarrow> register_secret (env_fns env) (\<lambda>i. q (Suc i)) now digits None st1)"

definition upgrade_to_secret ::
    "('h, 's) broker_env \<Rightarrow> (nat \<Rightarrow> bool) \<Rightarrow> nat \<Rightarrow> nat list \<Rightarrow> Credential \<Rightarrow> broker
       \<Rightarrow> (AuthError + string) \<times> broker" where
  "upgrade_to_secret env q now digits cred st =
     (case validate_credential (env_fns env) (q 0) now cred st of
        (Inl e, st1) \<Rightarrow> (Inl e, st1)
      | (Inr uid, st1) \<Rightarrow>
          (case register_secret (env_fns env) (\<lambda>i. q (Suc i)) now digits (Some uid) st1 of
             (Inl _, st2) \<Rightarrow> (Inl RateLimited, st2)
           | (Inr s, st2) \<Rightarrow> (Inr s, st2)))"

definition raw_price_points :: "(nat \<times> nat) list" where
  "raw_price_points = [(30, 500), (90, 1500), (365, 5475), (730, 10342)]"

definition payment_methods :: "string list" where
  "payment_methods = [''credit-card'', ''wechat'']"

definition auth_error_text :: "AuthError \<Rightarrow> string" where
  "auth_error_text e =
     (case e of RateLimited \<Rightarrow> ''rate limited'' | Forbidden \<Rightarrow> ''incorrect credentials''
      | WrongLevel \<Rightarrow> ''wrong level'')"

definition create_payment ::
    "('h, 's) broker_env \<Rightarrow> bool \<Rightarrow> nat \<Rightarrow> string \<Rightarrow> nat \<Rightarrow> string \<Rightarrow> broker \<Rightarrow> (string + string) \<times> broker" where
  "create_payment env q now secret days meth st =
     (case validate_credential (env_fns env) q now (Secret secret) st of
        (Inl e, st1) \<Rightarrow> (Inl (auth_error_text e), st1)
      | (Inr uid, st1) \<Rightarrow>
          (case start_session (env_fns env) uid of
             Inl e \<Rightarrow> (Inl e, st1)
           | Inr sessid \<Rightarrow>
               (if meth = ''credit-card'' then start_stripe_url (env_fns env) sessid days True
                else if meth = ''wechat'' then start_aliwechat (env_fns env) sessid days ''wxpay''
                else if meth = ''alipay'' then start_aliwechat (env_fns env) sessid days ''alipay''
                else Inl ''no support for this method here'', st1)))"

definition get_free_voucher ::
    "('h, 's) broker_env \<Rightarrow> (nat \<Rightarrow> bool) \<Rightarrow> nat \<Rightarrow> string \<Rightarrow> broker
       \<Rightarrow> (string + VoucherInfo option) \<times> broker" where
  "get_free_voucher env q now secret st =
     (case validate_credential (env_fns env) (q 0) now (Secret secret) st of
        (Inl e, st1) \<Rightarrow> (Inl (auth_error_text e), st1)
      | (Inr uid, st1) \<Rightarrow> (db_get_free_voucher (env_fns env) (q 1) uid st1, st1))"

definition redeem_voucher ::
    "('h, 's) broker_env \<Rightarrow> (nat \<Rightarrow> bool) \<Rightarrow> nat \<Rightarrow> string \<Rightarrow> string \<Rightarrow> broker \<Rightarrow> (string + int) \<times> broker" where
  "redeem_voucher env q now secret vcode st =
     (case validate_credential (env_fns env) (q 0) now (Secret secret) st of
        (Inl e, st1) \<Rightarrow> (Inl (auth_error_text e), st1)
      | (Inr uid, st1) \<Rightarrow>
          (case start_session (env_fns env) uid of
             Inl e \<Rightarrow> (Inl e, st1)
           | Inr sessid \<Rightarrow>
               (case spend_giftcard (env_fns env) sessid vcode of
                  Inl e \<Rightarrow> (Inl (''Failed to redeem voucher: '' @ e), st1)
                | Inr days \<Rightarrow>
                    (case delete_free_voucher (q 1) uid st1 of
                       (Inl e, st2) \<Rightarrow> (Inl e, st2)
                     | (Inr _, st2) \<Rightarrow> (Inr days, st2)))))"

section \<open>Invariant of the database\<close>

text \<open>
  Keys are unique: an exit per public key, a bridge per address, at most one secret per user,
  each puzzle once, and the sequence of user ids is ahead of all users.
\<close>

definition db_ok :: "broker \<Rightarrow> bool" where
  "db_ok st \<longleftrightarrow>
     distinct (map row_pubkey (exits_new st)) \<and> distinct (map bn_listen (bridges_new st)) \<and>
     distinct (map fst (auth_secret st)) \<and> distinct (used_puzzles st) \<and>
     (\<forall>u \<in> set (users st). u < user_seq st) \<and> distinct (users st)"

text \<open>A step of the broker: a handler that changes the state, or a turn of the collector.\<close>

inductive broker_step :: "('h, 's) broker_env \<Rightarrow> broker \<Rightarrow> broker \<Rightarrow> bool" for env where
  step_auth: "get_auth_token env q now t cred st = (r, st') \<Longrightarrow> broker_step env st st'"
| step_connect: "get_connect_token env q now t lvl ep bt st = Some (r, st') \<Longrightarrow> broker_step env st st'"
| step_info: "rpc_get_user_info q now t st = (ri, st') \<Longrightarrow> broker_step env st st'"
| step_info_cred: "get_user_info_by_cred env q now cred st = (ri, st') \<Longrightarrow> broker_step env st st'"
| step_exits: "get_exits env b now st = (rx, st') \<Longrightarrow> broker_step env st st'"
| step_free_exits: "get_free_exits env b now st = (rx, st') \<Longrightarrow> broker_step env st st'"
| step_insert_exit: "insert_exit env b now m st = (ru, st') \<Longrightarrow> broker_step env st st'"
| step_insert_bridge: "insert_bridge env b mb st = (ru, st') \<Longrightarrow> broker_step env st st'"
| step_routes: "get_routes env b fwd cks now tk sig ex st = Some (rr, st') \<Longrightarrow> broker_step env st st'"
| step_register: "register_user_secret env q now ds pz sol st = (rs, st') \<Longrightarrow> broker_step env st st'"
| step_upgrade: "upgrade_to_secret env q now ds cred st = (ra, st') \<Longrightarrow> broker_step env st st'"
| step_payment: "create_payment env b now sec dys me st = (rs, st') \<Longrightarrow> broker_step env st st'"
| step_voucher: "get_free_voucher env q now sec st = (rv, st') \<Longrightarrow> broker_step env st st'"
| step_redeem: "redeem_voucher env q now sec vc st = (rd, st') \<Longrightarrow> broker_step env st st'"
| step_vouchers: "create_one_day_vouchers_for_all_users (env_fns env) gift now st = (rn, st')
    \<Longrightarrow> broker_step env st st'"
| step_gc: "database_gc q now st = (ru, st') \<Longrightarrow> broker_step env st st'"

text \<open>
  What most handlers leave alone: all tables with keys. Handlers that only touch caches, logins,
  tokens or vouchers keep this part of the state.
\<close>

definition keyed :: "broker \<Rightarrow> ExitRow list \<times> string list \<times> (int \<times> string) list \<times> string list \<times> int list \<times> int" where
  "keyed st = (exits_new st, map bn_listen (bridges_new st), auth_secret st, used_puzzles st, users st, user_seq st)"

lemma db_ok_keyed: "keyed st' = keyed st \<Longrightarrow> db_ok st' = db_ok st"
  by (simp add: keyed_def db_ok_def)

named_theorems keyed_simps \<open>operations that keep the keyed tables\<close>

lemma keyed_update [keyed_simps]:
  "keyed (st\<lparr>cred_cache := c1\<rparr>) = keyed st" "keyed (st\<lparr>token_cache := c2\<rparr>) = keyed st"
  "keyed (st\<lparr>ts_cache := c3\<rparr>) = keyed st" "keyed (st\<lparr>sub_cache := c4\<rparr>) = keyed st"
  "keyed (st\<lparr>exit_cache := c5\<rparr>) = keyed st" "keyed (st\<lparr>route_cache := c6\<rparr>) = keyed st"
  "keyed (st\<lparr>auth_tokens := c7\<rparr>) = keyed st" "keyed (st\<lparr>last_login := c8\<rparr>) = keyed st"
  "keyed (st\<lparr>free_vouchers := c9\<rparr>) = keyed st"
  by (simp_all add: keyed_def)

lemma keyed_credential:
  "validate_credential fns q now cred st = (r, st') \<Longrightarrow> keyed st' = keyed st"
  by (auto simp: validate_credential_def keyed_simps split: prod.splits)

lemma keyed_subscription:
  "get_subscription_expiry q now uid st = (r, st') \<Longrightarrow> keyed st' = keyed st"
  by (auto simp: get_subscription_expiry_def Let_def keyed_simps split: prod.splits sum.splits)

lemma keyed_token: "get_user_id_from_token q now t st = (r, st') \<Longrightarrow> keyed st' = keyed st"
  by (auto simp: get_user_id_from_token_def Let_def keyed_simps split: prod.splits)

lemma keyed_record_auth [keyed_simps]: "keyed (record_auth q now uid st) = keyed st"
  by (simp add: record_auth_def keyed_simps)

lemma keyed_valid_auth_token:
  assumes "valid_auth_token q now t st = (r, st')"
  shows "keyed st' = keyed st"
proof -
  obtain r1 st1 where g: "get_user_id_from_token (q 0) now t st = (r1, st1)" by fastforce
  show ?thesis
  proof (cases "\<exists>uid. r1 = Inr (Some uid)")
    case True
    then obtain uid where uid: "r1 = Inr (Some uid)" by blast
    obtain r2 st2 where s: "get_subscription_expiry (\<lambda>i. q (Suc i)) now uid st1 = (r2, st2)" by fastforce
    have "st' = st2 \<or> st' = record_auth (q 3) now uid st2"
      using assms by (cases r2) (auto simp: valid_auth_token_def g uid s)
    with keyed_subscription [OF s] keyed_token [OF g] show ?thesis by (auto simp: keyed_simps)
  next
    case False
    then have "st' = st1"
      using assms by (auto simp: valid_auth_token_def g split: sum.splits option.splits)
    with keyed_token [OF g] show ?thesis by simp
  qed
qed

lemma keyed_get_user_info: "get_user_info q now uid st = (r, st') \<Longrightarrow> keyed st' = keyed st"
  using keyed_subscription [of q now uid st] by (auto simp: get_user_info_def split: prod.splits sum.splits)

lemma keyed_get_all_exits: "get_all_exits env b now st = (r, st') \<Longrightarrow> keyed st' = keyed st"
  by (auto simp: get_all_exits_def Let_def keyed_simps split: prod.splits)

lemma keyed_query_bridges: "query_bridges fns q now key st = (r, st') \<Longrightarrow> keyed st' = keyed st"
  by (auto simp: query_bridges_def Let_def keyed_def split: prod.splits if_splits)

lemma keyed_leaf_route: "bridge_to_leaf_route fwd ck now b d ex st = (r, st') \<Longrightarrow> keyed st' = keyed st"
  by (auto simp: bridge_to_leaf_route_def Let_def keyed_simps split: prod.splits)

lemma keyed_all_routes: "all_routes fwd cks now ex ds st = (rs, st') \<Longrightarrow> keyed st' = keyed st"
proof (induction ds arbitrary: st rs)
  case Nil
  then show ?case by simp
next
  case (Cons a ds)
  obtain d ms p where a: "a = (d, ms, p)" by (cases a) auto
  obtain r st1 where r: "bridge_to_leaf_route fwd (cks (length ds)) now d ms ex st = (r, st1)" by fastforce
  obtain rs1 where "all_routes fwd cks now ex ds st1 = (rs1, st')"
    using Cons.prems by (auto simp: a r split: prod.splits)
  with Cons.IH keyed_leaf_route [OF r] show ?case by simp
qed

lemma keyed_create_vouchers:
  "create_vouchers fns gift now uids n st = (r, st') \<Longrightarrow> keyed st' = keyed st"
proof (induction uids arbitrary: n st)
  case Nil
  then show ?case by simp
next
  case (Cons uid uids)
  then show ?case by (auto simp: keyed_simps split: if_splits sum.splits)
qed

text \<open>The operations that change keyed tables.\<close>

lemma set_upsert_keys: "set (map key (upsert key r xs)) = insert (key r) (set (map key xs))"
  by (induction xs) auto

lemma distinct_upsert: "distinct (map key xs) \<Longrightarrow> distinct (map key (upsert key r xs))"
proof (induction xs)
  case Nil
  then show ?case by simp
next
  case (Cons x xs)
  then show ?case using set_upsert_keys [of key r xs] by auto
qed

lemma db_ok_register:
  assumes "register_secret fns q now ds uid st = (r, st')" and "db_ok st"
  shows "db_ok st'"
proof (cases uid)
  case None
  have "user_seq st \<notin> set (users st)" using assms(2) by (auto simp: db_ok_def)
  with assms None show ?thesis
    by (fastforce simp: register_secret_def db_ok_def Let_def map_of_eq_None_iff
        split: if_splits option.splits sum.splits)
next
  case (Some u)
  with assms show ?thesis
    by (fastforce simp: register_secret_def db_ok_def Let_def map_of_eq_None_iff
        split: if_splits option.splits sum.splits)
qed

lemma db_ok_puzzle:
  "verify_puzzle_solution fns q pz sol st = (r, st') \<Longrightarrow> db_ok st \<Longrightarrow> db_ok st'"
  by (auto simp: verify_puzzle_solution_def db_ok_def split: sum.splits if_splits)

lemma db_ok_insert_exit: "db_ok st \<Longrightarrow> db_ok (db_insert_exit row st)"
  by (simp add: db_ok_def db_insert_exit_def distinct_upsert)

lemma db_ok_insert_bridge: "db_ok st \<Longrightarrow> db_ok (db_insert_bridge d st)"
  by (simp add: db_ok_def db_insert_bridge_def distinct_upsert Let_def)

lemma db_ok_gc: "database_gc q now st = (r, st') \<Longrightarrow> db_ok st \<Longrightarrow> db_ok st'"
  by (auto simp: database_gc_def gc_exits_def gc_bridges_def db_ok_def Let_def distinct_map_filter
      split: if_splits)

text \<open>The handlers, one by one.\<close>

lemma keyed_get_auth_token:
  assumes "get_auth_token env q now t cred st = (r, st')"
  shows "keyed st' = keyed st"
proof -
  obtain r1 st1 where v: "validate_credential (env_fns env) (q 0) now cred st = (r1, st1)" by fastforce
  have "keyed st' = keyed st1"
    using assms by (auto simp: get_auth_token_def v new_auth_token_def keyed_simps split: sum.splits if_splits)
  with keyed_credential [OF v] show ?thesis by simp
qed

lemma keyed_get_connect_token:
  assumes "get_connect_token env q now t lvl ep bt st = Some (r, st')"
  shows "keyed st' = keyed st"
proof -
  obtain r1 st1 where v: "valid_auth_token q now t st = (r1, st1)" by fastforce
  have "st' = st1"
    using assms by (auto simp: get_connect_token_def v split: sum.splits if_splits option.splits)
  with keyed_valid_auth_token [OF v] show ?thesis by simp
qed

lemma keyed_rpc_get_user_info:
  assumes "rpc_get_user_info q now t st = (r, st')"
  shows "keyed st' = keyed st"
proof -
  obtain r1 st1 where v: "valid_auth_token q now t st = (r1, st1)" by fastforce
  have "keyed st' = keyed st1"
    using assms keyed_get_user_info
    by (fastforce simp: rpc_get_user_info_def v split: sum.splits option.splits)
  with keyed_valid_auth_token [OF v] show ?thesis by simp
qed

lemma keyed_get_user_info_by_cred:
  assumes "get_user_info_by_cred env q now cred st = (r, st')"
  shows "keyed st' = keyed st"
proof -
  obtain r1 st1 where v: "validate_credential (env_fns env) (q 0) now cred st = (r1, st1)" by fastforce
  have "keyed st' = keyed st1"
    using assms keyed_get_user_info
    by (fastforce simp: get_user_info_by_cred_def v split: sum.splits AuthError.splits)
  with keyed_credential [OF v] show ?thesis by simp
qed

lemma keyed_get_routes:
  assumes "get_routes env b fwd cks now tk sig ex st = Some (r, st')"
  shows "keyed st' = keyed st"
proof -
  obtain r1 st1 where v: "query_bridges (env_fns env) b now (debug_token env tk) st = (r1, st1)" by fastforce
  obtain lvl where l: "token_level env tk sig = Some lvl"
    using assms by (auto simp: get_routes_def bind_eq_Some_conv)
  show ?thesis
  proof (cases "\<exists>a raw. lvl = Inr a \<and> r1 = Inr raw")
    case True
    then obtain a raw where a: "lvl = Inr a" "r1 = Inr raw" by blast
    let ?ds = "if a = Free then filter (\<lambda>(_, _, is_plus). \<not> is_plus) raw else raw"
    obtain rs st2 where d: "all_routes fwd cks now ex ?ds st1 = (rs, st2)" by fastforce
    have "st' = st2" using assms unfolding get_routes_def Let_def v l a by (simp add: d)
    with keyed_all_routes [OF d] keyed_query_bridges [OF v] show ?thesis by simp
  next
    case False
    then have "st' = st \<or> st' = st1"
      using assms by (cases lvl; cases r1) (auto simp: get_routes_def v l)
    with keyed_query_bridges [OF v] show ?thesis by auto
  qed
qed

lemma keyed_create_payment:
  assumes "create_payment env b now sec dys me st = (r, st')"
  shows "keyed st' = keyed st"
proof -
  obtain r1 st1 where v: "validate_credential (env_fns env) b now (Secret sec) st = (r1, st1)" by fastforce
  have "st' = st1"
    using assms by (auto simp: create_payment_def v split: sum.splits)
  with keyed_credential [OF v] show ?thesis by simp
qed

lemma keyed_get_free_voucher:
  assumes "get_free_voucher env q now sec st = (r, st')"
  shows "keyed st' = keyed st"
proof -
  obtain r1 st1 where v: "validate_credential (env_fns env) (q 0) now (Secret sec) st = (r1, st1)" by fastforce
  have "st' = st1"
    using assms by (auto simp: get_free_voucher_def v split: sum.splits)
  with keyed_credential [OF v] show ?thesis by simp
qed

lemma keyed_redeem_voucher:
  assumes "redeem_voucher env q now sec vc st = (r, st')"
  shows "keyed st' = keyed st"
proof -
  obtain r1 st1 where v: "validate_credential (env_fns env) (q 0) now (Secret sec) st = (r1, st1)" by fastforce
  have "keyed st' = keyed st1"
    using assms
    by (auto simp: redeem_voucher_def v delete_free_voucher_def keyed_simps split: sum.splits if_splits)
  with keyed_credential [OF v] show ?thesis by simp
qed

lemmas keyed_handlers = keyed_get_auth_token keyed_get_connect_token keyed_rpc_get_user_info
  keyed_get_user_info_by_cred keyed_get_routes keyed_create_payment keyed_get_free_voucher
  keyed_redeem_voucher

lemma broker_step_ok:
  assumes "broker_step env st st'" and ok: "db_ok st"
  shows "db_ok st'"
  using assms(1)
proof cases
  case (step_exits b now rx)
  then show ?thesis
    using keyed_get_all_exits [of env b now st] ok db_ok_keyed [of st' st]
    by (auto simp: get_exits_def split: prod.splits)
next
  case (step_free_exits b now rx)
  then show ?thesis
    using keyed_get_all_exits [of env b now st] ok db_ok_keyed [of st' st]
    by (auto simp: get_free_exits_def split: prod.splits)
next
  case (step_insert_exit b now m ru)
  then show ?thesis
    using ok by (auto simp: insert_exit_def Let_def db_ok_insert_exit split: sum.splits if_splits)
next
  case (step_insert_bridge b mb ru)
  then show ?thesis
    using ok by (auto simp: insert_bridge_def db_ok_insert_bridge split: sum.splits if_splits)
next
  case (step_register q now ds pz sol rs)
  obtain r1 st1 where v: "verify_puzzle_solution (env_fns env) (q 0) pz sol st = (r1, st1)" by fastforce
  note ok1 = db_ok_puzzle [OF v ok]
  show ?thesis
    using step_register ok1 db_ok_register [of "env_fns env" "\<lambda>i. q (Suc i)" now ds None st1]
    by (auto simp: register_user_secret_def v split: sum.splits)
next
  case (step_upgrade q now ds cred ra)
  obtain r1 st1 where v: "validate_credential (env_fns env) (q 0) now cred st = (r1, st1)" by fastforce
  have ok1: "db_ok st1" using db_ok_keyed [OF keyed_credential [OF v]] ok by simp
  show ?thesis
    using step_upgrade ok1 db_ok_register [of "env_fns env" "\<lambda>i. q (Suc i)" now ds _ st1]
    by (auto simp: upgrade_to_secret_def v split: sum.splits prod.splits)
next
  case (step_vouchers gift now rn)
  then show ?thesis
    using keyed_create_vouchers db_ok_keyed [of st' st] ok
    by (fastforce simp: create_one_day_vouchers_for_all_users_def)
next
  case (step_gc q now ru)
  then show ?thesis using db_ok_gc ok by blast
qed (use ok keyed_handlers in \<open>metis db_ok_keyed\<close>)+

interpretation broker_sys: invariant_system db_ok "broker_step env" db_ok
  by unfold_locales (auto intro: broker_step_ok)

section \<open>Properties\<close>

definition empty_broker :: broker where
  "empty_broker =
     \<lparr>user_seq = 1, users = [], auth_secret = [], auth_password = Map.empty, auth_tokens = [],
      subscriptions = [], recurring_subs = [], payment_events = [], free_vouchers = [],
      last_login = Map.empty, used_puzzles = [], exits_new = [], bridges_new = [],
      bridge_group_delays = Map.empty, cred_cache = Map.empty, token_cache = Map.empty,
      ts_cache = Map.empty, sub_cache = Map.empty, exit_cache = Map.empty,
      bridge_cache = Map.empty, route_cache = Map.empty\<rparr>"

definition example_fns :: broker_fns where
  "example_fns =
     \<lparr>verify_password = \<lambda>phc p. Some (phc = p), b64_decode = \<lambda>s. Some (text_bytes s),
      proof_parse = Some, proof_verify = \<lambda>pf pz d. pf = text_bytes pz, puzzle_difficulty = 20,
      create_giftcard = \<lambda>d. Inr ''gift'', start_session = \<lambda>u. Inr ''sess'',
      spend_giftcard = \<lambda>s c. Inr 30, start_stripe_url = \<lambda>s d r. Inr ''url'',
      start_aliwechat = \<lambda>s d m. Inr ''url'', parse_description = \<lambda>d. Some [],
      voucher_description = [], digest = size\<rparr>"

definition example_env :: "(sym_hash, unit) broker_env" where
  "example_env =
     \<lparr>env_fns = example_fns, env_pc = plain_proto, mz_hash = Plain_Hash, mz_khash = Keyed_Hash,
      mz_brs = plain_brs, free_sk = generate Plain_Hash Keyed_Hash plain_brs (rev example_keys),
      plus_sk = generate Plain_Hash Keyed_Hash plain_brs example_keys, master_secret = [3],
      exit_token = ''et'', bridge_token = ''bt'', code_exit = \<lambda>d. text_bytes (city d),
      code_signed_exit = \<lambda>s. signature s, code_exit_list = \<lambda>l. [], code_bridge = \<lambda>b. [],
      city_table = [], debug_token = \<lambda>t. []\<rparr>"

lemma empty_broker_ok: "db_ok empty_broker"
  by (simp add: db_ok_def empty_broker_def)


lemma example_register:
  "register_user_secret example_env (\<lambda>_. True) 5 [1, 2] ''p'' ''p'' empty_broker =
     (Inr ''912'', empty_broker\<lparr>used_puzzles := [''p''], user_seq := 2, users := [1],
        auth_secret := [(1, ''912'')],
        free_vouchers := [\<lparr>fv_id = 1, fv_voucher = ''gift'', fv_description = [], fv_visible_after = 5\<rparr>]\<rparr>)"
  by (simp add: register_user_secret_def verify_puzzle_solution_def check_puzzle_solution_def
      register_secret_def new_secret_def next_visible_def empty_broker_def example_env_def
      example_fns_def Let_def)


text \<open>Used puzzles are never forgotten.\<close>

lemma register_secret_used:
  "register_secret fns q now ds uid st = (r, st') \<Longrightarrow> used_puzzles st' = used_puzzles st"
  by (auto simp: register_secret_def Let_def split: if_splits option.splits sum.splits)

lemma broker_step_used:
  assumes "broker_step env st st'"
  shows "set (used_puzzles st) \<subseteq> set (used_puzzles st')"
proof -
  have k: "keyed st' = keyed st \<Longrightarrow> ?thesis" by (simp add: keyed_def)
  from assms show ?thesis
  proof cases
    case (step_exits b now rx)
    then show ?thesis
      using keyed_get_all_exits [of env b now st] k by (auto simp: get_exits_def split: prod.splits)
  next
    case (step_free_exits b now rx)
    then show ?thesis
      using keyed_get_all_exits [of env b now st] k by (auto simp: get_free_exits_def split: prod.splits)
  next
    case (step_insert_exit b now m ru)
    then show ?thesis
      by (auto simp: insert_exit_def Let_def db_insert_exit_def split: sum.splits if_splits)
  next
    case (step_insert_bridge b mb ru)
    then show ?thesis
      by (auto simp: insert_bridge_def db_insert_bridge_def Let_def split: sum.splits if_splits)
  next
    case (step_register q now ds pz sol rs)
    obtain r1 st1 where v: "verify_puzzle_solution (env_fns env) (q 0) pz sol st = (r1, st1)" by fastforce
    then have "set (used_puzzles st) \<subseteq> set (used_puzzles st1)"
      by (auto simp: verify_puzzle_solution_def split: sum.splits if_splits)
    with step_register show ?thesis
      by (auto simp: register_user_secret_def v dest!: register_secret_used split: sum.splits)
  next
    case (step_upgrade q now ds cred ra)
    obtain r1 st1 where v: "validate_credential (env_fns env) (q 0) now cred st = (r1, st1)" by fastforce
    then have "used_puzzles st1 = used_puzzles st" using keyed_credential [OF v] by (simp add: keyed_def)
    with step_upgrade show ?thesis
      by (auto simp: upgrade_to_secret_def v dest!: register_secret_used split: sum.splits prod.splits)
  next
    case (step_vouchers gift now rn)
    then show ?thesis
      using keyed_create_vouchers k by (fastforce simp: create_one_day_vouchers_for_all_users_def)
  next
    case (step_gc q now ru)
    then show ?thesis
      by (auto simp: database_gc_def gc_exits_def gc_bridges_def Let_def split: if_splits)
  qed (use keyed_handlers k in metis)+
qed

text \<open>
  C21: A solved puzzle registers at most one account: once a registration with it has succeeded,
  every later one with the same puzzle, after any further requests, is refused and creates
  neither user nor secret nor voucher.
\<close>

theorem puzzle_single_use:
  assumes "register_user_secret env q now ds puzzle sol st = (Inr secret, st1)"
    and "(broker_step env)\<^sup>*\<^sup>* st1 st2"
  shows "\<exists>e. register_user_secret env q' now' ds' puzzle sol' st2 = (Inl e, st2)"
proof -
  obtain r1 stp where v: "verify_puzzle_solution (env_fns env) (q 0) puzzle sol st = (r1, stp)" by fastforce
  then have "r1 = Inr () \<and> puzzle \<in> set (used_puzzles stp)"
    using assms(1) by (auto simp: register_user_secret_def verify_puzzle_solution_def split: sum.splits if_splits)
  then have "puzzle \<in> set (used_puzzles st1)"
    using assms(1) by (auto simp: register_user_secret_def v dest!: register_secret_used)
  with assms(2) have "puzzle \<in> set (used_puzzles st2)"
    by (induction rule: rtranclp_induct) (use broker_step_used in blast)+
  then show ?thesis
    by (auto simp: register_user_secret_def verify_puzzle_solution_def split: sum.splits)
qed

theorem puzzle_single_use_witness:
  "\<exists>st1 e. register_user_secret example_env (\<lambda>_. True) 5 [1, 2] ''p'' ''p'' empty_broker = (Inr ''912'', st1) \<and>
     register_user_secret example_env (\<lambda>_. True) 9 [3, 4] ''p'' ''p'' st1 = (Inl e, st1)"
proof -
  obtain st1 where a: "register_user_secret example_env (\<lambda>_. True) 5 [1, 2] ''p'' ''p'' empty_broker = (Inr ''912'', st1)"
    using example_register by simp
  from puzzle_single_use [OF a rtranclp.rtrancl_refl, of "\<lambda>_. True" 9 "[3, 4]" "''p''"] a show ?thesis by blast
qed

lemma connect_token_verifies:
  assumes k: "length keys = KEY_COUNT" "\<forall>k \<in> set keys. brs_ok (mz_brs env) k"
      "level_sk env lvl = generate (mz_hash env) (mz_khash env) (mz_brs env) keys"
    and sub: "get_mizaru_subkey env lvl ep = Some subkey"
    and blind: "token_blind (mz_brs env) rnd subkey token = (blinded, secret)"
    and signed: "get_connect_token env q now auth lvl ep blinded st = Some (Inr bsig, st')"
  shows "\<exists>sig root. unblind (mz_brs env) bsig secret token = Inr sig \<and>
     to_public_key (level_sk env lvl) = Some root \<and>
     blind_verify (mz_hash env) (mz_khash env) (mz_brs env) root token sig = Some (Inr ()) \<and>
     length (us_merkle_branch sig) = 16"
proof -
  let ?gen = "generate (mz_hash env) (mz_khash env) (mz_brs env)"
  have sk: "subkey = public_der (mz_brs env) (keys ! unat ep)"
    using sub by (auto simp: get_mizaru_subkey_def k(3) generate_tree(3) [OF k(1)])
  obtain bsig' sig root where r: "blind_sign (mz_brs env) (?gen keys) ep blinded = Some bsig'"
      "unblind (mz_brs env) bsig' secret token = Inr sig" "to_public_key (?gen keys) = Some root"
      "blind_verify (mz_hash env) (mz_khash env) (mz_brs env) root token sig = Some (Inr ())"
      "length (us_merkle_branch sig) = 16"
    using signed_token_verifies [OF k(1,2) blind [unfolded sk], of "mz_hash env" "mz_khash env"] by blast
  have "bsig' = bsig"
    using signed r(1) by (auto simp: get_connect_token_def k(3) split: prod.splits sum.splits option.splits if_splits)
  with r show ?thesis by (auto simp: k(3))
qed

text \<open>
  A connect token works. A token blinded for an epoch, signed by \<open>get_connect_token\<close> at the
  requested level and unblinded by the client is accepted by \<open>get_routes\<close> without a panic, and
  one signed at the Plus level counts as Plus.
\<close>

theorem connect_token_accepted:
  assumes keys: "length fkeys = KEY_COUNT" "length pkeys = KEY_COUNT"
      "\<forall>k \<in> set fkeys \<union> set pkeys. brs_ok (mz_brs env) k"
    and sks: "free_sk env = generate (mz_hash env) (mz_khash env) (mz_brs env) fkeys"
      "plus_sk env = generate (mz_hash env) (mz_khash env) (mz_brs env) pkeys"
    and sub: "get_mizaru_subkey env lvl ep = Some subkey"
    and blind: "token_blind (mz_brs env) rnd subkey token = (blinded, secret)"
    and signed: "get_connect_token env q now auth lvl ep blinded st = Some (Inr bsig, st')"
  shows "\<exists>sig l. unblind (mz_brs env) bsig secret token = Inr sig \<and>
     token_level env token sig = Some (Inr l) \<and> (lvl = Plus \<longrightarrow> l = Plus)"
proof -
  define keys where "keys = (case lvl of Free \<Rightarrow> fkeys | Plus \<Rightarrow> pkeys)"
  have k: "length keys = KEY_COUNT" "\<forall>k \<in> set keys. brs_ok (mz_brs env) k"
      "level_sk env lvl = generate (mz_hash env) (mz_khash env) (mz_brs env) keys"
    using keys sks by (auto simp: keys_def level_sk_def split: AccountLevel.splits)
  from connect_token_verifies [OF k sub blind signed] obtain sig root where
    r: "unblind (mz_brs env) bsig secret token = Inr sig" "to_public_key (level_sk env lvl) = Some root"
      "blind_verify (mz_hash env) (mz_khash env) (mz_brs env) root token sig = Some (Inr ())"
      "length (us_merkle_branch sig) = 16" by blast
  obtain plus_pk free_pk where pks: "to_public_key (plus_sk env) = Some plus_pk"
      "to_public_key (free_sk env) = Some free_pk"
    using generate_tree(1) keys sks by metis
  moreover obtain v where "blind_verify (mz_hash env) (mz_khash env) (mz_brs env) plus_pk token sig = Some v"
    using blind_verify_no_panic [of sig "mz_hash env" "mz_khash env" "mz_brs env" plus_pk token] r(4)
    by auto
  ultimately show ?thesis
    using r(1-3) by (cases lvl; cases v) (auto simp: token_level_def level_sk_def)
qed

definition example_broker :: broker where
  "example_broker =
     empty_broker\<lparr>auth_tokens := [(''tok'', 1)], subscriptions := [(1, 100)], payment_events := [7000]\<rparr>"

lemmas auth_eval = valid_auth_token_def get_user_id_from_token_def get_subscription_expiry_def
  cache_fetch_def cache_hit_def last_payment_def subscription_table_def record_auth_def Let_def

lemma example_token_valid:
  "\<exists>st'. valid_auth_token (\<lambda>_. True) 200000 ''tok'' example_broker = (Inr (Some (1, Plus)), st')"
  by (simp add: auth_eval example_broker_def empty_broker_def)

theorem connect_token_accepted_witness:
  "\<exists>bsig st' sig. get_connect_token example_env (\<lambda>_. True) 200000 ''tok'' Plus 300 [9, 9] example_broker =
       Some (Inr bsig, st') \<and>
     unblind plain_brs bsig () [9, 9] = Inr sig \<and> token_level example_env [9, 9] sig = Some (Inr Plus)"
proof -
  have keys: "length (rev example_keys) = KEY_COUNT"
      "\<forall>k \<in> set (rev example_keys) \<union> set example_keys. brs_ok (mz_brs example_env) k"
    using example_keys_ok by (simp_all add: example_env_def)
  have blind: "token_blind plain_brs 0 (public_der plain_brs (example_keys ! unat (300 :: u16))) [9, 9] = ([9, 9], ())"
    by (simp add: token_blind_def plain_brs_def)
  obtain bsig where s: "blind_sign plain_brs (generate Plain_Hash Keyed_Hash plain_brs example_keys) 300 [9, 9] = Some bsig"
    using signed_token_verifies [OF example_keys_ok blind, of Plain_Hash Keyed_Hash] by blast
  obtain st' where v: "valid_auth_token (\<lambda>_. True) 200000 ''tok'' example_broker = (Inr (Some (1, Plus)), st')"
    using example_token_valid by blast
  have g: "get_connect_token example_env (\<lambda>_. True) 200000 ''tok'' Plus 300 [9, 9] example_broker = Some (Inr bsig, st')"
    using s v by (simp add: get_connect_token_def level_sk_def example_env_def)
  have sub: "get_mizaru_subkey example_env Plus 300 = Some (public_der plain_brs (example_keys ! unat (300 :: u16)))"
    using generate_tree(3) [OF example_keys_ok(1), of Plain_Hash Keyed_Hash plain_brs 300]
    by (simp add: get_mizaru_subkey_def level_sk_def example_env_def)
  have e: "free_sk example_env = generate (mz_hash example_env) (mz_khash example_env) (mz_brs example_env) (rev example_keys)"
      "plus_sk example_env = generate (mz_hash example_env) (mz_khash example_env) (mz_brs example_env) example_keys"
      "mz_brs example_env = plain_brs"
    by (simp_all add: example_env_def)
  from connect_token_accepted [OF keys(1) example_keys_ok(1) keys(2) e(1,2) sub _ g, of 0 "[9, 9]" "()"] blind
  show ?thesis using g by (auto simp: e(3))
qed

text \<open>
  Whether a user counts as Plus does not depend on when the subscription expires: a user with
  any row in the subscription table, however long expired, gets Plus signatures, for any epoch
  of the past or the future.
\<close>

theorem connect_token_ignores_expiry:
  assumes "map_of (auth_tokens st) t = Some uid" and "subscription_table st uid = Some (ex, rec)"
    and "last_payment st = Some ts"
    and "token_cache st t = None" and "ts_cache st (now div 50) = None" and "sub_cache st ts = None"
    and "blind_sign (mz_brs env) (plus_sk env) ep bt = Some bsig"
  shows "\<exists>st'. get_connect_token env (\<lambda>_. True) now t Plus ep bt st = Some (Inr bsig, st')"
proof -
  have "fst (valid_auth_token (\<lambda>_. True) now t st) = Inr (Some (uid, Plus))"
    using assms(1-6)
    by (simp add: valid_auth_token_def get_user_id_from_token_def get_subscription_expiry_def
        cache_fetch_def cache_hit_def last_payment_def subscription_table_def Let_def)
  then obtain st' where "valid_auth_token (\<lambda>_. True) now t st = (Inr (Some (uid, Plus)), st')"
    by (cases "valid_auth_token (\<lambda>_. True) now t st") simp
  with assms(7) show ?thesis by (simp add: get_connect_token_def level_sk_def)
qed

theorem connect_token_ignores_expiry_witness:
  "\<exists>bsig st'. subscription_table example_broker 1 = Some (100, False) \<and>
     get_connect_token example_env (\<lambda>_. True) 99999999000 ''tok'' Plus 65535 [9, 9] example_broker = Some (Inr bsig, st')"
proof -
  have blind: "token_blind plain_brs 0 (public_der plain_brs (example_keys ! unat (65535 :: u16))) [9, 9] = ([9, 9], ())"
    by (simp add: token_blind_def plain_brs_def)
  obtain bsig where s: "blind_sign plain_brs (generate Plain_Hash Keyed_Hash plain_brs example_keys) 65535 [9, 9] = Some bsig"
    using signed_token_verifies [OF example_keys_ok blind, of Plain_Hash Keyed_Hash] by blast
  have t: "subscription_table example_broker 1 = Some (100, False)"
    by (simp add: subscription_table_def example_broker_def empty_broker_def)
  have "\<exists>st'. get_connect_token example_env (\<lambda>_. True) 99999999000 ''tok'' Plus 65535 [9, 9] example_broker = Some (Inr bsig, st')"
    by (rule connect_token_ignores_expiry [OF _ t, of _ 7])
      (use s in \<open>simp_all add: example_broker_def empty_broker_def last_payment_def example_env_def\<close>)
  with t show ?thesis by blast
qed

text \<open>
  The cached subscription table is keyed by the second of the latest payment, so a payment in
  the same second as the one the table was loaded for is not noticed: here a user pays 400 ms
  after another payment and still counts as unsubscribed 13 seconds later, although the
  database answers every query.
\<close>

theorem subscription_cache_stale:
  "let st0 = empty_broker\<lparr>payment_events := [7000]\<rparr>;
       (r1, st1) = get_subscription_expiry (\<lambda>_. True) 7100 1 st0;
       st2 = st1\<lparr>subscriptions := [(1, 999999)], payment_events := [7000, 7400]\<rparr>;
       (r2, st3) = get_subscription_expiry (\<lambda>_. True) 20000 1 st2
   in r1 = Inr None \<and> subscription_table st2 1 = Some (999999, False) \<and> r2 = Inr None"
  by (simp add: get_subscription_expiry_def cache_fetch_def cache_hit_def last_payment_def
      subscription_table_def empty_broker_def)

definition exit_row :: "broker \<Rightarrow> bytes \<Rightarrow> ExitRow option" where
  "exit_row st k = find (\<lambda>r. row_pubkey r = k) (exits_new st)"

lemma find_upsert:
  "find (\<lambda>x. key x = k) (upsert key r xs) = (if k = key r then Some r else find (\<lambda>x. key x = k) xs)"
  by (induction xs) auto

text \<open>
  Announcing an exit. The broker accepts an announcement only if it carries the MAC of the
  exit token over the signed descriptor, the descriptor is signed by the key it announces and
  has not expired; then exactly the row of that key is written, to expire ten seconds from now.
  Otherwise nothing changes.
\<close>

theorem insert_exit_effect:
  assumes "insert_exit env q now m st = (r, st')"
  shows "case r of
       Inl e \<Rightarrow> st' = st
     | Inr _ \<Rightarrow>
         (let s = mac_inner m; d = signed_inner s in
          khash m = b3_keyed (env_pc env) (b3_hash (env_pc env) (text_bytes (exit_token env))) (code_signed_exit env s) \<and>
          ed_verify (env_pc env) (pubkey s) (signed_digest (env_pc env) (code_exit env) DOMAIN_EXIT_DESCRIPTOR d)
            (signature s) \<and>
          now div 1000 \<le> expiry d \<and>
          (\<forall>k. exit_row st' k =
             (if k = pubkey s
              then Some \<lparr>row_pubkey = pubkey s, row_c2e = c2e_listen d, row_b2e = b2e_listen d,
                row_country = country d, row_city = city d, row_load = load d,
                row_expiry = int (now div 1000 + 10)\<rparr>
              else exit_row st k)))"
  using assms
  by (auto simp: insert_exit_def Let_def mac_verify_Inr_iff signed_verify_Inr_iff exit_row_def
      db_insert_exit_def find_upsert split: sum.splits if_splits)

definition example_exit :: ExitDescriptor where
  "example_exit =
     \<lparr>c2e_listen = ''1.2.3.4:9002'', b2e_listen = ''1.2.3.4:9003'', country = ''CA'', city = ''MTR'',
      load = 1 / 4, expiry = 50\<rparr>"

definition example_announce :: "ExitDescriptor Signed Mac" where
  "example_announce =
     mac_new plain_proto (code_signed_exit example_env)
       (signed_new plain_proto (code_exit example_env) example_exit DOMAIN_EXIT_DESCRIPTOR [8])
       (b3_hash plain_proto (text_bytes ''et''))"

theorem insert_exit_effect_witness:
  "\<exists>st'. insert_exit example_env True 40000 example_announce empty_broker = (Inr (), st') \<and>
     exit_row st' [8] = Some \<lparr>row_pubkey = [8], row_c2e = ''1.2.3.4:9002'', row_b2e = ''1.2.3.4:9003'',
       row_country = ''CA'', row_city = ''MTR'', row_load = 1 / 4, row_expiry = 50\<rparr>"
proof -
  have e: "env_pc example_env = plain_proto" "exit_token example_env = ''et''"
    by (simp_all add: example_env_def)
  obtain st' where a: "insert_exit example_env True 40000 example_announce empty_broker = (Inr (), st')"
    using plain_proto_ok
    by (simp add: insert_exit_def e example_announce_def mac_roundtrip signed_roundtrip)
      (simp add: example_exit_def)
  have i: "signed_inner (mac_inner example_announce) = example_exit" "pubkey (mac_inner example_announce) = [8]"
    by (simp_all add: example_announce_def mac_new_def signed_new_def plain_proto_def)
  from insert_exit_effect [OF a] have "exit_row st' [8] = Some \<lparr>row_pubkey = [8],
      row_c2e = c2e_listen example_exit, row_b2e = b2e_listen example_exit,
      row_country = country example_exit, row_city = city example_exit, row_load = load example_exit,
      row_expiry = int (40000 div 1000 + 10)\<rparr>"
    by (simp add: Let_def i)
  with a show ?thesis by (simp add: example_exit_def)
qed

lemma leaf_route_cong:
  "\<forall>ex p. fwd b ex p = fwd' b ex p \<Longrightarrow> leaf_route fwd ck b d exit = leaf_route fwd' ck b d exit"
  by (simp add: leaf_route_def bridge_to_leaf_route_inner_def)

lemma all_routes_cong:
  "\<forall>(desc, delay, is_plus) \<in> set ds. \<forall>ex p. fwd (desc\<lparr>br_expiry := 0\<rparr>) ex p = fwd' (desc\<lparr>br_expiry := 0\<rparr>) ex p \<Longrightarrow>
     all_routes fwd cookies now exit ds st = all_routes fwd' cookies now exit ds st"
proof (induction ds arbitrary: st)
  case Nil
  then show ?case by simp
next
  case (Cons a ds)
  obtain b d p where a: "a = (b, d, p)" by (cases a) auto
  have "bridge_to_leaf_route fwd ck now b d exit s = bridge_to_leaf_route fwd' ck now b d exit s" for ck s
    using Cons.prems leaf_route_cong [of fwd "b\<lparr>br_expiry := 0\<rparr>" fwd']
    by (simp add: a bridge_to_leaf_route_def Let_def)
  with Cons show ?case by (simp add: a)
qed

lemma all_routes_length: "length (fst (all_routes fwd cookies now exit ds st)) \<le> length ds"
proof (induction ds arbitrary: st)
  case Nil
  then show ?case by simp
next
  case (Cons a ds)
  obtain b d p where a: "a = (b, d, p)" by (cases a) auto
  obtain r st1 where r: "bridge_to_leaf_route fwd (cookies (length ds)) now b d exit st = (r, st1)" by fastforce
  obtain rs st2 where "all_routes fwd cookies now exit ds st1 = (rs, st2)" by fastforce
  with Cons.IH [of st1] show ?case by (simp add: a r split: sum.split)
qed

text \<open>
  C19: A Free token never leads to a Plus bridge. The routes served for a token that only verifies
  under the Free key are the same whatever the Plus bridges would answer - they are not asked -
  and there are at most as many as there are non-Plus bridges.
\<close>

theorem free_routes_ignore_plus_bridges:
  assumes "token_level env token sig = Some (Inr Free)"
    and "query_bridges (env_fns env) q now (debug_token env token) st = (Inr raw, st1)"
    and "\<forall>(desc, delay, is_plus) \<in> set raw. \<not> is_plus \<longrightarrow>
      (\<forall>ex p. fwd (desc\<lparr>br_expiry := 0\<rparr>) ex p = fwd' (desc\<lparr>br_expiry := 0\<rparr>) ex p)"
  shows "get_routes env q fwd cookies now token sig exit st = get_routes env q fwd' cookies now token sig exit st \<and>
     (\<exists>routes st2. get_routes env q fwd cookies now token sig exit st = Some (Inr (Race routes), st2) \<and>
        length routes \<le> length (filter (\<lambda>(_, _, is_plus). \<not> is_plus) raw))"
proof -
  let ?ds = "filter (\<lambda>(_, _, is_plus). \<not> is_plus) raw"
  have "\<forall>(desc, delay, is_plus) \<in> set ?ds. \<forall>ex p. fwd (desc\<lparr>br_expiry := 0\<rparr>) ex p = fwd' (desc\<lparr>br_expiry := 0\<rparr>) ex p"
    using assms(3) by fastforce
  then have c: "all_routes fwd' cookies now exit ?ds st1 = all_routes fwd cookies now exit ?ds st1"
    by (rule all_routes_cong [symmetric])
  obtain routes st2 where r: "all_routes fwd cookies now exit ?ds st1 = (routes, st2)" by fastforce
  then have "length routes \<le> length ?ds" using all_routes_length [of fwd cookies now exit ?ds st1] by simp
  with assms(1,2) c r show ?thesis by (simp add: get_routes_def)
qed

definition example_levels :: "(sym_hash, unit) broker_env" where
  "example_levels =
     example_env\<lparr>plus_sk := generate Plain_Hash Keyed_Hash plain_brs [[1]],
       free_sk := generate Plain_Hash Keyed_Hash plain_brs [[2]]\<rparr>"

definition example_bridges :: broker where
  "example_bridges =
     empty_broker\<lparr>bridges_new :=
         [\<lparr>bn_listen = ''a'', bn_cookie = ''c'', bn_pool = ''open'', bn_expiry = 9, bn_alloc_count = 0\<rparr>,
          \<lparr>bn_listen = ''b'', bn_cookie = ''c'', bn_pool = ''paid'', bn_expiry = 9, bn_alloc_count = 0\<rparr>],
       bridge_group_delays := [''paid'' \<mapsto> (5, True)]\<rparr>"

definition example_free_sig :: "sym_hash UnblindedSignature" where
  "example_free_sig = \<lparr>epoch = 0, used_key = [2], us_merkle_branch = [], unblinded_sig = [2, 9]\<rparr>"

lemma example_free_level: "token_level example_levels [9] example_free_sig = Some (Inr Free)"
  by (simp add: token_level_def example_levels_def example_env_def example_free_sig_def
      to_public_key_def generate_def build_levels.simps blind_verify_def verify_member_def plain_brs_def)

theorem free_routes_ignore_plus_bridges_witness:
  "get_routes example_levels True (\<lambda>b e p. Inr (control_listen b)) (\<lambda>_. ''ck'') 0 [9] example_free_sig ''x'' example_bridges =
   get_routes example_levels True (\<lambda>b e p. if pool b = ''paid'' then Inl ''no'' else Inr (control_listen b))
     (\<lambda>_. ''ck'') 0 [9] example_free_sig ''x'' example_bridges"
proof -
  obtain st1 where raw: "query_bridges (env_fns example_levels) True 0 (debug_token example_levels [9]) example_bridges =
      (Inr [(\<lparr>control_listen = ''a'', control_cookie = ''c'', pool = ''open'', br_expiry = 9\<rparr>, 0, False),
            (\<lparr>control_listen = ''b'', control_cookie = ''c'', pool = ''paid'', br_expiry = 9\<rparr>, 5, True)], st1)"
    by (simp add: query_bridges_def select_bridges_def bridge_tuple_def cache_fetch_def cache_hit_def
        example_levels_def example_env_def example_bridges_def empty_broker_def as_u64_def Let_def)
  show ?thesis
    by (rule free_routes_ignore_plus_bridges [OF example_free_level raw, THEN conjunct1]) simp
qed

text \<open>
  Redeeming any gift code deletes the user's free voucher: the code that is spent need not be
  the voucher's.
\<close>

theorem redeem_drops_free_voucher:
  assumes "validate_credential (env_fns env) (q 0) now (Secret secret) st = (Inr uid, st1)"
    and "start_session (env_fns env) uid = Inr sessid"
    and "spend_giftcard (env_fns env) sessid gift_code = Inr days" and "q 1"
  shows "\<exists>st'. redeem_voucher env q now secret gift_code st = (Inr days, st') \<and>
     free_vouchers st' = filter (\<lambda>r. fv_id r \<noteq> uid) (free_vouchers st1)"
  using assms by (simp add: redeem_voucher_def delete_free_voucher_def)

theorem redeem_drops_free_voucher_witness:
  "\<exists>st'. redeem_voucher example_env (\<lambda>_. True) 5 ''s'' ''other-code''
       (empty_broker\<lparr>auth_secret := [(1, ''s'')],
          free_vouchers := [\<lparr>fv_id = 1, fv_voucher = ''free-code'', fv_description = [], fv_visible_after = 0\<rparr>]\<rparr>)
     = (Inr 30, st') \<and> free_vouchers st' = []"
proof -
  let ?st = "empty_broker\<lparr>auth_secret := [(1, ''s'')],
      free_vouchers := [\<lparr>fv_id = 1, fv_voucher = ''free-code'', fv_description = [], fv_visible_after = 0\<rparr>]\<rparr>"
  obtain st1 where v: "validate_credential (env_fns example_env) True 5 (Secret ''s'') ?st = (Inr 1, st1)"
      "free_vouchers st1 = free_vouchers ?st"
    by (simp add: validate_credential_def credential_user_def validate_secret_def cache_fetch_def
        cache_hit_def empty_broker_def)
  show ?thesis
    using redeem_drops_free_voucher [of example_env "\<lambda>_. True" 5 "''s''" ?st 1 st1 "''sess''" "''other-code''" 30] v
    by (simp add: example_env_def example_fns_def)
qed

text \<open>
  The delay of a cached route is the one of the request that filled the cache: a change of the
  delay of a bridge group takes up to ten minutes to show, and so does the recovery of a bridge
  that failed to answer once.
\<close>

lemma route_cache_ignores_delay:
  assumes "bridge_to_leaf_route fwd ck now bridge d exit st = (r, st1)"
    and "route_cache st (bridge\<lparr>br_expiry := 0\<rparr>, exit) = None"
    and "now \<le> later" and "later < now + 600000"
  shows "fst (bridge_to_leaf_route fwd' ck' later bridge d' exit st1) = r"
  using assms by (auto simp: bridge_to_leaf_route_def cache_fetch_def cache_hit_def Let_def)

end
