(* ===== verification/Exit_Link.thy ===== *)
theory Exit_Link
  imports Sos_State Broker_Protocol
begin

text \<open>
  The link between client and exit: length-prefixed messages (libraries/geph5-misc-rpc/src/lib.rs),
  the hello messages and the encrypted pipe (libraries/geph5-misc-rpc/src/exit.rs), the client's
  side of the authentication (\<open>client_auth\<close> in binaries/geph5-client/src/client_inner.rs) and the
  exit's (\<open>handle_client\<close> in binaries/geph5-exit/src/listen.rs with auth.rs). Serialization of the
  hellos (stdcode), BLAKE3, ed25519, X25519 and ChaCha20-Poly1305 are parameters.
\<close>

section \<open>Length-prefixed messages\<close>

definition write_prepend_length :: "bytes \<Rightarrow> bytes" where
  "write_prepend_length value = be_bytes 4 (unat (word_of_nat (length value) :: u32)) @ value"

definition read_prepend_length :: "bytes \<Rightarrow> io_error + bytes \<times> bytes" where
  "read_prepend_length inp =
     result_bind (read_exact 4 inp) (\<lambda>(len_buf, rest). read_exact (of_be_bytes len_buf) rest)"

lemma prepend_rd:
  assumes "length v < 2 ^ 32"
  shows "read_prepend_length (write_prepend_length v @ rest) = Inr (v, rest)"
proof -
  have "unat (word_of_nat (length v) :: u32) = length v" using assms by (simp add: unat_of_nat)
  with assms show ?thesis
    by (simp add: read_prepend_length_def write_prepend_length_def codec_simps)
qed

interpretation prepend_codec: stream_codec
  write_prepend_length read_prepend_length "\<lambda>v. length v < 2 ^ 32"
proof
  fix v rest :: bytes
  assume wf: "length v < 2 ^ 32"
  then show "read_prepend_length (write_prepend_length v @ rest) = Inr (v, rest)"
    by (rule prepend_rd)
next
  fix v p :: bytes and n
  assume wf: "length v < 2 ^ 32" and n: "n < length (write_prepend_length v)"
  have l: "unat (word_of_nat (length v) :: u32) = length v" using wf by (simp add: unat_of_nat)
  let ?p = "take n (write_prepend_length v)"
  show "read_prepend_length ?p = Inl eof_error"
  proof (cases "n < 4")
    case True
    then show ?thesis using n by (simp add: read_prepend_length_def)
  next
    case False
    then have "?p = be_bytes 4 (length v) @ take (n - 4) v"
      by (simp add: write_prepend_length_def l)
    moreover have "length (take (n - 4) v) < length v"
      using n False by (auto simp: write_prepend_length_def)
    ultimately show ?thesis
      using wf by (simp add: read_prepend_length_def codec_simps)
  qed
qed

section \<open>The encrypted pipe\<close>

text \<open>
  \<open>encrypt\<close> and \<open>decrypt\<close> of the aead crate's combined mode: the tag follows the ciphertext.
  Encryption failure panics.
\<close>

definition aead_encrypt :: "sos_crypto \<Rightarrow> bytes \<Rightarrow> bytes \<Rightarrow> bytes \<Rightarrow> bytes option" where
  "aead_encrypt cr key nonce msg = map_option (\<lambda>(c, t). c @ t) (seal cr key nonce msg)"

definition aead_decrypt :: "sos_crypto \<Rightarrow> bytes \<Rightarrow> bytes \<Rightarrow> bytes \<Rightarrow> bytes option" where
  "aead_decrypt cr key nonce msg =
     (if length msg < 16 then None
      else unseal cr key nonce (take (length msg - 16) msg) (drop (length msg - 16) msg))"

text \<open>
  A turn of the write task: what one read of at most 8192 bytes from the application returned
  is sent as one message. There is no test for the end of the application's data, which such a
  read reports as an empty chunk.
\<close>

definition crypt_write_turn :: "sos_crypto \<Rightarrow> bytes \<Rightarrow> nat \<Rightarrow> bytes \<Rightarrow> bytes option" where
  "crypt_write_turn cr write_key write_nonce chunk =
     map_option write_prepend_length (aead_encrypt cr write_key (nonce_bytes write_nonce) chunk)"

fun crypt_write :: "sos_crypto \<Rightarrow> bytes \<Rightarrow> nat \<Rightarrow> bytes list \<Rightarrow> bytes option" where
  "crypt_write cr write_key write_nonce [] = Some []"
| "crypt_write cr write_key write_nonce (chunk # chunks) =
     Option.bind (crypt_write_turn cr write_key write_nonce chunk) (\<lambda>msg.
       map_option (\<lambda>rest. msg @ rest) (crypt_write cr write_key (write_nonce + 1) chunks))"

text \<open>The read task on the bytes that arrive: what it hands to the application before it ends.\<close>

lemma read_prepend_shrinks: "read_prepend_length inp = Inr (msg, rest) \<Longrightarrow> length rest < length inp"
  by (auto simp: read_prepend_length_def result_bind_Inr_iff read_exact_Inr_iff)

function crypt_read :: "sos_crypto \<Rightarrow> bytes \<Rightarrow> nat \<Rightarrow> bytes \<Rightarrow> bytes" where
  "crypt_read cr read_key read_nonce inp =
     (case read_prepend_length inp of
        Inl e \<Rightarrow> []
      | Inr (msg, rest) \<Rightarrow>
          (case aead_decrypt cr read_key (nonce_bytes read_nonce) msg of
             None \<Rightarrow> []
           | Some plaintext \<Rightarrow> plaintext @ crypt_read cr read_key (read_nonce + 1) rest))"
  by pat_completeness auto
termination
  by (relation "measure (\<lambda>(cr, k, n, inp). length inp)") (auto dest: read_prepend_shrinks)

declare crypt_read.simps [simp del]

lemma crypt_turn_ok:
  assumes "aead_ok cr" and "length chunk \<le> 8192"
  obtains msg where "aead_encrypt cr key nonce chunk = Some msg" "length msg = length chunk + 16"
    "aead_decrypt cr key nonce msg = Some chunk"
proof -
  obtain c t where s: "seal cr key nonce chunk = Some (c, t)" "length c = length chunk" "length t = 16"
      "unseal cr key nonce c t = Some chunk"
    using assms(2) by (rule_tac aead_okE [OF assms(1), of chunk]) auto
  show thesis
    by (rule that [of "c @ t"]) (use s in \<open>simp_all add: aead_encrypt_def aead_decrypt_def\<close>)
qed

lemma crypt_write_read:
  assumes "aead_ok cr" and "\<forall>c \<in> set chunks. length c \<le> 8192"
  shows "\<exists>wire. crypt_write cr key n chunks = Some wire \<and>
     (\<forall>rest. crypt_read cr key n (wire @ rest) = concat chunks @ crypt_read cr key (n + length chunks) rest)"
  using assms(2)
proof (induction chunks arbitrary: n)
  case Nil
  then show ?case by simp
next
  case (Cons c chunks)
  then have "length c \<le> 8192" by simp
  from crypt_turn_ok [OF assms(1) this, of key "nonce_bytes n"] obtain msg where
    m: "aead_encrypt cr key (nonce_bytes n) c = Some msg" "length msg = length c + 16"
      "aead_decrypt cr key (nonce_bytes n) msg = Some c" .
  obtain wire where w: "crypt_write cr key (n + 1) chunks = Some wire"
      "\<forall>rest. crypt_read cr key (n + 1) (wire @ rest) = concat chunks @ crypt_read cr key (n + 1 + length chunks) rest"
    using Cons.IH [of "n + 1"] Cons.prems by auto
  have "length msg < 2 ^ 32" using m(2) \<open>length c \<le> 8192\<close> by simp
  then have "read_prepend_length (write_prepend_length msg @ wire @ rest) = Inr (msg, wire @ rest)" for rest
    by (rule prepend_codec.rd_enc)
  then have "crypt_read cr key n ((write_prepend_length msg @ wire) @ rest)
      = c @ crypt_read cr key (n + 1) (wire @ rest)" for rest
    by (subst crypt_read.simps) (simp add: m(3))
  with w m(1) show ?case
    by (intro exI [of _ "write_prepend_length msg @ wire"]) (simp add: crypt_write_turn_def)
qed

text \<open>
  The encrypted pipe between client and exit delivers. With matching keys, whatever chunks
  of at most 8192 bytes the writing task reads from the application, the reading task on the
  other side hands exactly their concatenation to its application.
\<close>

theorem crypt_pipe_delivers:
  assumes "aead_ok cr" and "\<forall>c \<in> set chunks. length c \<le> 8192"
  shows "\<exists>wire. crypt_write cr key 0 chunks = Some wire \<and> crypt_read cr key 0 wire = concat chunks"
proof -
  obtain wire where w: "crypt_write cr key 0 chunks = Some wire"
      "\<forall>rest. crypt_read cr key 0 (wire @ rest) = concat chunks @ crypt_read cr key (length chunks) rest"
    using crypt_write_read [OF assms, of key 0] by auto
  have "crypt_read cr key m [] = []" for m
    by (subst crypt_read.simps) (simp add: read_prepend_length_def)
  with w(2) [rule_format, of "[]"] w(1) show ?thesis by simp
qed

theorem crypt_pipe_delivers_witness:
  "\<exists>wire. crypt_write plain_crypto [7] 0 [[1, 2], [3]] = Some wire \<and>
     crypt_read plain_crypto [7] 0 wire = [1, 2, 3]"
  using crypt_pipe_delivers [OF plain_crypto_aead, of "[[1, 2], [3]]" "[7]"] by simp

text \<open>
  The writing task does not notice that its application has closed the pipe: the empty read
  that reports the end is sent as an empty message, and the next one again, without end.
\<close>

theorem closed_pipe_keeps_sending:
  assumes "aead_ok cr"
  shows "\<exists>wire. crypt_write cr key n (replicate k []) = Some wire \<and> length wire = 20 * k"
proof (induction k arbitrary: n)
  case 0
  then show ?case by simp
next
  case (Suc k)
  obtain msg where "aead_encrypt cr key (nonce_bytes n) [] = Some msg" "length msg = 16"
    by (rule crypt_turn_ok [OF assms, of "[]"]) auto
  with Suc [of "n + 1"] show ?case
    by (auto simp: crypt_write_turn_def write_prepend_length_def)
qed

theorem closed_pipe_keeps_sending_witness:
  "\<exists>wire. crypt_write plain_crypto [7] 0 (replicate 5 []) = Some wire \<and> length wire = 100"
  using closed_pipe_keeps_sending [OF plain_crypto_aead, of "[7]" 0 5] by simp

section \<open>Hello messages\<close>

datatype ClientCryptHello = SharedSecretChallenge bytes | Client_X25519 bytes

record ClientHello =
  credentials :: bytes
  crypt_hello :: ClientCryptHello

datatype ExitHelloInner = Reject string | SharedSecretResponse bytes | Exit_X25519 bytes

record ExitHello =
  eh_inner :: ExitHelloInner
  eh_signature :: bytes

record ('h, 's) link_env =
  le_crypto :: sos_crypto
  le_pc :: proto_crypto
  code_client_hello :: "ClientHello \<Rightarrow> bytes"
  decode_client_hello :: "bytes \<Rightarrow> ClientHello option"
  code_exit_hello :: "ExitHello \<Rightarrow> bytes"
  decode_exit_hello :: "bytes \<Rightarrow> ExitHello option"
  code_hello_pair :: "ClientHello \<times> ExitHelloInner \<Rightarrow> bytes"
  decode_credentials :: "bytes \<Rightarrow> (AccountLevel \<times> bytes \<times> 'h UnblindedSignature) option"
  le_hash :: "bytes \<Rightarrow> 'h"
  le_khash :: "'h \<Rightarrow> 'h \<Rightarrow> 'h"
  le_brs :: "'s brs"
  exit_free_key :: 'h
  exit_plus_key :: 'h
  signing_secret :: bytes
  broker_configured :: bool
  accept_free :: bool
  free_ratelimit :: nat
  plus_ratelimit :: nat

section \<open>The exit's side\<close>

definition verify_user ::
    "('h, 's) link_env \<Rightarrow> u16 \<Rightarrow> AccountLevel \<Rightarrow> bytes \<Rightarrow> 'h UnblindedSignature \<Rightarrow> (string + unit) option" where
  "verify_user env current_epoch lvl token sig =
     (if 2 < abs_diff (unat (epoch sig)) (unat current_epoch) then Some (Inl ''signature from wrong epoch'')
      else blind_verify (le_hash env) (le_khash env) (le_brs env)
             (case lvl of Free \<Rightarrow> exit_free_key env | Plus \<Rightarrow> exit_plus_key env) token sig)"

text \<open>
  The rate limit of a session in bytes per second. Making a limiter multiplies u32 values, which
  panics on overflow.
\<close>

datatype limiter = Unlimited | Limited nat nat

definition limiter_new :: "nat \<Rightarrow> nat \<Rightarrow> limiter option" where
  "limiter_new limit_kb burst_kb =
     (if (limit_kb + 1) * 1024 < 2 ^ 32 \<and> burst_kb * 1024 < 2 ^ 32 \<and> 0 < burst_kb
      then Some (Limited ((limit_kb + 1) * 1024) (burst_kb * 1024)) else None)"

definition get_ratelimiter :: "('h, 's) link_env \<Rightarrow> AccountLevel \<Rightarrow> limiter option" where
  "get_ratelimiter env lvl =
     limiter_new (case lvl of Free \<Rightarrow> free_ratelimit env | Plus \<Rightarrow> plus_ratelimit env) 100"

text \<open>The pipe a session runs on: the raw one, or an encrypted one with read and write key.\<close>

datatype session_pipe = Raw_Pipe | Crypt_Pipe (read_key: bytes) (write_key: bytes)

record exit_session =
  es_pipe :: session_pipe
  es_is_free :: bool
  es_limit :: limiter

text \<open>The answer to the crypto part of the hello; \<open>ss\<close> is the shared secret of the lower pipe.\<close>

definition exit_crypt_hello ::
    "('h, 's) link_env \<Rightarrow> bytes \<Rightarrow> bytes option \<Rightarrow> ClientCryptHello \<Rightarrow> string + ExitHelloInner \<times> session_pipe" where
  "exit_crypt_hello env my_esk ss ch =
     (case ch of
        SharedSecretChallenge k \<Rightarrow>
          (case ss of
             None \<Rightarrow> Inl ''no shared secret''
           | Some real_ss \<Rightarrow> Inr (SharedSecretResponse (b3_keyed (le_pc env) k real_ss), Raw_Pipe))
      | Client_X25519 their_epk \<Rightarrow>
          (let cr = le_crypto env; sec = x25519 cr my_esk their_epk
           in Inr (Exit_X25519 (x25519_public cr my_esk),
                   Crypt_Pipe (derive_key cr ''c2e'' sec) (derive_key cr ''e2c'' sec))))"

text \<open>Who the client is: whether it is a Free user, and its rate limit. None is a panic.\<close>

definition exit_admit ::
    "('h, 's) link_env \<Rightarrow> u16 \<Rightarrow> ClientHello \<Rightarrow> (string + bool \<times> limiter) option" where
  "exit_admit env current_epoch hello =
     (if \<not> broker_configured env then Some (Inr (False, Unlimited))
      else (case decode_credentials env (credentials hello) of
              None \<Rightarrow> Some (Inl ''cannot deserialize credentials'')
            | Some (lvl, token, sig) \<Rightarrow>
                if lvl = Free \<and> \<not> accept_free env then Some (Inl ''free users rejected here'')
                else (case verify_user env current_epoch lvl token sig of
                        None \<Rightarrow> None
                      | Some (Inl e) \<Rightarrow> Some (Inl e)
                      | Some (Inr _) \<Rightarrow>
                          map_option (\<lambda>l. Inr (lvl = Free, l)) (get_ratelimiter env lvl))))"

definition sign_hello :: "('h, 's) link_env \<Rightarrow> ClientHello \<Rightarrow> ExitHelloInner \<Rightarrow> ExitHello" where
  "sign_hello env hello inner =
     \<lparr>eh_inner = inner,
      eh_signature = ed_sign (le_pc env) (signing_secret env) (code_hello_pair env (hello, inner))\<rparr>"

text \<open>The authentication part of \<open>handle_client\<close>: the reply and the session, with the rest of the input.\<close>

definition handle_client ::
    "('h, 's) link_env \<Rightarrow> u16 \<Rightarrow> bytes \<Rightarrow> bytes option \<Rightarrow> bytes
       \<Rightarrow> (string + bytes \<times> exit_session \<times> bytes) option" where
  "handle_client env current_epoch my_esk ss inp =
     (case read_prepend_length inp of
        Inl e \<Rightarrow> Some (Inl (message e))
      | Inr (msg, rest) \<Rightarrow>
          (case decode_client_hello env msg of
             None \<Rightarrow> Some (Inl ''stdcode'')
           | Some hello \<Rightarrow>
               (case exit_crypt_hello env my_esk ss (crypt_hello hello) of
                  Inl e \<Rightarrow> Some (Inl e)
                | Inr (inner, pipe) \<Rightarrow>
                    (case exit_admit env current_epoch hello of
                       None \<Rightarrow> None
                     | Some (Inl e) \<Rightarrow> Some (Inl e)
                     | Some (Inr (is_free, limit)) \<Rightarrow>
                         Some (Inr (write_prepend_length (code_exit_hello env (sign_hello env hello inner)),
                            \<lparr>es_pipe = pipe, es_is_free = is_free, es_limit = limit\<rparr>, rest))))))"

section \<open>The client's side\<close>

text \<open>\<open>creds\<close>: the serialized connect token, or nothing without a broker.\<close>

definition client_hello :: "('h, 's) link_env \<Rightarrow> bytes \<Rightarrow> bytes option \<Rightarrow> bytes \<Rightarrow> bytes \<Rightarrow> ClientHello" where
  "client_hello env creds ss challenge my_esk =
     \<lparr>credentials = creds,
      crypt_hello = (case ss of
          Some _ \<Rightarrow> SharedSecretChallenge challenge
        | None \<Rightarrow> Client_X25519 (x25519_public (le_crypto env) my_esk))\<rparr>"

definition client_send :: "('h, 's) link_env \<Rightarrow> ClientHello \<Rightarrow> bytes" where
  "client_send env hello = write_prepend_length (code_client_hello env hello)"

definition client_auth ::
    "('h, 's) link_env \<Rightarrow> bytes \<Rightarrow> bytes \<Rightarrow> bytes option \<Rightarrow> bytes \<Rightarrow> bytes \<Rightarrow> bytes
       \<Rightarrow> string + session_pipe \<times> bytes" where
  "client_auth env pk creds ss challenge my_esk inp =
     (let hello = client_hello env creds ss challenge my_esk in
      case read_prepend_length inp of
        Inl e \<Rightarrow> Inl (message e)
      | Inr (msg, rest) \<Rightarrow>
          (case decode_exit_hello env msg of
             None \<Rightarrow> Inl (if ss \<noteq> None then ''cannot deserialize exit hello''
                          else ''could not deserialize exit hello'')
           | Some eh \<Rightarrow>
               (case ss of
                  Some real_ss \<Rightarrow>
                    (case eh_inner eh of
                       SharedSecretResponse response_mac \<Rightarrow>
                         if b3_keyed (le_pc env) challenge real_ss = response_mac then Inr (Raw_Pipe, rest)
                         else Inl ''authentication failed with shared secret''
                     | _ \<Rightarrow> Inl ''unexpected response from server'')
                | None \<Rightarrow>
                    if \<not> ed_verify (le_pc env) pk (code_hello_pair env (hello, eh_inner eh)) (eh_signature eh)
                    then Inl ''exit hello failed validation''
                    else (case eh_inner eh of
                            Reject reason \<Rightarrow> Inl (''exit rejected our authentication attempt: '' @ reason)
                          | SharedSecretResponse _ \<Rightarrow>
                              Inl ''exit sent a shared-secret response to our full authentication request''
                          | Exit_X25519 their_epk \<Rightarrow>
                              (let cr = le_crypto env; sec = x25519 cr my_esk their_epk
                               in Inr (Crypt_Pipe (derive_key cr ''e2c'' sec) (derive_key cr ''c2e'' sec), rest))))))"

section \<open>Agreement\<close>

text \<open>
  What is relied on of the serialization, for the two messages of an exchange: it reads back
  what it wrote, and the messages fit the length field.
\<close>

definition codes_ok :: "('h, 's) link_env \<Rightarrow> ClientHello \<Rightarrow> ExitHello \<Rightarrow> bool" where
  "codes_ok env ch eh \<longleftrightarrow>
     decode_client_hello env (code_client_hello env ch) = Some ch \<and>
     length (code_client_hello env ch) < 2 ^ 32 \<and>
     decode_exit_hello env (code_exit_hello env eh) = Some eh \<and>
     length (code_exit_hello env eh) < 2 ^ 32"

definition pipes_match :: "session_pipe \<Rightarrow> session_pipe \<Rightarrow> bool" where
  "pipes_match c e \<longleftrightarrow>
     (case (c, e) of
        (Raw_Pipe, Raw_Pipe) \<Rightarrow> True
      | (Crypt_Pipe cr cw, Crypt_Pipe er ew) \<Rightarrow> cr = ew \<and> cw = er
      | _ \<Rightarrow> False)"

text \<open>
  C22: Client and exit agree. If the exit admits the client's hello, it answers, the client that
  expects this exit's key accepts the answer, both over a pipe with a shared secret and over
  one without, and they end with the same pipe: raw on both sides, or encrypted with each
  side's write key the other's read key.
\<close>

theorem client_exit_agree:
  assumes "hello = client_hello env creds ss challenge c_esk"
    and "exit_crypt_hello env e_esk ss (crypt_hello hello) = Inr (inner, pipe)"
    and "codes_ok env hello (sign_hello env hello inner)"
    and "ed_ok (le_pc env)" and "dh_ok (le_crypto env)"
    and "exit_admit env ep hello = Some (Inr (is_free, limit))"
  shows "\<exists>reply es cp. handle_client env ep e_esk ss (client_send env hello @ up) = Some (Inr (reply, es, up)) \<and>
     client_auth env (ed_public (le_pc env) (signing_secret env)) creds ss challenge c_esk (reply @ dn) = Inr (cp, dn) \<and>
     pipes_match cp (es_pipe es) \<and> es_is_free es = is_free \<and> es_limit es = limit"
proof -
  define eh where "eh = sign_hello env hello inner"
  let ?reply = "write_prepend_length (code_exit_hello env eh)"
  let ?es = "\<lparr>es_pipe = pipe, es_is_free = is_free, es_limit = limit\<rparr>"
  have codes: "decode_client_hello env (code_client_hello env hello) = Some hello"
      "decode_exit_hello env (code_exit_hello env eh) = Some eh"
    using assms(3) by (simp_all add: codes_ok_def eh_def)
  have rd: "read_prepend_length (client_send env hello @ up) = Inr (code_client_hello env hello, up)"
      "read_prepend_length (?reply @ dn) = Inr (code_exit_hello env eh, dn)"
    using assms(3) prepend_codec.rd_enc by (simp_all add: codes_ok_def client_send_def eh_def)
  have inner: "eh_inner eh = inner" by (simp add: eh_def sign_hello_def)
  have sig: "ed_verify (le_pc env) (ed_public (le_pc env) (signing_secret env))
      (code_hello_pair env (hello, inner)) (eh_signature eh)"
    using assms(4) by (simp add: eh_def sign_hello_def ed_ok_def)
  have ex: "handle_client env ep e_esk ss (client_send env hello @ up) = Some (Inr (?reply, ?es, up))"
    using assms(2,6) by (simp add: handle_client_def rd codes eh_def)
  have ch: "client_hello env creds ss challenge c_esk = hello" using assms(1) by simp
  have "\<exists>cp. client_auth env (ed_public (le_pc env) (signing_secret env)) creds ss challenge c_esk (?reply @ dn)
      = Inr (cp, dn) \<and> pipes_match cp pipe"
  proof (cases ss)
    case None
    then have "crypt_hello hello = Client_X25519 (x25519_public (le_crypto env) c_esk)"
      by (simp add: assms(1) client_hello_def)
    moreover have "x25519 (le_crypto env) e_esk (x25519_public (le_crypto env) c_esk)
        = x25519 (le_crypto env) c_esk (x25519_public (le_crypto env) e_esk)"
      using assms(5) by (simp add: dh_ok_def)
    ultimately have
      e: "inner = Exit_X25519 (x25519_public (le_crypto env) e_esk)"
        "pipe = Crypt_Pipe
           (derive_key (le_crypto env) ''c2e'' (x25519 (le_crypto env) c_esk (x25519_public (le_crypto env) e_esk)))
           (derive_key (le_crypto env) ''e2c'' (x25519 (le_crypto env) c_esk (x25519_public (le_crypto env) e_esk)))"
      using assms(2) by (auto simp: exit_crypt_hello_def Let_def)
    show ?thesis
      using sig [unfolded e] ch [unfolded None] inner [unfolded e]
      by (simp add: client_auth_def rd codes None e(2) pipes_match_def Let_def)
  next
    case (Some s)
    then have "inner = SharedSecretResponse (b3_keyed (le_pc env) challenge s)" "pipe = Raw_Pipe"
      using assms(2) by (auto simp: assms(1) client_hello_def exit_crypt_hello_def)
    with inner show ?thesis by (simp add: client_auth_def rd codes Some pipes_match_def)
  qed
  with ex show ?thesis by force
qed

text \<open>
  An exit and a client with plain primitives and a serialization that is right for their
  messages; \<open>plus_key\<close> is the exit's key of the Plus level, \<open>tok\<close> the token behind the credentials [5].
\<close>

definition example_link :: "sym_hash \<Rightarrow> AccountLevel \<times> bytes \<times> sym_hash UnblindedSignature \<Rightarrow> (sym_hash, unit) link_env" where
  "example_link plus_key tok =
     \<lparr>le_crypto = plain_crypto, le_pc = plain_proto,
      code_client_hello = credentials,
      decode_client_hello = \<lambda>m. Some \<lparr>credentials = m, crypt_hello = Client_X25519 (x25519_public plain_crypto [1])\<rparr>,
      code_exit_hello = \<lambda>h. case eh_inner h of Exit_X25519 pk \<Rightarrow> pk | _ \<Rightarrow> [],
      decode_exit_hello = \<lambda>m. Some \<lparr>eh_inner = Exit_X25519 m, eh_signature = 42 # 5 # m\<rparr>,
      code_hello_pair = \<lambda>(ch, eh). credentials ch @ (case eh of Exit_X25519 pk \<Rightarrow> pk | _ \<Rightarrow> []),
      decode_credentials = \<lambda>m. if m = [5] then Some tok else None,
      le_hash = Plain_Hash, le_khash = Keyed_Hash, le_brs = plain_brs,
      exit_free_key = Plain_Hash [], exit_plus_key = plus_key, signing_secret = [42],
      broker_configured = True, accept_free = False, free_ratelimit = 100, plus_ratelimit = 30000\<rparr>"

definition no_token :: "AccountLevel \<times> bytes \<times> sym_hash UnblindedSignature" where
  "no_token = (Plus, [], \<lparr>epoch = 0, used_key = [], us_merkle_branch = [], unblinded_sig = []\<rparr>)"

lemma epoch_of_signed:
  assumes "blind_sign b sk ep blinded = Some bsig" and "unblind b bsig secret token = Inr sig"
  shows "epoch sig = ep"
  using assms by (auto simp: blind_sign_def unblind_def split: bind_splits if_splits option.splits)

theorem client_exit_agree_witness:
  "\<exists>reply es cp. let env = example_link (Plain_Hash []) no_token\<lparr>broker_configured := False\<rparr>;
       hello = client_hello env [5] None [0] [1] in
     handle_client env 300 [2] None (client_send env hello @ [8]) = Some (Inr (reply, es, [8])) \<and>
     client_auth env [42] [5] None [0] [1] (reply @ [6, 7]) = Inr (cp, [6, 7]) \<and>
     pipes_match cp (es_pipe es) \<and> es_is_free es = False \<and> es_limit es = Unlimited"
proof -
  let ?env = "example_link (Plain_Hash []) no_token\<lparr>broker_configured := False\<rparr>"
  let ?hello = "client_hello ?env [5] None [0] [1]"
  have c: "exit_crypt_hello ?env [2] None (crypt_hello ?hello) =
      Inr (Exit_X25519 (x25519_public plain_crypto [2]),
        Crypt_Pipe (derive_key plain_crypto ''c2e'' (x25519 plain_crypto [2] (x25519_public plain_crypto [1])))
          (derive_key plain_crypto ''e2c'' (x25519 plain_crypto [2] (x25519_public plain_crypto [1]))))"
    by (simp add: exit_crypt_hello_def client_hello_def example_link_def Let_def)
  have o: "codes_ok ?env ?hello (sign_hello ?env ?hello (Exit_X25519 (x25519_public plain_crypto [2])))"
    by (simp add: codes_ok_def sign_hello_def client_hello_def example_link_def plain_proto_def)
       (simp add: plain_crypto_def)
  have e: "ed_ok (le_pc ?env)" "dh_ok (le_crypto ?env)" "ed_public (le_pc ?env) (signing_secret ?env) = [42]"
    by (simp_all add: example_link_def plain_proto_ok plain_crypto_dh) (simp add: plain_proto_def)
  have a: "exit_admit ?env 300 ?hello = Some (Inr (False, Unlimited))" by (simp add: exit_admit_def)
  show ?thesis
    using client_exit_agree [OF refl c o e(1,2) a, of "[8]" "[6, 7]", unfolded e(3)]
    by (simp add: Let_def)
qed

lemma verified_token_admitted:
  assumes "blind_verify (le_hash env) (le_khash env) (le_brs env)
      (case lvl of Free \<Rightarrow> exit_free_key env | Plus \<Rightarrow> exit_plus_key env) token sig = Some (Inr ())"
    and "decode_credentials env (credentials hello) = Some (lvl, token, sig)"
    and "lvl = Free \<longrightarrow> accept_free env"
    and "abs_diff (unat (epoch sig)) (unat now) \<le> 2"
    and "limit = (case lvl of Free \<Rightarrow> free_ratelimit env | Plus \<Rightarrow> plus_ratelimit env)"
    and "limit < 2 ^ 22 - 1"
  shows "exit_admit env now hello =
     Some (Inr (if broker_configured env then (lvl = Free, Limited ((limit + 1) * 1024) 102400)
                else (False, Unlimited)))"
proof -
  have "verify_user env now lvl token sig = Some (Inr ())"
    using assms(1,4) by (simp add: verify_user_def)
  moreover have "get_ratelimiter env lvl = Some (Limited ((limit + 1) * 1024) 102400)"
    using assms(6) by (simp add: get_ratelimiter_def limiter_new_def flip: assms(5))
  ultimately show ?thesis
    using assms(2,3) by (auto simp: exit_admit_def)
qed

text \<open>
  A connect token works at the exit. A token that was signed with the secret key of its level
  is admitted in every epoch within two of the one it was signed for - one of a Free user
  unless the exit rejects those - as a user of that level with the rate limit of that level.
\<close>

theorem signed_token_admitted:
  assumes "length keys = KEY_COUNT" and "\<forall>k \<in> set keys. brs_ok (le_brs env) k"
    and "to_public_key (generate (le_hash env) (le_khash env) (le_brs env) keys) =
      Some (case lvl of Free \<Rightarrow> exit_free_key env | Plus \<Rightarrow> exit_plus_key env)"
    and "token_blind (le_brs env) rnd (public_der (le_brs env) (keys ! unat ep)) token = (blinded, secret)"
    and "blind_sign (le_brs env) (generate (le_hash env) (le_khash env) (le_brs env) keys) ep blinded = Some bsig"
    and "unblind (le_brs env) bsig secret token = Inr sig"
    and "decode_credentials env (credentials hello) = Some (lvl, token, sig)"
    and "lvl = Free \<longrightarrow> accept_free env"
    and "abs_diff (unat ep) (unat now) \<le> 2"
    and "limit = (case lvl of Free \<Rightarrow> free_ratelimit env | Plus \<Rightarrow> plus_ratelimit env)"
    and "limit < 2 ^ 22 - 1"
  shows "exit_admit env now hello =
     Some (Inr (if broker_configured env then (lvl = Free, Limited ((limit + 1) * 1024) 102400)
                else (False, Unlimited)))"
proof (rule verified_token_admitted [OF _ assms(7,8) _ assms(10,11)])
  show "blind_verify (le_hash env) (le_khash env) (le_brs env)
      (case lvl of Free \<Rightarrow> exit_free_key env | Plus \<Rightarrow> exit_plus_key env) token sig = Some (Inr ())"
    using signed_token_verifies [OF assms(1,2,4), of "le_hash env" "le_khash env"] assms(3,5,6) by simp
  show "abs_diff (unat (epoch sig)) (unat now) \<le> 2"
    using assms(9) epoch_of_signed [OF assms(5,6)] by simp
qed

theorem signed_token_admitted_witness:
  "\<exists>root sig. exit_admit (example_link root (Plus, [9, 9], sig)) 302
     \<lparr>credentials = [5], crypt_hello = SharedSecretChallenge [0]\<rparr> = Some (Inr (False, Limited 30721024 102400))"
proof -
  have blind: "token_blind plain_brs 0 (public_der plain_brs (example_keys ! unat (300 :: u16))) [9, 9] = ([9, 9], ())"
    by (simp add: token_blind_def plain_brs_def)
  obtain bsig sig root where t: "blind_sign plain_brs (generate Plain_Hash Keyed_Hash plain_brs example_keys) 300 [9, 9] = Some bsig"
      "unblind plain_brs bsig () [9, 9] = Inr sig"
      "to_public_key (generate Plain_Hash Keyed_Hash plain_brs example_keys) = Some root"
    using signed_token_verifies [OF example_keys_ok blind, of Plain_Hash Keyed_Hash] by blast
  have "exit_admit (example_link root (Plus, [9, 9], sig)) 302
     \<lparr>credentials = [5], crypt_hello = SharedSecretChallenge [0]\<rparr> = Some (Inr (False, Limited 30721024 102400))"
    by (subst signed_token_admitted [where keys = example_keys and rnd = 0 and ep = 300 and token = "[9, 9]"
          and blinded = "[9, 9]" and secret = "()" and bsig = bsig and sig = sig and lvl = Plus and limit = 30000])
       (use t blind example_keys_ok in \<open>simp_all add: example_link_def abs_diff_def\<close>)
  then show ?thesis by blast
qed

text \<open>
  Over a pipe with a shared secret the client does not authenticate the exit by its key: any
  public key gives the same result, and an exit hello with any signature is accepted whose MAC
  of the shared secret is right, which everybody on that pipe can compute.
\<close>

theorem shared_secret_ignores_exit_key:
  assumes "decode_exit_hello env (code_exit_hello env eh) = Some eh"
    and "length (code_exit_hello env eh) < 2 ^ 32"
    and "eh_inner eh = SharedSecretResponse (b3_keyed (le_pc env) challenge real_ss)"
  shows "client_auth env pk creds (Some real_ss) challenge esk (write_prepend_length (code_exit_hello env eh) @ rest)
     = Inr (Raw_Pipe, rest)"
  using assms prepend_codec.rd_enc [OF assms(2)] by (simp add: client_auth_def)

theorem shared_secret_ignores_exit_key_witness:
  "let env = example_link (Plain_Hash []) no_token
       \<lparr>code_exit_hello := \<lambda>h. [3], decode_exit_hello := \<lambda>m. Some \<lparr>eh_inner = SharedSecretResponse [1, 2], eh_signature = []\<rparr>\<rparr>
   in client_auth env [99] [5] (Some [2]) [1] [0] (write_prepend_length [3]) = Inr (Raw_Pipe, [])"
  using shared_secret_ignores_exit_key [where pk = "[99]" and creds = "[5]" and challenge = "[1]" and real_ss = "[2]"
      and esk = "[0]" and rest = "[]" and eh = "\<lparr>eh_inner = SharedSecretResponse [1, 2], eh_signature = []\<rparr>"
      and env = "example_link (Plain_Hash []) no_token
       \<lparr>code_exit_hello := \<lambda>h. [3], decode_exit_hello := \<lambda>m. Some \<lparr>eh_inner = SharedSecretResponse [1, 2], eh_signature = []\<rparr>\<rparr>"]
  by (simp add: example_link_def plain_proto_def Let_def)

end
