(* ===== verification/Exit_Policy.thy ===== *)
theory Exit_Policy
  imports Prelude
begin

text \<open>
  What an exit does with a stream that a client opened: the destinations that are allowed
  (binaries/geph5-exit/src/allow.rs), name resolution with filters and cache (dns.rs), the choice
  between TCP, UDP and DNS in \<open>proxy_stream\<close> with the framing of UDP packets (proxy.rs), and
  the source address it dials from (ipv6.rs). Blocklists, DNS-over-HTTPS, the DNS packet format
  and the parser for socket addresses are parameters.
\<close>

unbundle bit_operations_syntax

section \<open>Addresses\<close>

type_synonym u128 = "128 word"

datatype IpAddr = V4 u32 | V6 u128

record SocketAddr =
  sa_ip :: IpAddr
  sa_port :: u16

definition octet :: "nat \<Rightarrow> u32 \<Rightarrow> byte" where
  "octet i a = ucast (drop_bit (24 - 8 * i) a)"

definition segment0 :: "u128 \<Rightarrow> u16" where
  "segment0 a = ucast (drop_bit 112 a)"

definition is_ipv4 :: "SocketAddr \<Rightarrow> bool" where
  "is_ipv4 a = (case sa_ip a of V4 _ \<Rightarrow> True | V6 _ \<Rightarrow> False)"

text \<open>The predicates of std::net that the code uses.\<close>

definition is_private :: "u32 \<Rightarrow> bool" where
  "is_private a \<longleftrightarrow> octet 0 a = 10 \<or> octet 0 a = 172 \<and> 16 \<le> octet 1 a \<and> octet 1 a \<le> 31 \<or>
     octet 0 a = 192 \<and> octet 1 a = 168"

definition is_loopback :: "u32 \<Rightarrow> bool" where
  "is_loopback a \<longleftrightarrow> octet 0 a = 127"

definition is_link_local :: "u32 \<Rightarrow> bool" where
  "is_link_local a \<longleftrightarrow> octet 0 a = 169 \<and> octet 1 a = 254"

definition is_broadcast :: "u32 \<Rightarrow> bool" where
  "is_broadcast a \<longleftrightarrow> a = 0xFFFFFFFF"

definition is_documentation :: "u32 \<Rightarrow> bool" where
  "is_documentation a \<longleftrightarrow>
     (octet 0 a, octet 1 a, octet 2 a) \<in> {(192, 0, 2), (198, 51, 100), (203, 0, 113)}"

definition is_unspecified :: "u32 \<Rightarrow> bool" where
  "is_unspecified a \<longleftrightarrow> a = 0"

section \<open>Allowed destinations\<close>

definition is_ipv4_shared_address :: "u32 \<Rightarrow> bool" where
  "is_ipv4_shared_address a \<longleftrightarrow> octet 0 a = 100 \<and> octet 1 a AND 0xC0 = 0x40"

definition is_ipv4_ietf_protocol_assignment :: "u32 \<Rightarrow> bool" where
  "is_ipv4_ietf_protocol_assignment a \<longleftrightarrow> octet 0 a = 192 \<and> octet 1 a = 0 \<and> octet 2 a = 0"

definition is_ipv4_reserved :: "u32 \<Rightarrow> bool" where
  "is_ipv4_reserved a \<longleftrightarrow> octet 0 a AND 240 = 240 \<and> \<not> is_broadcast a"

definition is_ipv4_benchmarking :: "u32 \<Rightarrow> bool" where
  "is_ipv4_benchmarking a \<longleftrightarrow> octet 0 a = 198 \<and> octet 1 a AND 0xFE = 18"

definition is_ipv6_unique_local :: "u128 \<Rightarrow> bool" where
  "is_ipv6_unique_local a \<longleftrightarrow> segment0 a AND 0xFE00 = 0xFC00"

definition is_ipv6_link_local :: "u128 \<Rightarrow> bool" where
  "is_ipv6_link_local a \<longleftrightarrow> segment0 a AND 0xFFC0 = 0xFE80"

definition is_ipv4_globally_routable :: "u32 \<Rightarrow> bool" where
  "is_ipv4_globally_routable a \<longleftrightarrow>
     \<not> is_private a \<and> \<not> is_loopback a \<and> \<not> is_link_local a \<and> \<not> is_broadcast a \<and>
     \<not> is_documentation a \<and> \<not> is_unspecified a \<and> \<not> is_ipv4_shared_address a \<and>
     \<not> is_ipv4_ietf_protocol_assignment a \<and> \<not> is_ipv4_reserved a \<and> \<not> is_ipv4_benchmarking a"

text \<open>\<open>is_loopback\<close>, \<open>is_unspecified\<close> and \<open>is_multicast\<close> of std::net::Ipv6Addr are written out.\<close>

definition is_ipv6_globally_routable :: "u128 \<Rightarrow> bool" where
  "is_ipv6_globally_routable a \<longleftrightarrow>
     \<not> a = 1 \<and> \<not> a = 0 \<and> \<not> segment0 a AND 0xFF00 = 0xFF00 \<and>
     \<not> is_ipv6_unique_local a \<and> \<not> is_ipv6_link_local a"

definition is_globally_routable :: "IpAddr \<Rightarrow> bool" where
  "is_globally_routable ip =
     (case ip of V4 a \<Rightarrow> is_ipv4_globally_routable a | V6 a \<Rightarrow> is_ipv6_globally_routable a)"

definition proxy_allowed :: "u16 list \<Rightarrow> SocketAddr \<Rightarrow> bool \<Rightarrow> bool" where
  "proxy_allowed free_port_whitelist addr is_free =
     (if is_free \<and> sa_port addr \<notin> set free_port_whitelist then False
      else is_globally_routable (sa_ip addr))"

subsection \<open>Against a table of networks\<close>

text \<open>Membership of an address of \<open>w\<close> bits in a network, as a shift by the host bits.\<close>

definition in_net :: "'a::len word \<Rightarrow> 'a word \<times> nat \<Rightarrow> bool" where
  "in_net a n = (drop_bit (LENGTH('a) - snd n) a = drop_bit (LENGTH('a) - snd n) (fst n))"

definition blocked_v4 :: "(u32 \<times> nat) list" where
  "blocked_v4 =
     [(0x00000000, 32), (0x0A000000, 8), (0x64400000, 10), (0x7F000000, 8), (0xA9FE0000, 16),
      (0xAC100000, 12), (0xC0000000, 24), (0xC0000200, 24), (0xC0A80000, 16), (0xC6120000, 15),
      (0xC6336400, 24), (0xCB007100, 24), (0xF0000000, 4)]"

definition blocked_v6 :: "(u128 \<times> nat) list" where
  "blocked_v6 =
     [(0, 128), (1, 128), (0xFC00 * 2 ^ 112, 7), (0xFE80 * 2 ^ 112, 10), (0xFF00 * 2 ^ 112, 8)]"

lemma unat_shift_right: "unat (drop_bit n a) = unat a div 2 ^ n" for a :: "'a::len word"
proof -
  have "unat (drop_bit n a) = drop_bit n (unat a)"
    by (simp add: unsigned_drop_bit_eq take_bit_nat_eq_self)
  then show ?thesis by (simp only: drop_bit_eq_div)
qed

lemma unat_octet: "unat (octet i a) = unat a div 2 ^ (24 - 8 * i) mod 256"
  by (simp add: octet_def unsigned_ucast_eq unat_shift_right take_bit_eq_mod)

lemma unat_segment0: "unat (segment0 a) = unat a div 2 ^ 112"
proof -
  have "unat a < 2 ^ 128" using unsigned_less [of a, where ?'a = nat] by simp
  then have "unat a div 2 ^ 112 < 65536" by (simp add: div_less_iff_less_mult)
  then show ?thesis
    by (simp add: segment0_def unsigned_ucast_eq unat_shift_right take_bit_eq_mod)
qed

text \<open>A comparison under a mask of leading ones compares the leading bits.\<close>

lemma masked_eq_iff:
  fixes x c :: "'a::len word"
  assumes "m = NOT (mask k)" and "unat c = q * 2 ^ k"
  shows "x AND m = c \<longleftrightarrow> unat x div 2 ^ k = q"
proof -
  have "x AND NOT (mask k) = push_bit k (drop_bit k x)"
    by (auto simp: bit_eq_iff bit_simps)
  moreover have "unat x div 2 ^ k * 2 ^ k < 2 ^ LENGTH('a)"
    by (rule le_less_trans [OF div_times_less_eq_dividend]) (rule unsigned_less)
  moreover have "unat (push_bit k y) = unat y * 2 ^ k mod 2 ^ LENGTH('a)" for y :: "'a word"
    by (simp only: unsigned_push_bit_eq) (simp only: push_bit_eq_mult take_bit_eq_mod)
  ultimately have "unat (x AND m) = unat x div 2 ^ k * 2 ^ k"
    by (simp only: assms(1) unat_shift_right mod_less)
  then show ?thesis by (simp add: word_unat_eq_iff assms(2))
qed

lemma in_net_iff: "in_net a (n, l) \<longleftrightarrow> unat a div 2 ^ (LENGTH('a) - l) = unat n div 2 ^ (LENGTH('a) - l)"
  for a :: "'a::len word"
  by (simp add: in_net_def word_unat_eq_iff unat_shift_right)

lemma div_digit: "(n :: nat) div 256 = x \<and> n mod 256 = y \<longleftrightarrow> n = x * 256 + y \<and> y < 256"
  by auto

lemma div_high_digit:
  "(n :: nat) div 256 = x \<and> n mod 256 div 64 = y \<longleftrightarrow> n div 64 = x * 4 + y \<and> y < 4"
  "n div 256 = x \<and> n mod 256 div 2 = y \<longleftrightarrow> n div 2 = x * 128 + y \<and> y < 128"
  "n div 256 = x \<and> n mod 256 div 16 = y \<longleftrightarrow> n div 16 = x * 16 + y \<and> y < 16"
proof -
  have r: "n mod (k * l) div k = n div k mod l" "n div (k * l) = n div k div l" if "0 < k" for k l
    using that by (simp_all add: mod_mult2_eq div_mult2_eq)
  have d: "u div l = x \<and> u mod l = y \<longleftrightarrow> u = x * l + y \<and> y < l" if "0 < l" for u l :: nat
    using that by auto
  show "n div 256 = x \<and> n mod 256 div 64 = y \<longleftrightarrow> n div 64 = x * 4 + y \<and> y < 4"
    using r [of 64 4] d [of 4 "n div 64"] by simp
  show "n div 256 = x \<and> n mod 256 div 2 = y \<longleftrightarrow> n div 2 = x * 128 + y \<and> y < 128"
    using r [of 2 128] d [of 128 "n div 2"] by simp
  show "n div 256 = x \<and> n mod 256 div 16 = y \<longleftrightarrow> n div 16 = x * 16 + y \<and> y < 16"
    using r [of 16 16] d [of 16 "n div 16"] by simp
qed

lemma octets_eq_iff:
  "octet 0 a = c \<longleftrightarrow> unat a div 2 ^ 24 = unat c"
  "octet 0 a = c \<and> octet (Suc 0) a = d \<longleftrightarrow> unat a div 2 ^ 16 = unat c * 256 + unat d"
  "octet 0 a = c \<and> octet (Suc 0) a = d \<and> octet 2 a = e \<longleftrightarrow>
     unat a div 2 ^ 8 = (unat c * 256 + unat d) * 256 + unat e"
proof -
  have "unat a < 2 ^ 32" using unsigned_less [of a, where ?'a = nat] by simp
  then have 0: "unat a div 2 ^ 24 < 256" by (simp add: div_less_iff_less_mult)
  have 1: "unat a div 2 ^ 24 = unat a div 2 ^ 16 div 256" "unat a div 2 ^ 16 = unat a div 2 ^ 8 div 256"
    by (simp_all add: div_mult2_eq [symmetric])
  have o: "unat (octet 0 a) = unat a div 2 ^ 24" "unat (octet (Suc 0) a) = unat a div 2 ^ 16 mod 256"
      "unat (octet 2 a) = unat a div 2 ^ 8 mod 256"
    using 0 by (simp_all add: unat_octet)
  show "octet 0 a = c \<longleftrightarrow> unat a div 2 ^ 24 = unat c" by (simp only: word_unat_eq_iff o)
  show t: "octet 0 a = c \<and> octet (Suc 0) a = d \<longleftrightarrow> unat a div 2 ^ 16 = unat c * 256 + unat d"
    by (simp only: word_unat_eq_iff o 1(1) div_digit unat_byte_less simp_thms)
  show "octet 0 a = c \<and> octet (Suc 0) a = d \<and> octet 2 a = e \<longleftrightarrow>
     unat a div 2 ^ 8 = (unat c * 256 + unat d) * 256 + unat e"
    by (simp only: conj_assoc [symmetric] t) (simp only: word_unat_eq_iff o 1(2) div_digit unat_byte_less simp_thms)
qed

text \<open>Each test of the code, as membership in networks.\<close>

lemma v4_tests_net:
  "is_loopback a \<longleftrightarrow> in_net a (0x7F000000, 8)"
  "is_link_local a \<longleftrightarrow> in_net a (0xA9FE0000, 16)"
  "is_unspecified a \<longleftrightarrow> in_net a (0, 32)"
  "is_ipv4_ietf_protocol_assignment a \<longleftrightarrow> in_net a (0xC0000000, 24)"
  "is_documentation a \<longleftrightarrow> in_net a (0xC0000200, 24) \<or> in_net a (0xC6336400, 24) \<or> in_net a (0xCB007100, 24)"
  by (simp_all add: is_loopback_def is_unspecified_def in_net_iff octets_eq_iff(1) word_unat_eq_iff [of a 0])
    (simp_all add: is_link_local_def is_ipv4_ietf_protocol_assignment_def is_documentation_def
      in_net_iff octets_eq_iff(2,3))

lemma v4_range_tests_net:
  "is_ipv4_shared_address a \<longleftrightarrow> in_net a (0x64400000, 10)"
  "is_ipv4_benchmarking a \<longleftrightarrow> in_net a (0xC6120000, 15)"
  "is_broadcast a \<or> is_ipv4_reserved a \<longleftrightarrow> in_net a (0xF0000000, 4)"
  "is_private a \<longleftrightarrow> in_net a (0x0A000000, 8) \<or> in_net a (0xAC100000, 12) \<or> in_net a (0xC0A80000, 16)"
proof -
  define q where "q = unat a div 65536"
  have "unat a < 2 ^ 32" using unsigned_less [of a, where ?'a = nat] by simp
  then have b: "q < 65536" by (simp add: q_def div_less_iff_less_mult)
  have d: "unat a div 65536 = q" "unat a div 16777216 = q div 256" "unat a div 4194304 = q div 64"
      "unat a div 131072 = q div 2" "unat a div 1048576 = q div 16" "unat a div 268435456 = q div 4096"
    by (simp_all add: q_def div_mult2_eq [symmetric])
  have o: "unat (octet 0 a) = q div 256" "unat (octet (Suc 0) a) = q mod 256"
    using b by (simp_all add: unat_octet d)
  have m: "octet (Suc 0) a AND 0xC0 = 0x40 \<longleftrightarrow> unat (octet (Suc 0) a) div 2 ^ 6 = 1"
      "octet (Suc 0) a AND 0xFE = 18 \<longleftrightarrow> unat (octet (Suc 0) a) div 2 ^ 1 = 9"
      "octet 0 a AND 240 = 240 \<longleftrightarrow> unat (octet 0 a) div 2 ^ 4 = 15"
    by (rule masked_eq_iff; simp add: mask_eq_exp_minus_1)+
  note eq = word_unat_eq_iff [of "octet 0 a"] word_unat_eq_iff [of "octet (Suc 0) a"]
  show "is_ipv4_shared_address a \<longleftrightarrow> in_net a (0x64400000, 10)"
    using div_high_digit(1) [of q 100 1] by (simp add: is_ipv4_shared_address_def m in_net_iff eq o d)
  show "is_ipv4_benchmarking a \<longleftrightarrow> in_net a (0xC6120000, 15)"
    using div_high_digit(2) [of q 198 9] by (simp add: is_ipv4_benchmarking_def m in_net_iff eq o d)
  show "is_broadcast a \<or> is_ipv4_reserved a \<longleftrightarrow> in_net a (0xF0000000, 4)"
    using div_mult2_eq [of q 256 16] by (auto simp: is_ipv4_reserved_def m in_net_iff o d) (simp add: is_broadcast_def flip: d(6))
  have le16: "16 \<le> y \<and> y \<le> 31 \<longleftrightarrow> y div 16 = 1" for y :: nat by auto
  show "is_private a \<longleftrightarrow> in_net a (0x0A000000, 8) \<or> in_net a (0xAC100000, 12) \<or> in_net a (0xC0A80000, 16)"
    using div_high_digit(3) [of q 172 1] div_digit [of q 192 168] le16
    by (simp add: is_private_def in_net_iff eq word_le_nat_alt o d)
qed

lemma v6_tests_net:
  "is_ipv6_unique_local a \<longleftrightarrow> in_net a (0xFC00 * 2 ^ 112, 7)"
  "is_ipv6_link_local a \<longleftrightarrow> in_net a (0xFE80 * 2 ^ 112, 10)"
  "segment0 a AND 0xFF00 = 0xFF00 \<longleftrightarrow> in_net a (0xFF00 * 2 ^ 112, 8)"
proof -
  have m: "segment0 a AND 0xFE00 = 0xFC00 \<longleftrightarrow> unat (segment0 a) div 2 ^ 9 = 126"
      "segment0 a AND 0xFFC0 = 0xFE80 \<longleftrightarrow> unat (segment0 a) div 2 ^ 6 = 1018"
      "segment0 a AND 0xFF00 = 0xFF00 \<longleftrightarrow> unat (segment0 a) div 2 ^ 8 = 255"
    by (rule masked_eq_iff; simp add: mask_eq_exp_minus_1)+
  show "is_ipv6_unique_local a \<longleftrightarrow> in_net a (0xFC00 * 2 ^ 112, 7)"
      "is_ipv6_link_local a \<longleftrightarrow> in_net a (0xFE80 * 2 ^ 112, 10)"
      "segment0 a AND 0xFF00 = 0xFF00 \<longleftrightarrow> in_net a (0xFF00 * 2 ^ 112, 8)"
    by (simp_all only: is_ipv6_unique_local_def is_ipv6_link_local_def m in_net_iff)
       (simp_all add: unat_segment0 div_mult2_eq [symmetric])
qed

lemma v4_table: "is_ipv4_globally_routable a \<longleftrightarrow> \<not> list_ex (in_net a) blocked_v4"
proof -
  have "is_ipv4_globally_routable a \<longleftrightarrow>
      \<not> (is_private a \<or> is_loopback a \<or> is_link_local a \<or> is_documentation a \<or> is_unspecified a \<or>
         is_ipv4_shared_address a \<or> is_ipv4_ietf_protocol_assignment a \<or> is_ipv4_benchmarking a \<or>
         (is_broadcast a \<or> is_ipv4_reserved a))"
    by (auto simp: is_ipv4_globally_routable_def)
  then show ?thesis
    by (simp only: blocked_v4_def v4_tests_net v4_range_tests_net list_ex_Nil_iff list_ex_Cons_iff) blast
qed

lemma v6_table: "is_ipv6_globally_routable a \<longleftrightarrow> \<not> list_ex (in_net a) blocked_v6"
proof -
  have "a = x \<longleftrightarrow> in_net a (x, 128)" for x by (simp add: in_net_def)
  then show ?thesis
    by (simp only: is_ipv6_globally_routable_def blocked_v6_def v6_tests_net list_ex_Nil_iff list_ex_Cons_iff) blast
qed

text \<open>
  C27: The tests on octets and segments refuse exactly the addresses of a table of networks: for
  IPv4 the address 0.0.0.0, the private, shared, loopback, link-local, protocol, documentation
  and benchmarking networks and everything from 240.0.0.0 on, for IPv6 the unspecified and
  loopback addresses, unique-local, link-local and multicast networks. IPv4-mapped IPv6
  addresses and IPv4 multicast are in none of them.
\<close>

theorem routable_iff_table:
  "is_globally_routable ip \<longleftrightarrow>
     (case ip of V4 a \<Rightarrow> \<not> list_ex (in_net a) blocked_v4 | V6 a \<Rightarrow> \<not> list_ex (in_net a) blocked_v6)"
  by (cases ip) (simp_all add: is_globally_routable_def v4_table v6_table)

lemma mapped_loopback_routable: "is_globally_routable (V6 0xFFFF7F000001)"
  by (simp add: is_globally_routable_def v6_table blocked_v6_def in_net_iff)

section \<open>Name resolution\<close>

record FilterOptions =
  nsfw :: bool
  ads :: bool

datatype RData = A u32 | AAAA u128 | OtherData

record dns_env =
  parse_sockaddr :: "string \<Rightarrow> SocketAddr option"
  nsfw_list :: "string + (string \<Rightarrow> bool)"
  ads_list :: "string + (string \<Rightarrow> bool)"
  packet_questions :: "bytes \<Rightarrow> string list option"
  packet_answers :: "bytes \<Rightarrow> string + RData list"
  build_query :: "string \<Rightarrow> bool \<Rightarrow> string + bytes"
  doh :: "bytes \<Rightarrow> string + bytes"

definition check_host :: "dns_env \<Rightarrow> FilterOptions \<Rightarrow> string \<Rightarrow> string + unit" where
  "check_host env f name =
     result_bind (if nsfw f then nsfw_list env else Inr (\<lambda>_. False)) (\<lambda>nsfw_match.
       if nsfw_match name then Inl ''blocking NSFW domain''
       else result_bind (if ads f then ads_list env else Inr (\<lambda>_. False)) (\<lambda>ads_match.
         if ads_match name then Inl ''blocking ads domain'' else Inr ()))"

fun check_hosts :: "dns_env \<Rightarrow> FilterOptions \<Rightarrow> string list \<Rightarrow> string + unit" where
  "check_hosts env f [] = Inr ()"
| "check_hosts env f (q # qs) = result_bind (check_host env f q) (\<lambda>_. check_hosts env f qs)"

definition raw_dns_respond :: "dns_env \<Rightarrow> bytes \<Rightarrow> FilterOptions \<Rightarrow> string + bytes" where
  "raw_dns_respond env req f =
     result_bind (case packet_questions env req of Some qs \<Rightarrow> check_hosts env f qs | None \<Rightarrow> Inr ())
       (\<lambda>_. doh env req)"

fun answer_addrs :: "RData list \<Rightarrow> u16 \<Rightarrow> SocketAddr list" where
  "answer_addrs [] p = []"
| "answer_addrs (A a # rs) p = \<lparr>sa_ip = V4 a, sa_port = p\<rparr> # answer_addrs rs p"
| "answer_addrs (AAAA a # rs) p = \<lparr>sa_ip = V6 a, sa_port = p\<rparr> # answer_addrs rs p"
| "answer_addrs (OtherData # rs) p = answer_addrs rs p"

definition parse_dns_response :: "dns_env \<Rightarrow> bytes \<Rightarrow> u16 \<Rightarrow> string + SocketAddr list" where
  "parse_dns_response env data p = result_bind (packet_answers env data) (\<lambda>rs. Inr (answer_addrs rs p))"

text \<open>
  The cache of resolved names, with the second of insertion; entries live for 240 seconds. Both
  queries are sent; of the answers only the one to the A query is used.
\<close>

type_synonym dns_cache = "string \<rightharpoonup> SocketAddr list \<times> nat"

definition lookup_addrs :: "dns_env \<Rightarrow> string \<Rightarrow> u16 \<Rightarrow> FilterOptions \<Rightarrow> string + SocketAddr list" where
  "lookup_addrs env host p f =
     result_bind (build_query env host False) (\<lambda>packet.
     result_bind (raw_dns_respond env packet f) (\<lambda>resp. parse_dns_response env resp p))"

definition cached_lookup ::
    "dns_env \<Rightarrow> nat \<Rightarrow> string \<Rightarrow> string \<Rightarrow> u16 \<Rightarrow> FilterOptions \<Rightarrow> dns_cache \<Rightarrow> (string + SocketAddr list) \<times> dns_cache" where
  "cached_lookup env now name host p f cache =
     (case cache name of
        Some (addrs, t) \<Rightarrow>
          if now < t + 240 then (Inr addrs, cache)
          else (case lookup_addrs env host p f of
                  Inl e \<Rightarrow> (Inl e, cache(name := None))
                | Inr addrs' \<Rightarrow> (Inr addrs', cache(name \<mapsto> (addrs', now))))
      | None \<Rightarrow> (case lookup_addrs env host p f of
                  Inl e \<Rightarrow> (Inl e, cache)
                | Inr addrs' \<Rightarrow> (Inr addrs', cache(name \<mapsto> (addrs', now)))))"

definition dns_resolve ::
    "dns_env \<Rightarrow> nat \<Rightarrow> string \<Rightarrow> FilterOptions \<Rightarrow> dns_cache \<Rightarrow> (string + SocketAddr list) \<times> dns_cache" where
  "dns_resolve env now name f cache =
     (case parse_sockaddr env name of
        Some addr \<Rightarrow> (Inr [addr], cache)
      | None \<Rightarrow>
          (case rsplit_once CHR '':'' name of
             None \<Rightarrow> (Inl ''could not split into host:port'', cache)
           | Some (host, port_str) \<Rightarrow>
               (case parse_u16 port_str of
                  None \<Rightarrow> (Inl ''invalid port'', cache)
                | Some p \<Rightarrow>
                    (case check_host env f host of
                       Inl e \<Rightarrow> (Inl e, cache)
                     | Inr _ \<Rightarrow>
                         (case cached_lookup env now name host p f cache of
                            (Inl e, cache') \<Rightarrow> (Inl e, cache')
                          | (Inr addrs, cache') \<Rightarrow>
                              (if addrs = [] then Inl ''no addrs'' else Inr addrs, cache'))))))"

section \<open>Streams\<close>

text \<open>
  What \<open>proxy_stream\<close> decides to do with a stream of this metadata: the addresses a TCP
  connection is tried on, the address UDP packets go to, or answering DNS packets itself.
\<close>

datatype proxy_action = Proxy_Tcp "SocketAddr list" | Proxy_Udp SocketAddr | Proxy_Dns

definition stream_target :: "string \<Rightarrow> string \<times> string" where
  "stream_target dest =
     (case split_once CHR ''$'' dest of Some (protocol, host) \<Rightarrow> (protocol, host) | None \<Rightarrow> (''tcp'', dest))"

definition choose_action :: "string \<Rightarrow> SocketAddr list \<Rightarrow> string + proxy_action" where
  "choose_action protocol dest_addrs =
     (if protocol = ''tcp'' then Inr (Proxy_Tcp dest_addrs)
      else if protocol = ''udp'' then
        (case find is_ipv4 dest_addrs of
           None \<Rightarrow> Inl ''UDP only supports ipv4 for now''
         | Some addr \<Rightarrow>
             if sa_port addr = 53 then Inr Proxy_Dns
             else if sa_port addr = 443 then Inl ''special-case banning QUIC to improve traffic management''
             else Inr (Proxy_Udp addr))
      else Inl (''unknown protocol '' @ protocol))"

definition proxy_stream ::
    "dns_env \<Rightarrow> u16 list \<Rightarrow> nat \<Rightarrow> FilterOptions \<Rightarrow> string \<Rightarrow> bool \<Rightarrow> dns_cache \<Rightarrow> (string + proxy_action) \<times> dns_cache" where
  "proxy_stream env whitelist now f dest is_free cache =
     (let (protocol, dest_host) = stream_target dest in
      case dns_resolve env now dest_host f cache of
        (Inl e, cache') \<Rightarrow> (Inl e, cache')
      | (Inr dest_addrs, cache') \<Rightarrow>
          (if \<not> list_all (\<lambda>a. proxy_allowed whitelist a is_free) dest_addrs
           then Inl (''Proxying to '' @ dest_host @ '' is not allowed'')
           else choose_action protocol dest_addrs, cache'))"

fun contacted :: "proxy_action \<Rightarrow> SocketAddr list" where
  "contacted (Proxy_Tcp addrs) = addrs"
| "contacted (Proxy_Udp a) = [a]"
| "contacted Proxy_Dns = []"

lemma choose_action_contacted:
  "choose_action protocol addrs = Inr act \<Longrightarrow> set (contacted act) \<subseteq> set addrs"
  by (auto simp: choose_action_def find_Some_iff split: if_splits option.splits)

lemma choose_action_tcp:
  "choose_action protocol addrs = Inr (Proxy_Tcp as) \<Longrightarrow> as = addrs"
  by (auto simp: choose_action_def split: if_splits option.splits)

lemma dns_resolve_Inr:
  assumes "dns_resolve env now name f cache = (Inr addrs, cache')"
  shows "addrs \<noteq> []"
    and "parse_sockaddr env name = None \<Longrightarrow>
      \<exists>host port. rsplit_once CHR '':'' name = Some (host, port) \<and> check_host env f host = Inr ()"
  using assms by (auto simp: dns_resolve_def split: option.splits sum.splits prod.splits if_splits)

text \<open>
  C24: An exit contacts only allowed destinations. Whatever names resolve to and whatever the cache
  of resolved names contains, every address a stream is connected to is globally routable and,
  for a Free user, has a port of the whitelist; a TCP stream has at least one address to try;
  and a name that is not an address literal has passed the user's filters at this very request.
\<close>

theorem proxy_stream_safe:
  assumes "proxy_stream env whitelist now f dest is_free cache = (Inr act, cache')"
  shows "list_all (\<lambda>a. is_globally_routable (sa_ip a) \<and> (\<not> is_free \<or> sa_port a \<in> set whitelist)) (contacted act) \<and>
     act \<noteq> Proxy_Tcp [] \<and>
     (parse_sockaddr env (snd (stream_target dest)) = None \<longrightarrow>
       (\<exists>host port. rsplit_once CHR '':'' (snd (stream_target dest)) = Some (host, port) \<and>
          check_host env f host = Inr ()))"
proof -
  obtain protocol host where t: "stream_target dest = (protocol, host)" by force
  from assms t obtain addrs where a: "dns_resolve env now host f cache = (Inr addrs, cache')"
      "list_all (\<lambda>a. proxy_allowed whitelist a is_free) addrs" "choose_action protocol addrs = Inr act"
    by (auto simp: proxy_stream_def split: prod.splits sum.splits if_splits)
  have "\<forall>a \<in> set (contacted act). proxy_allowed whitelist a is_free"
    using choose_action_contacted [OF a(3)] a(2) by (auto simp: list_all_iff)
  then have "list_all (\<lambda>a. is_globally_routable (sa_ip a) \<and> (\<not> is_free \<or> sa_port a \<in> set whitelist)) (contacted act)"
    by (auto simp: list_all_iff proxy_allowed_def split: if_splits)
  moreover have "act \<noteq> Proxy_Tcp []"
    using choose_action_tcp a(3) dns_resolve_Inr(1) [OF a(1)] by blast
  ultimately show ?thesis using dns_resolve_Inr(2) [OF a(1)] t by auto
qed

text \<open>A resolver that knows one name, of address 1.1.1.1.\<close>

definition example_dns :: dns_env where
  "example_dns =
     \<lparr>parse_sockaddr = \<lambda>_. None, nsfw_list = Inr (\<lambda>n. n = ''bad''), ads_list = Inl ''no list'',
      packet_questions = \<lambda>_. None, packet_answers = \<lambda>_. Inr [OtherData, A 0x01010101],
      build_query = \<lambda>_ _. Inr [1], doh = Inr\<rparr>"

theorem proxy_stream_safe_witness:
  "\<exists>act cache'. proxy_stream example_dns [80, 443] 7 \<lparr>nsfw = True, ads = False\<rparr> ''tcp$one:443'' True Map.empty = (Inr act, cache') \<and>
     list_all (\<lambda>a. is_globally_routable (sa_ip a) \<and> (\<not> True \<or> sa_port a \<in> set [80, 443])) (contacted act) \<and> act \<noteq> Proxy_Tcp [] \<and>
     (\<exists>host port. rsplit_once CHR '':'' ''one:443'' = Some (host, port) \<and>
        check_host example_dns \<lparr>nsfw = True, ads = False\<rparr> host = Inr ())"
proof -
  let ?f = "\<lparr>nsfw = True, ads = False\<rparr>"
  have t: "stream_target ''tcp$one:443'' = (''tcp'', ''one:443'')" by (simp add: stream_target_def)
  have r: "rsplit_once CHR '':'' ''one:443'' = Some (''one'', ''443'')" "parse_u16 ''443'' = Some 443"
    by (simp_all add: rsplit_once_def parse_u16_def parse_uint_def is_digit_def digits_value_def Let_def)
  have p: "proxy_allowed [80, 443] \<lparr>sa_ip = V4 0x01010101, sa_port = 443\<rparr> True"
    by (simp add: proxy_allowed_def is_globally_routable_def v4_table blocked_v4_def in_net_iff)
  have "proxy_stream example_dns [80, 443] 7 ?f ''tcp$one:443'' True Map.empty =
      (Inr (Proxy_Tcp [\<lparr>sa_ip = V4 0x01010101, sa_port = 443\<rparr>]),
       [''one:443'' \<mapsto> ([\<lparr>sa_ip = V4 0x01010101, sa_port = 443\<rparr>], 7)])"
    using p by (simp add: proxy_stream_def t dns_resolve_def r check_host_def cached_lookup_def lookup_addrs_def
        raw_dns_respond_def parse_dns_response_def example_dns_def choose_action_def)
  from proxy_stream_safe [OF this] this show ?thesis by (auto simp: t example_dns_def)
qed

section \<open>UDP packets on a stream\<close>

text \<open>
  A packet on a stream is its length in two bytes and its bytes, in both directions; \<open>udp_frame\<close>
  is what the client's up loop and the exit's down loop write, \<open>udp_read\<close> what the other side
  reads. The exit receives a datagram into 8190 bytes.
\<close>

definition udp_frame :: "bytes \<Rightarrow> bytes" where
  "udp_frame p = u16_le (word_of_nat (length p)) @ p"

definition udp_read :: "bytes \<Rightarrow> io_error + bytes \<times> bytes" where
  "udp_read inp =
     result_bind (read_exact 2 inp) (\<lambda>(len_buf, rest). read_exact (unat (u16_of_le len_buf)) rest)"

definition udp_down :: "bytes \<Rightarrow> bytes" where
  "udp_down datagram = udp_frame (take 8190 datagram)"

lemma udp_read_header:
  "length p < 2 ^ 16 \<Longrightarrow> udp_read (u16_le (word_of_nat (length p)) @ rest) = read_exact (length p) rest"
  by (simp add: udp_read_def codec_simps unat_of_nat)

interpretation udp_codec: stream_codec udp_frame udp_read "\<lambda>p. length p < 2 ^ 16"
proof
  fix p rest :: bytes
  assume "length p < 2 ^ 16"
  then show "udp_read (udp_frame p @ rest) = Inr (p, rest)"
    using udp_read_header [of p "p @ rest"] by (simp add: udp_frame_def)
next
  fix p :: bytes and n
  assume p: "length p < 2 ^ 16" and n: "n < length (udp_frame p)"
  show "udp_read (take n (udp_frame p)) = Inl eof_error"
  proof (cases "n < 2")
    case True
    then show ?thesis by (simp add: udp_read_def)
  next
    case False
    then have "take n (udp_frame p) = u16_le (word_of_nat (length p)) @ take (n - 2) p"
      by (simp add: udp_frame_def)
    with p n False show ?thesis using udp_read_header [of p "take (n - 2) p"] by (auto simp: udp_frame_def)
  qed
qed

text \<open>
  UDP packets keep their boundaries on a stream. The packets one side writes are read by the
  other as the same packets in the same order; of a datagram that the exit receives, that is
  its first 8190 bytes.
\<close>

theorem udp_packets_preserved:
  assumes "list_all (\<lambda>p. length p < 2 ^ 16) packets"
  shows "read_many udp_read (length packets) (concat (map udp_frame packets) @ rest) = Inr (packets, rest) \<and>
     read_many udp_read (length datagrams) (concat (map udp_down datagrams) @ rest)
       = Inr (map (take 8190) datagrams, rest)"
proof -
  have "concat (map udp_down datagrams) = concat (map udp_frame (map (take 8190) datagrams))"
    by (simp add: udp_down_def [abs_def] comp_def)
  moreover have "\<forall>p \<in> set (map (take 8190) datagrams). length p < 2 ^ 16" by auto
  ultimately show ?thesis
    using assms udp_codec.read_many_encoded [of packets rest]
      udp_codec.read_many_encoded [of "map (take 8190) datagrams" rest]
    by (simp add: list_all_iff)
qed

theorem udp_packets_preserved_witness:
  "read_many udp_read (length [[1, 2 :: byte], []]) (concat (map udp_frame [[1, 2], []]) @ [9]) = Inr ([[1, 2], []], [9]) \<and>
   read_many udp_read (length [replicate 9000 (0 :: byte)]) (concat (map udp_down [replicate 9000 0]) @ [9])
     = Inr (map (take 8190) [replicate 9000 0], [9])"
  by (rule udp_packets_preserved) simp

section \<open>The source address\<close>

text \<open>
  A random address of the exit's IPv6 subnet; \<open>rnd\<close> is the number drawn from 0 to the largest
  offset. A shift by 128 bits, that is a prefix of length 0, panics.
\<close>

definition random_ipv6_in_net :: "u128 \<times> nat \<Rightarrow> u128 \<Rightarrow> u128 option" where
  "random_ipv6_in_net net rnd =
     (let host_bits = 128 - snd net; network = push_bit host_bits (drop_bit host_bits (fst net))
      in if host_bits = 0 then Some network
         else if host_bits = 128 then None
         else if unat network + unat rnd < 2 ^ 128 then Some (network + rnd) else None)"

text \<open>The address drawn lies in the subnet, and adding the offset does not overflow.\<close>

lemma random_ipv6_in_subnet:
  assumes "0 < l" and "l \<le> 128" and "unat rnd < 2 ^ (128 - l)"
  shows "\<exists>a. random_ipv6_in_net (n, l) rnd = Some a \<and> in_net a (n, l)"
proof -
  define k where "k = 128 - l"
  have k: "k < 128" using assms(1) by (simp add: k_def)
  define net where "net = push_bit k (drop_bit k n)"
  have nb: "unat n < 2 ^ 128" using unsigned_less [of n, where ?'a = nat] by simp
  then have fit: "unat n div 2 ^ k * 2 ^ k < 2 ^ 128"
    by (rule le_less_trans [OF div_times_less_eq_dividend])
  have "unat net = unat (drop_bit k n) * 2 ^ k mod 2 ^ 128"
    unfolding net_def by (simp only: unsigned_push_bit_eq) (simp add: push_bit_eq_mult take_bit_eq_mod)
  then have u: "unat net = unat n div 2 ^ k * 2 ^ k" using fit by (simp only: unat_shift_right mod_less)
  have lt: "unat n div 2 ^ k < 2 ^ (128 - k)"
    using nb k by (simp add: div_less_iff_less_mult flip: power_add)
  have "unat n div 2 ^ k * 2 ^ k + 2 ^ k = (unat n div 2 ^ k + 1) * 2 ^ k" by simp
  also have "\<dots> \<le> 2 ^ (128 - k) * 2 ^ k" using lt by (intro mult_le_mono1) simp
  also have "\<dots> = 2 ^ 128" using k by (simp flip: power_add)
  finally have s: "unat net + unat rnd < 2 ^ 128" using assms(3) u by (simp add: k_def)
  then have "unat (net + rnd) = unat net + unat rnd" by (subst unat_add_lem [symmetric]) simp
  then have "unat (net + rnd) div 2 ^ k = unat n div 2 ^ k"
    using assms(3) by (simp add: u k_def div_add1_eq)
  then show ?thesis
    using s k assms(3) u
    by (auto simp: random_ipv6_in_net_def Let_def in_net_iff simp flip: k_def net_def)
qed

end
