(* ===== verification/Asn.thy ===== *)
theory Asn
  imports Exit_Policy
begin

text \<open>
  Networks of addresses: the table of autonomous systems that exits and bridges download
  (binaries/geph5-exit/src/asn.rs, binaries/geph5-bridge/src/asn_count.rs), the lookup of an
  address in it, and the per-network byte counters of a bridge. The download with its
  decompression is a parameter: the text of the table, or an error.
\<close>

section \<open>The table\<close>

text \<open>
  A BTreeMap is the list of its entries in ascending order of keys.
\<close>

type_synonym ('k, 'v) btree_map = "('k \<times> 'v) list"

fun btree_insert :: "'k::linorder \<Rightarrow> 'v \<Rightarrow> ('k, 'v) btree_map \<Rightarrow> ('k, 'v) btree_map" where
  "btree_insert k v [] = [(k, v)]"
| "btree_insert k v ((k', v') # m) =
     (if k < k' then (k, v) # (k', v') # m
      else if k = k' then (k, v) # m
      else (k', v') # btree_insert k v m)"

text \<open>The first entry of \<open>range(k..)\<close>.\<close>

definition btree_first_from :: "'k::linorder \<Rightarrow> ('k, 'v) btree_map \<Rightarrow> ('k \<times> 'v) option" where
  "btree_first_from k m = find (\<lambda>e. k \<le> fst e) m"

definition btree_ok :: "('k::linorder, 'v) btree_map \<Rightarrow> bool" where
  "btree_ok m = sorted_wrt (<) (map fst m)"

lemma set_btree_insert_keys: "fst ` set (btree_insert k v m) = insert k (fst ` set m)"
  by (induction k v m rule: btree_insert.induct) auto

lemma btree_insert_ok: "btree_ok m \<Longrightarrow> btree_ok (btree_insert k v m)"
proof (induction k v m rule: btree_insert.induct)
  case (2 k v k' v' m)
  have "\<forall>x \<in> fst ` set (btree_insert k v m). x = k \<or> x \<in> fst ` set m"
    by (simp add: set_btree_insert_keys)
  with 2 show ?case by (force simp: btree_ok_def)
qed (simp add: btree_ok_def)

lemma map_of_btree_insert:
  "btree_ok m \<Longrightarrow> map_of (btree_insert k v m) = (map_of m)(k \<mapsto> v)"
proof (induction k v m rule: btree_insert.induct)
  case (2 k v k' v' m)
  then show ?case by (auto simp: btree_ok_def fun_eq_iff)
qed simp

lemma btree_first_from_least:
  assumes "btree_ok m" and "map_of m k = Some v" and "a \<le> k"
    and least: "\<And>k'. k' \<in> fst ` set m \<Longrightarrow> a \<le> k' \<Longrightarrow> k \<le> k'"
  shows "btree_first_from a m = Some (k, v)"
  using assms
proof (induction m)
  case (Cons e m)
  obtain k' v' where e: "e = (k', v')" by (cases e)
  show ?case
  proof (cases "a \<le> k'")
    case True
    then have "k \<le> k'" using Cons.prems(4) [of k'] by (simp add: e)
    moreover have "k' \<le> k"
      using Cons.prems(1,2) by (force simp: e btree_ok_def split: if_splits dest: map_of_SomeD)
    ultimately show ?thesis using Cons.prems(2) True by (simp add: e btree_first_from_def)
  next
    case False
    then have "k \<noteq> k'" using Cons.prems(3) by auto
    with Cons False show ?thesis by (simp add: e btree_first_from_def btree_ok_def)
  qed
qed simp

type_synonym asn_map = "(u32, u32 \<times> string) btree_map"

definition parse_u32 :: "string \<Rightarrow> string + u32" where
  "parse_u32 s = ok_or ''invalid digit found in string'' (map_option word_of_nat (parse_uint 32 s))"

text \<open>\<open>BufRead::lines\<close>: a last line without a newline counts, and \<open>\r\n\<close> ends a line too.\<close>

definition tab :: char where
  "tab = CHR 0x09"

definition strip_cr :: "string \<Rightarrow> string" where
  "strip_cr s = (if s \<noteq> [] \<and> last s = CHR 0x0D then butlast s else s)"

definition text_lines :: "string \<Rightarrow> string list" where
  "text_lines s = (let ps = split_on newline s
     in map strip_cr (butlast ps) @ (if last ps = [] then [] else [last ps]))"

definition asn_line :: "string \<Rightarrow> asn_map \<Rightarrow> string + asn_map" where
  "asn_line line m =
     (let fields = split_on tab line
      in if 4 \<le> length fields then
           result_bind (parse_u32 (fields ! 1)) (\<lambda>range_end.
           result_bind (parse_u32 (fields ! 2)) (\<lambda>as_number.
             Inr (btree_insert range_end (as_number, fields ! 3) m)))
         else Inr m)"

fun asn_lines :: "string list \<Rightarrow> asn_map \<Rightarrow> string + asn_map" where
  "asn_lines [] m = Inr m"
| "asn_lines (l # ls) m = result_bind (asn_line l m) (asn_lines ls)"

definition get_ip_to_asn_map :: "string + string \<Rightarrow> string + asn_map" where
  "get_ip_to_asn_map download = result_bind download (\<lambda>txt. asn_lines (text_lines txt) [])"

text \<open>
  The cached table: kept for 86400 seconds after the download that made it; a failed download is
  not kept.
\<close>

type_synonym asn_cache = "(asn_map \<times> nat) option"

definition cached_asn_map :: "nat \<Rightarrow> string + string \<Rightarrow> asn_cache \<Rightarrow> (string + asn_map) \<times> asn_cache" where
  "cached_asn_map now download c =
     (case c of
        Some (m, t) \<Rightarrow>
          if now < t + 86400 then (Inr m, c)
          else (case get_ip_to_asn_map download of Inl e \<Rightarrow> (Inl e, None) | Inr m' \<Rightarrow> (Inr m', Some (m', now)))
      | None \<Rightarrow> (case get_ip_to_asn_map download of Inl e \<Rightarrow> (Inl e, None) | Inr m' \<Rightarrow> (Inr m', Some (m', now))))"

definition asn_entry :: "asn_map \<Rightarrow> u32 \<Rightarrow> string + u32 \<times> string" where
  "asn_entry m ip = ok_or ''ASN lookup failed'' (map_option snd (btree_first_from ip m))"

definition ip_to_asn_country :: "nat \<Rightarrow> string + string \<Rightarrow> u32 \<Rightarrow> asn_cache \<Rightarrow> (string + u32 \<times> string) \<times> asn_cache" where
  "ip_to_asn_country now download ip c =
     (case cached_asn_map now download c of
        (Inl e, c') \<Rightarrow> (Inl e, c')
      | (Inr m, c') \<Rightarrow> (asn_entry m ip, c'))"

subsection \<open>Against the published table\<close>

text \<open>
  A row of the published file: first and last address, number, country code and the name of the
  network. The ranges of a table do not overlap.
\<close>

record asn_row =
  range_start :: u32
  range_end :: u32
  as_number :: u32
  country_code :: string
  as_name :: string

definition u32_str :: "u32 \<Rightarrow> string" where
  "u32_str n = nat_str (unat n)"

definition row_text :: "asn_row \<Rightarrow> string" where
  "row_text r =
     u32_str (range_start r) @ tab # u32_str (range_end r) @ tab # u32_str (as_number r) @
     tab # country_code r @ tab # as_name r"

definition table_text :: "asn_row list \<Rightarrow> string" where
  "table_text rows = concat (map (\<lambda>r. row_text r @ [newline]) rows)"

definition clean_field :: "string \<Rightarrow> bool" where
  "clean_field s \<longleftrightarrow> list_all (\<lambda>c. c \<noteq> tab \<and> c \<noteq> newline \<and> c \<noteq> CHR 0x0D) s"

definition row_ok :: "asn_row \<Rightarrow> bool" where
  "row_ok r \<longleftrightarrow> clean_field (country_code r) \<and> clean_field (as_name r) \<and> range_start r \<le> range_end r"

definition apart :: "asn_row \<Rightarrow> asn_row \<Rightarrow> bool" where
  "apart a b \<longleftrightarrow> range_end a < range_start b \<or> range_end b < range_start a"

definition table_ok :: "asn_row list \<Rightarrow> bool" where
  "table_ok rows \<longleftrightarrow> list_all row_ok rows \<and> sorted_wrt apart rows"

definition row_insert :: "asn_row \<Rightarrow> asn_map \<Rightarrow> asn_map" where
  "row_insert r m = btree_insert (range_end r) (as_number r, country_code r) m"

lemma special_chars [simp]:
  "\<not> is_digit tab" "\<not> is_digit newline" "\<not> is_digit (CHR 0x0D)"
  "tab \<noteq> newline" "newline \<noteq> tab"
  "tab \<noteq> CHR 0x0D" "CHR 0x0D \<noteq> tab"
  by (simp_all add: is_digit_def tab_def newline_def)

lemma u32_str_no [simp]: "\<not> is_digit c \<Longrightarrow> c \<notin> set (u32_str n)"
  by (simp add: u32_str_def)

lemma clean_field_no:
  "clean_field s \<Longrightarrow> tab \<notin> set s \<and> newline \<notin> set s \<and> CHR 0x0D \<notin> set s"
  by (auto simp: clean_field_def list_all_iff)

lemma parse_u32_str [simp]: "parse_u32 (u32_str n) = Inr n"
proof -
  have "unat n < 2 ^ 32" using unsigned_less [of n, where ?'a = nat] by simp
  then show ?thesis by (simp add: parse_u32_def u32_str_def)
qed

lemma asn_line_row: "row_ok r \<Longrightarrow> asn_line (row_text r) m = Inr (row_insert r m)"
  using clean_field_no [of "country_code r"] clean_field_no [of "as_name r"]
  by (simp add: asn_line_def row_text_def row_ok_def row_insert_def Let_def numeral_eq_Suc)

lemma strip_cr_row: "row_ok r \<Longrightarrow> strip_cr (row_text r) = row_text r"
proof -
  assume "row_ok r"
  then have "CHR 0x0D \<notin> set (row_text r)"
    using clean_field_no [of "country_code r"] clean_field_no [of "as_name r"]
    by (simp add: row_ok_def row_text_def)
  then show ?thesis by (metis last_in_set strip_cr_def)
qed

lemma split_on_not_Nil [simp]: "split_on c s \<noteq> []"
  by (cases s) simp_all

lemma text_lines_table: "list_all row_ok rows \<Longrightarrow> text_lines (table_text rows) = map row_text rows"
proof (induction rows)
  case Nil
  then show ?case by (simp add: table_text_def text_lines_def)
next
  case (Cons r rows)
  then have ok: "row_ok r" by simp
  then have "newline \<notin> set (row_text r)"
    using clean_field_no [of "country_code r"] clean_field_no [of "as_name r"]
    by (simp add: row_ok_def row_text_def)
  then have "split_on newline (table_text (r # rows)) = row_text r # split_on newline (table_text rows)"
    by (simp add: table_text_def)
  then have "text_lines (table_text (r # rows)) = strip_cr (row_text r) # text_lines (table_text rows)"
    by (simp add: text_lines_def Let_def)
  then show ?case using Cons by (simp add: strip_cr_row)
qed

lemma asn_lines_rows:
  "list_all row_ok rows \<Longrightarrow> asn_lines (map row_text rows) m = Inr (fold row_insert rows m)"
  by (induction rows arbitrary: m) (simp_all add: asn_line_row)

text \<open>The entries of the table, whatever the order of the rows.\<close>

lemma fold_row_insert:
  assumes "btree_ok m" and "table_ok rows" and "\<forall>r \<in> set rows. range_end r \<notin> fst ` set m"
  shows "btree_ok (fold row_insert rows m) \<and>
    fst ` set (fold row_insert rows m) = fst ` set m \<union> range_end ` set rows \<and>
    (\<forall>k \<in> fst ` set m. map_of (fold row_insert rows m) k = map_of m k) \<and>
    (\<forall>r \<in> set rows. map_of (fold row_insert rows m) (range_end r) = Some (as_number r, country_code r))"
  using assms
proof (induction rows arbitrary: m)
  case (Cons r rows)
  have "range_end r' \<noteq> range_end r" if "r' \<in> set rows" for r'
    using Cons.prems(2) that by (fastforce simp: table_ok_def row_ok_def apart_def list_all_iff)
  then have "\<forall>r' \<in> set rows. range_end r' \<notin> fst ` set (row_insert r m)"
    using Cons.prems(3) by (auto simp: row_insert_def set_btree_insert_keys)
  moreover have "table_ok rows" using Cons.prems(2) by (simp add: table_ok_def)
  moreover have "btree_ok (row_insert r m)"
    using Cons.prems(1) by (simp add: row_insert_def btree_insert_ok)
  ultimately have ih: "btree_ok (fold row_insert rows (row_insert r m)) \<and>
    fst ` set (fold row_insert rows (row_insert r m)) = fst ` set (row_insert r m) \<union> range_end ` set rows \<and>
    (\<forall>k \<in> fst ` set (row_insert r m).
       map_of (fold row_insert rows (row_insert r m)) k = map_of (row_insert r m) k) \<and>
    (\<forall>r' \<in> set rows.
       map_of (fold row_insert rows (row_insert r m)) (range_end r') = Some (as_number r', country_code r'))"
    using Cons.IH by blast
  have keys: "fst ` set (row_insert r m) = insert (range_end r) (fst ` set m)"
    by (simp add: row_insert_def set_btree_insert_keys)
  have val: "map_of (row_insert r m) = (map_of m)(range_end r \<mapsto> (as_number r, country_code r))"
    using Cons.prems(1) by (simp add: row_insert_def map_of_btree_insert)
  have "map_of m k = map_of (row_insert r m) k" if "k \<in> fst ` set m" for k
    using Cons.prems(3) that by (force simp: val)
  with ih show ?case by (auto simp: keys val)
qed simp

lemma table_lookup:
  assumes "table_ok rows" and "r \<in> set rows" and "range_start r \<le> ip" and "ip \<le> range_end r"
  shows "btree_first_from ip (fold row_insert rows []) = Some (range_end r, as_number r, country_code r)"
proof (rule btree_first_from_least)
  note all = fold_row_insert [of "[]" rows, OF _ assms(1)]
  show "btree_ok (fold row_insert rows [])" using all by (simp add: btree_ok_def)
  show "map_of (fold row_insert rows []) (range_end r) = Some (as_number r, country_code r)"
    using all assms(2) by (simp add: btree_ok_def)
  show "ip \<le> range_end r" by (rule assms(4))
next
  fix k' assume "k' \<in> fst ` set (fold row_insert rows [])" and "ip \<le> k'"
  then obtain r' where r': "r' \<in> set rows" "k' = range_end r'"
    using fold_row_insert [of "[]" rows, OF _ assms(1)] by (auto simp: btree_ok_def)
  have "r = r' \<or> apart r r' \<or> apart r' r"
    using assms(1,2) r'(1) unfolding table_ok_def
    by (metis in_set_conv_nth linorder_neqE_nat sorted_wrt_nth_less)
  moreover have "range_start r' \<le> range_end r'"
    using assms(1) r'(1) by (auto simp: table_ok_def row_ok_def list_all_iff)
  ultimately show "range_end r \<le> k'"
    using assms(3) \<open>ip \<le> k'\<close> r'(2) unfolding apart_def by (elim disjE) auto
qed

text \<open>
  For a published table whose ranges do not overlap, in whatever order its rows come, the
  download is parsed without an error and the lookup of an address that lies in a range returns
  the number and the country code of that range.
\<close>

theorem asn_lookup_correct:
  assumes "table_ok rows" and "r \<in> set rows" and "range_start r \<le> ip" and "ip \<le> range_end r"
  shows "fst (ip_to_asn_country now (Inr (table_text rows)) ip None) = Inr (as_number r, country_code r)"
proof -
  have "list_all row_ok rows" using assms(1) by (simp add: table_ok_def)
  then have "get_ip_to_asn_map (Inr (table_text rows)) = Inr (fold row_insert rows [])"
    by (simp add: get_ip_to_asn_map_def text_lines_table asn_lines_rows)
  then show ?thesis
    using table_lookup [OF assms] by (simp add: ip_to_asn_country_def cached_asn_map_def asn_entry_def)
qed

theorem asn_lookup_correct_witness:
  "fst (ip_to_asn_country 5 (Inr (table_text
      [\<lparr>range_start = 16777216, range_end = 16777471, as_number = 13335, country_code = ''US'', as_name = ''CLOUDFLARENET''\<rparr>,
       \<lparr>range_start = 0, range_end = 16777215, as_number = 0, country_code = ''None'', as_name = ''Not routed''\<rparr>]))
     16777217 None) = Inr (13335, ''US'')"
  by (rule asn_lookup_correct [of _
        "\<lparr>range_start = 16777216, range_end = 16777471, as_number = 13335, country_code = ''US'', as_name = ''CLOUDFLARENET''\<rparr>",
        simplified])
     (auto simp: table_ok_def row_ok_def apart_def clean_field_def tab_def newline_def)

section \<open>Byte counters of a bridge\<close>

text \<open>
  \<open>sent\<close> lists the lines handed to the metrics endpoint: pool, number, country, bytes. The metrics
  endpoint is configured or not (\<open>endpoint\<close>), and the pool is an environment variable.
\<close>

record asn_counters =
  asn_byte_counts :: "u32 \<rightharpoonup> nat"
  asn_country_map :: "u32 \<rightharpoonup> string"
  sent :: "(string \<times> u32 \<times> string \<times> nat) list"

definition FLUSH_THRESHOLD :: nat where
  "FLUSH_THRESHOLD = 1000000"

definition ip_to_asn :: "string + asn_map \<Rightarrow> IpAddr \<Rightarrow> asn_counters \<Rightarrow> (string + u32) \<times> asn_counters" where
  "ip_to_asn table ip s =
     (case table of
        Inl e \<Rightarrow> (Inl e, s)
      | Inr m \<Rightarrow>
        (case ip of
           V6 _ \<Rightarrow> (Inl ''IPv6 not supported'', s)
         | V4 a \<Rightarrow>
           (case asn_entry m a of
              Inl e \<Rightarrow> (Inl e, s)
            | Inr (asn, country) \<Rightarrow>
                (Inr asn, s\<lparr>asn_country_map := (asn_country_map s)(asn \<mapsto> country)\<rparr>))))"

text \<open>
  The counter is updated under the lock of its entry, the flush takes the lock again: other
  threads run in between. The u64 addition panics on overflow.
\<close>

definition add_bytes :: "u32 \<Rightarrow> nat \<Rightarrow> asn_counters \<Rightarrow> (bool \<times> asn_counters) option" where
  "add_bytes asn n s =
     (let total = (case asn_byte_counts s asn of None \<Rightarrow> 0 | Some c \<Rightarrow> c) + n
      in if total < 2 ^ 64
         then Some (FLUSH_THRESHOLD \<le> total, s\<lparr>asn_byte_counts := (asn_byte_counts s)(asn \<mapsto> total)\<rparr>)
         else None)"

definition flush_asn_data :: "bool \<Rightarrow> string option \<Rightarrow> u32 \<Rightarrow> asn_counters \<Rightarrow> asn_counters" where
  "flush_asn_data endpoint pool asn s =
     (if endpoint then
        (case asn_byte_counts s asn of
           None \<Rightarrow> s
         | Some n \<Rightarrow>
           (let country = (case asn_country_map s asn of None \<Rightarrow> ''XX'' | Some c \<Rightarrow> c);
                s' = s\<lparr>asn_byte_counts := (asn_byte_counts s)(asn := None)\<rparr>
            in case pool of None \<Rightarrow> s' | Some p \<Rightarrow> s'\<lparr>sent := sent s' @ [(p, asn, country, n)]\<rparr>))
      else s)"

definition incr_bytes_asn :: "bool \<Rightarrow> string option \<Rightarrow> u32 \<Rightarrow> nat \<Rightarrow> asn_counters \<Rightarrow> asn_counters option" where
  "incr_bytes_asn endpoint pool asn n s =
     (if \<not> endpoint then Some s
      else map_option (\<lambda>(should_flush, s'). if should_flush then flush_asn_data endpoint pool asn s' else s')
             (add_bytes asn n s))"

text \<open>
  The threads of a bridge: the counters, the flushes that a thread has decided on and not yet
  done, and the bytes received so far, for the statement of the invariant.
\<close>

type_synonym asn_system = "asn_counters \<times> u32 list \<times> (u32 \<times> nat) list"

inductive asn_step :: "string \<Rightarrow> asn_system \<Rightarrow> asn_system \<Rightarrow> bool" for pool where
  Count: "add_bytes asn n s = Some (b, s') \<Longrightarrow>
    asn_step pool (s, todo, received) (s', if b then asn # todo else todo, (asn, n) # received)"
| Flush: "asn_step pool (s, asn # todo, received) (flush_asn_data True (Some pool) asn s, todo, received)"
| Swap: "asn_step pool (s, todo @ todo', received) (s, todo' @ todo, received)"
| Locate: "ip_to_asn table ip s = (r, s') \<Longrightarrow> asn_step pool (s, todo, received) (s', todo, received)"

definition asn_init :: "asn_system \<Rightarrow> bool" where
  "asn_init x \<longleftrightarrow> (case x of (s, todo, received) \<Rightarrow>
     asn_byte_counts s = Map.empty \<and> sent s = [] \<and> todo = [] \<and> received = [])"

definition held :: "asn_counters \<Rightarrow> u32 \<Rightarrow> nat" where
  "held s asn = (case asn_byte_counts s asn of None \<Rightarrow> 0 | Some c \<Rightarrow> c)"

definition reported :: "asn_counters \<Rightarrow> u32 \<Rightarrow> nat" where
  "reported s asn = sum_list (map (\<lambda>(p, a, c, n). if a = asn then n else 0) (sent s))"

definition received_bytes :: "(u32 \<times> nat) list \<Rightarrow> u32 \<Rightarrow> nat" where
  "received_bytes rs asn = sum_list (map (\<lambda>(a, n). if a = asn then n else 0) rs)"

definition asn_inv :: "asn_system \<Rightarrow> bool" where
  "asn_inv x \<longleftrightarrow> (case x of (s, todo, received) \<Rightarrow>
     (\<forall>asn. held s asn + reported s asn = received_bytes received asn) \<and>
     (\<forall>asn. FLUSH_THRESHOLD \<le> held s asn \<longrightarrow> asn \<in> set todo))"

lemma add_bytes_held:
  "add_bytes asn n s = Some (b, s') \<Longrightarrow>
     held s' = (held s)(asn := held s asn + n) \<and> sent s' = sent s \<and>
     b = (FLUSH_THRESHOLD \<le> held s asn + n)"
  by (auto simp: add_bytes_def held_def Let_def fun_eq_iff split: if_splits)

lemma flush_held:
  "held (flush_asn_data True (Some pool) asn s) = (held s)(asn := 0)"
  "reported (flush_asn_data True (Some pool) asn s) = (reported s)(asn := reported s asn + held s asn)"
  by (auto simp: flush_asn_data_def held_def reported_def Let_def fun_eq_iff split: option.splits)

lemma ip_to_asn_counters:
  "ip_to_asn table ip s = (r, s') \<Longrightarrow> asn_byte_counts s' = asn_byte_counts s \<and> sent s' = sent s"
  by (auto simp: ip_to_asn_def split: sum.splits IpAddr.splits)

interpretation asn_sys: invariant_system asn_init "asn_step pool" asn_inv
proof
  show "asn_inv x" if "asn_init x" for x
    using that by (auto simp: asn_init_def asn_inv_def held_def reported_def received_bytes_def FLUSH_THRESHOLD_def)
next
  show "asn_inv y" if "asn_inv x" and "asn_step pool x y" for x y
    using that(2,1)
  proof cases
    case (Count asn n s b s' todo received)
    with that(1) show ?thesis
      by (auto simp: asn_inv_def received_bytes_def reported_def dest!: add_bytes_held split: if_splits)
  next
    case (Flush s asn todo received)
    with that(1) show ?thesis
      by (auto simp: asn_inv_def flush_held FLUSH_THRESHOLD_def add.commute)
  next
    case (Locate table ip s r s' todo received)
    with that(1) show ?thesis
      by (auto simp: asn_inv_def held_def reported_def dest!: ip_to_asn_counters)
  qed (auto simp: asn_inv_def)
qed

text \<open>
  However the threads of a bridge interleave, no byte of a network is lost or reported twice:
  what the counter of the network holds and what was reported for it add up to the bytes relayed
  for it, and when no flush is outstanding less than the flush threshold is held back.
\<close>

theorem bridge_bytes_conserved:
  assumes "reachable asn_init (asn_step pool) (s, todo, received)"
  shows "held s asn + reported s asn = received_bytes received asn \<and>
    (asn \<notin> set todo \<longrightarrow> held s asn < FLUSH_THRESHOLD)"
  using asn_sys.reachable_inv [OF assms] by (auto simp: asn_inv_def not_le [symmetric])

theorem bridge_bytes_conserved_witness:
  "held (the (incr_bytes_asn True (Some ''p'') 7 600000 (the (incr_bytes_asn True (Some ''p'') 7 600000
       \<lparr>asn_byte_counts = Map.empty, asn_country_map = Map.empty, sent = []\<rparr>)))) 7 +
     reported (the (incr_bytes_asn True (Some ''p'') 7 600000 (the (incr_bytes_asn True (Some ''p'') 7 600000
       \<lparr>asn_byte_counts = Map.empty, asn_country_map = Map.empty, sent = []\<rparr>)))) 7 = 1200000 \<and>
   held (the (incr_bytes_asn True (Some ''p'') 7 600000 (the (incr_bytes_asn True (Some ''p'') 7 600000
       \<lparr>asn_byte_counts = Map.empty, asn_country_map = Map.empty, sent = []\<rparr>)))) 7 < FLUSH_THRESHOLD"
proof -
  define s0 :: asn_counters where "s0 = \<lparr>asn_byte_counts = Map.empty, asn_country_map = Map.empty, sent = []\<rparr>"
  define s1 where "s1 = s0\<lparr>asn_byte_counts := [7 \<mapsto> 600000]\<rparr>"
  define s2 where "s2 = s0\<lparr>asn_byte_counts := [7 \<mapsto> 1200000]\<rparr>"
  define s3 where "s3 = flush_asn_data True (Some ''p'') 7 s2"
  have a: "add_bytes 7 600000 s0 = Some (False, s1)" "add_bytes 7 600000 s1 = Some (True, s2)"
    by (simp_all add: add_bytes_def s0_def s1_def s2_def FLUSH_THRESHOLD_def)
  have "reachable asn_init (asn_step ''p'') (s0, [], [])"
    by (rule reachable_init) (simp add: asn_init_def s0_def)
  then have "reachable asn_init (asn_step ''p'') (s1, [], [(7, 600000)])"
    using asn_step.Count [OF a(1), of "''p''" "[]" "[]"] by (auto intro: reachable_step)
  then have "reachable asn_init (asn_step ''p'') (s2, [7], [(7, 600000), (7, 600000)])"
    using asn_step.Count [OF a(2), of "''p''" "[]" "[(7, 600000)]"] by (auto intro: reachable_step)
  then have "reachable asn_init (asn_step ''p'') (s3, [], [(7, 600000), (7, 600000)])"
    unfolding s3_def by (rule reachable_step) (rule asn_step.Flush)
  from bridge_bytes_conserved [OF this, of 7]
  show ?thesis by (simp add: incr_bytes_asn_def a received_bytes_def flip: s0_def s3_def)
qed

end
