(* ===== verification/Dialers.thy ===== *)
theory Dialers
  imports Broker_Protocol "HOL-Library.Extended_Nat"
begin

text \<open>
  Dialers: the combinators of libraries/sillad/src/dialer.rs as functions from the time a dial
  starts to its outcome, the connection test of libraries/sillad-conntest/src/lib.rs on the bytes
  of a connection, and the dialer that the client builds from a route the broker sent
  (\<open>route_to_dialer\<close> in binaries/geph5-client/src/get_dialer.rs). How single connections
  behave - TCP, and the layers put on a connection - is the record \<open>net\<close>.
\<close>

section \<open>Combinators\<close>

text \<open>
  A dial that starts at some millisecond either never returns or returns at a later one.
\<close>

datatype 'p outcome = Never | Done nat "io_error + 'p"

type_synonym 'p dialing = "nat \<Rightarrow> 'p outcome"

text \<open>
  \<open>race_ok\<close>: the first to return wins if it succeeded; if it failed, the other one decides.
  \<open>select\<close> polls the left future first.
\<close>

definition race_ok :: "'p outcome \<Rightarrow> 'p outcome \<Rightarrow> 'p outcome" where
  "race_ok f1 f2 =
     (case (f1, f2) of
        (Done i r, Done j s) \<Rightarrow>
          if i \<le> j then (case r of Inr _ \<Rightarrow> Done i r | Inl _ \<Rightarrow> Done j s)
          else (case s of Inr _ \<Rightarrow> Done j s | Inl _ \<Rightarrow> Done i r)
      | (Done i (Inr p), Never) \<Rightarrow> Done i (Inr p)
      | (Never, Done j (Inr p)) \<Rightarrow> Done j (Inr p)
      | _ \<Rightarrow> Never)"

definition race_dial :: "'p dialing \<Rightarrow> 'p dialing \<Rightarrow> 'p dialing" where
  "race_dial a b = (\<lambda>t. race_ok (a t) (b t))"

definition failing_dial :: "'p dialing" where
  "failing_dial = (\<lambda>t. Done t (Inl (IoError BrokenPipe ''failing dialer always fails'')))"

definition timeout_dial :: "nat \<Rightarrow> 'p dialing \<Rightarrow> 'p dialing" where
  "timeout_dial d a = (\<lambda>t.
     let timed_out = Done (t + d) (Inl (IoError TimedOut ''dial timed out''))
     in case a t of Never \<Rightarrow> timed_out | Done i r \<Rightarrow> if i \<le> t + d then Done i r else timed_out)"

definition fallback_dial :: "'p dialing \<Rightarrow> 'p dialing \<Rightarrow> 'p dialing" where
  "fallback_dial primary fallback = (\<lambda>t.
     case primary t of
       Never \<Rightarrow> Never
     | Done i (Inr p) \<Rightarrow> Done i (Inr p)
     | Done i (Inl _) \<Rightarrow> fallback i)"

definition delay_dial :: "nat \<Rightarrow> 'p dialing \<Rightarrow> 'p dialing" where
  "delay_dial d a = (\<lambda>t. a (t + d))"

text \<open>A layer on a connection: dial below, then set up the layer.\<close>

definition layer_dial :: "('p \<Rightarrow> 'p dialing) \<Rightarrow> 'p dialing \<Rightarrow> 'p dialing" where
  "layer_dial l a = (\<lambda>t.
     case a t of Never \<Rightarrow> Never | Done i (Inl e) \<Rightarrow> Done i (Inl e) | Done i (Inr p) \<Rightarrow> l p i)"

text \<open>When a dial succeeds.\<close>

definition success :: "'p outcome \<Rightarrow> enat" where
  "success r = (case r of Done i (Inr _) \<Rightarrow> enat i | _ \<Rightarrow> \<infinity>)"

lemma success_simps [simp]:
  "success Never = \<infinity>" "success (Done i (Inl e)) = \<infinity>" "success (Done i (Inr p)) = enat i"
  by (simp_all add: success_def)

lemma success_race: "success (race_ok f g) = min (success f) (success g)"
  by (cases f; cases g; simp add: race_ok_def min_def split: sum.splits)

text \<open>A race fails only when both have failed, with the error of the later one.\<close>

lemma race_fails_iff:
  "race_ok f g = Done k (Inl e) \<longleftrightarrow>
     (\<exists>i j e1 e2. f = Done i (Inl e1) \<and> g = Done j (Inl e2) \<and> k = max i j \<and> e = (if i \<le> j then e2 else e1))"
  by (cases f; cases g; auto simp: race_ok_def max_def split: sum.splits if_splits)

section \<open>Dialers of routes\<close>

datatype dialer =
    TcpDialer sock_addr
  | SosistabDialer dialer string
  | RaceDialer dialer dialer
  | FallbackDialer dialer dialer
  | TimeoutDialer dialer nat
  | DelayDialer dialer nat
  | ConnTestDialer dialer nat
  | TlsDialer dialer bool string
  | FailingDialer

record 'p net =
  net_tcp :: "sock_addr \<Rightarrow> 'p dialing"
  net_sosistab :: "string \<Rightarrow> 'p \<Rightarrow> 'p dialing"
  net_conntest :: "nat \<Rightarrow> 'p \<Rightarrow> 'p dialing"
  net_tls :: "bool \<Rightarrow> string \<Rightarrow> 'p \<Rightarrow> 'p dialing"

primrec dial :: "'p net \<Rightarrow> dialer \<Rightarrow> 'p dialing" where
  "dial net (TcpDialer addr) = net_tcp net addr"
| "dial net (SosistabDialer inner cookie) = layer_dial (net_sosistab net cookie) (dial net inner)"
| "dial net (RaceDialer l r) = race_dial (dial net l) (dial net r)"
| "dial net (FallbackDialer a b) = fallback_dial (dial net a) (dial net b)"
| "dial net (TimeoutDialer d ms) = timeout_dial ms (dial net d)"
| "dial net (DelayDialer d ms) = delay_dial ms (dial net d)"
| "dial net (ConnTestDialer inner pings) = layer_dial (net_conntest net pings) (dial net inner)"
| "dial net (TlsDialer inner sni domain) = layer_dial (net_tls net sni domain) (dial net inner)"
| "dial net FailingDialer = failing_dial"

primrec tcp_addrs :: "dialer \<Rightarrow> sock_addr list" where
  "tcp_addrs (TcpDialer addr) = [addr]"
| "tcp_addrs (SosistabDialer inner cookie) = tcp_addrs inner"
| "tcp_addrs (RaceDialer l r) = tcp_addrs l @ tcp_addrs r"
| "tcp_addrs (FallbackDialer a b) = tcp_addrs a @ tcp_addrs b"
| "tcp_addrs (TimeoutDialer d ms) = tcp_addrs d"
| "tcp_addrs (DelayDialer d ms) = tcp_addrs d"
| "tcp_addrs (ConnTestDialer inner pings) = tcp_addrs inner"
| "tcp_addrs (TlsDialer inner sni domain) = tcp_addrs inner"
| "tcp_addrs FailingDialer = []"

text \<open>The text of the IP of a socket address: without port, brackets and scope.\<close>

definition addr_ip :: "sock_addr \<Rightarrow> string" where
  "addr_ip a =
     (let h = (case rsplit_once CHR '':'' a of Some (h, _) \<Rightarrow> h | None \<Rightarrow> a)
      in if h \<noteq> [] \<and> hd h = CHR ''['' then takeWhile (\<lambda>c. c \<noteq> CHR ''%'') (butlast (tl h)) else h)"

definition reduce :: "(dialer \<Rightarrow> dialer \<Rightarrow> dialer) \<Rightarrow> dialer list \<Rightarrow> dialer" where
  "reduce f ds = (case ds of [] \<Rightarrow> FailingDialer | d # ds' \<Rightarrow> foldl f d ds')"

text \<open>
  \<open>route_to_dialer\<close> returns the dialer and the addresses it put on the whitelist of the VPN,
  which it does when the client runs one.
\<close>

fun route_to_dialer :: "bool \<Rightarrow> RouteDescriptor \<Rightarrow> dialer \<times> string list" where
  "route_to_dialer vpn (Tcp addr) = (TcpDialer addr, if vpn then [addr_ip addr] else [])"
| "route_to_dialer vpn (Sosistab3 cookie lower) =
     (let (inner, w) = route_to_dialer vpn lower in (SosistabDialer inner cookie, w))"
| "route_to_dialer vpn (Race inside) =
     (let rs = map (route_to_dialer vpn) inside in (reduce RaceDialer (map fst rs), concat (map snd rs)))"
| "route_to_dialer vpn (Fallback inside) =
     (let rs = map (route_to_dialer vpn) inside in (reduce FallbackDialer (map fst rs), concat (map snd rs)))"
| "route_to_dialer vpn (Timeout milliseconds lower) =
     (let (d, w) = route_to_dialer vpn lower in (TimeoutDialer d milliseconds, w))"
| "route_to_dialer vpn (Delay milliseconds lower) =
     (let (d, w) = route_to_dialer vpn lower in (DelayDialer d milliseconds, w))"
| "route_to_dialer vpn (ConnTest ping_count lower) =
     (let (d, w) = route_to_dialer vpn lower in (ConnTestDialer d ping_count, w))"
| "route_to_dialer vpn (Other _) = (FailingDialer, [])"
| "route_to_dialer vpn (PlainTls sni_domain lower) =
     (let (d, w) = route_to_dialer vpn lower
      in (TlsDialer d (sni_domain \<noteq> None) (case sni_domain of Some s \<Rightarrow> s | None \<Rightarrow> ''example.com''), w))"

lemma tcp_addrs_foldl:
  assumes "\<And>a b. tcp_addrs (f a b) = tcp_addrs a @ tcp_addrs b"
  shows "tcp_addrs (foldl f d ds) = tcp_addrs d @ concat (map tcp_addrs ds)"
  using assms by (induction ds arbitrary: d) simp_all

lemma tcp_addrs_reduce [simp]:
  "tcp_addrs (reduce RaceDialer ds) = concat (map tcp_addrs ds)"
  "tcp_addrs (reduce FallbackDialer ds) = concat (map tcp_addrs ds)"
  by (cases ds; simp add: reduce_def tcp_addrs_foldl)+

lemma route_whitelists_lemma:
  "snd (route_to_dialer vpn r) = (if vpn then map addr_ip (tcp_addrs (fst (route_to_dialer vpn r))) else [])"
proof (induction vpn r rule: route_to_dialer.induct)
  case (3 vpn inside)
  then show ?case by (induction inside) (auto simp: Let_def)
next
  case (4 vpn inside)
  then show ?case by (induction inside) (auto simp: Let_def)
qed (auto simp: Let_def split: prod.splits)

lemma success_race_foldl:
  "success (dial net (foldl RaceDialer d ds) t) = min (success (dial net d t)) (INF x \<in> set ds. success (dial net x t))"
  by (induction ds arbitrary: d) (simp_all add: race_dial_def success_race min.assoc inf_min top_enat_def)

lemma success_reduce_race:
  "success (dial net (reduce RaceDialer ds) t) = (INF x \<in> set ds. success (dial net x t))"
  by (cases ds) (simp_all add: reduce_def success_race_foldl failing_dial_def inf_min top_enat_def)

text \<open>
  The dialer of a race of routes is as good as its best route: it succeeds at the earliest time
  one of the routes would have succeeded on its own, whatever the others do - fail, hang or
  answer later - and it does not succeed only if none would.
\<close>

theorem race_route_earliest:
  "success (dial net (fst (route_to_dialer vpn (Race routes))) t) =
     (INF r \<in> set routes. success (dial net (fst (route_to_dialer vpn r)) t))"
  by (simp add: Let_def success_reduce_race image_image)

section \<open>Connection tests\<close>

text \<open>
  The dialer's side: what it sends for the payloads it drew, and what it makes of the bytes that
  come back. The result is the rest of the input, with which the connection goes on.
\<close>

definition ping_bytes :: "bytes \<Rightarrow> bytes" where
  "ping_bytes payload = be_bytes 2 (unat (word_of_nat (length payload) :: u16)) @ payload"

fun conntest_dial :: "bytes list \<Rightarrow> bytes \<Rightarrow> (io_error + bytes) \<times> bytes" where
  "conntest_dial [] inp = (Inr inp, [0, 0])"
| "conntest_dial (buf # bufs) inp =
     (case read_exact (length buf) inp of
        Inl e \<Rightarrow> (Inl e, ping_bytes buf)
      | Inr (echo, rest) \<Rightarrow>
          if buf \<noteq> echo then (Inl (IoError InvalidData ''ping returned incorrect data''), ping_bytes buf)
          else let (r, sent) = conntest_dial bufs rest in (r, ping_bytes buf @ sent))"

text \<open>
  The listener's side: what it echoes, and the rest of the input once the peer is done. The
  time limit of 30 seconds is left out.
\<close>

function conntest_serve :: "bytes \<Rightarrow> bytes \<times> (io_error + bytes)" where
  "conntest_serve inp =
     (case read_exact 2 inp of
        Inl e \<Rightarrow> ([], Inl e)
      | Inr (size_buf, rest) \<Rightarrow>
          if of_be_bytes size_buf = 0 then ([], Inr rest)
          else (case read_exact (of_be_bytes size_buf) rest of
                  Inl e \<Rightarrow> ([], Inl e)
                | Inr (payload, rest') \<Rightarrow>
                    let (echoed, r) = conntest_serve rest' in (payload @ echoed, r)))"
  by pat_completeness auto
termination
  by (relation "measure length") (auto simp: read_exact_Inr_iff)

declare conntest_serve.simps [simp del]

lemma conntest_serve_ping:
  assumes "0 < length p" and "length p < 2 ^ 16" and "conntest_serve rest = (echoed, r)"
  shows "conntest_serve (ping_bytes p @ rest) = (p @ echoed, r)"
proof -
  have "unat (word_of_nat (length p) :: u16) = length p" using assms(2) by (simp add: unat_of_nat)
  with assms show ?thesis
    by (subst conntest_serve.simps) (simp add: ping_bytes_def codec_simps)
qed

lemma conntest_serve_done: "conntest_serve (0 # 0 # rest) = ([], Inr rest)"
  by (subst conntest_serve.simps) (simp add: read_exact_def of_be_bytes_def)

lemma conntest_dial_iff: "fst (conntest_dial bufs inp) = Inr rest \<longleftrightarrow> inp = concat bufs @ rest"
proof (induction bufs arbitrary: inp)
  case Nil
  then show ?case by auto
next
  case (Cons b bufs)
  show ?case
  proof (cases "read_exact (length b) inp")
    case (Inl e)
    then show ?thesis by (auto simp: read_exact_Inl_iff)
  next
    case (Inr x)
    obtain echo tail where x: "x = (echo, tail)" by force
    then have inp: "inp = echo @ tail" "length echo = length b"
      using Inr by (simp_all add: read_exact_Inr_iff)
    show ?thesis
    proof (cases "b = echo")
      case True
      then show ?thesis using Cons [of tail] by (simp add: inp(1) case_prod_unfold Let_def)
    next
      case False
      then show ?thesis using inp(2) by (simp add: inp(1))
    qed
  qed
qed

lemma conntest_dial_sent:
  "snd (conntest_dial bufs (concat bufs @ rest)) = concat (map ping_bytes bufs) @ [0, 0]"
  by (induction bufs) (simp_all add: case_prod_unfold Let_def)

text \<open>
  Dialer and listener agree on the connection test. The dialer accepts a connection exactly if
  the bytes that come back start with its payloads in order; then the listener, whatever the
  dialer goes on to send, has echoed exactly these payloads and hands the connection over at
  the byte after the dialer's test.
\<close>

theorem conntest_agrees:
  assumes "list_all (\<lambda>p. 0 < length p \<and> length p < 2 ^ 16) bufs"
  shows "(fst (conntest_dial bufs inp) = Inr rest \<longleftrightarrow> inp = concat bufs @ rest) \<and>
     conntest_serve (snd (conntest_dial bufs (concat bufs @ rest)) @ up) = (concat bufs, Inr up)"
proof -
  have "conntest_serve (concat (map ping_bytes bufs) @ 0 # 0 # up) = (concat bufs, Inr up)"
    using assms by (induction bufs) (simp_all add: conntest_serve_done conntest_serve_ping)
  then show ?thesis by (simp add: conntest_dial_iff conntest_dial_sent)
qed

theorem conntest_agrees_witness:
  "(fst (conntest_dial [[1, 2], [3]] [1, 2, 3, 9]) = Inr [9] \<longleftrightarrow> [1, 2, 3, 9] = concat [[1, 2], [3]] @ [9 :: byte]) \<and>
     conntest_serve (snd (conntest_dial [[1, 2], [3]] (concat [[1, 2], [3]] @ [9])) @ [7]) = (concat [[1, 2], [3]], Inr [7])"
  by (rule conntest_agrees) simp

end
