(* ===== verification/Exit_Listen.thy ===== *)
theory Exit_Listen
  imports Asn Broker Dialers
begin

text \<open>
  The listeners of an exit (binaries/geph5-exit/src/listen.rs, listen/b2e_process.rs) and its
  announcements to the broker (broker.rs): the direct listener with its country blacklist, the
  streams that bridges multiplex and the obfuscation layers an exit undoes for them, the streams
  of an authenticated session, the limit on tasks (tasklimit.rs), and one round of the loop that
  uploads the exit's descriptor. Remote addresses, the clocks and the results of the RPCs that
  only store statistics are arguments.
\<close>

section \<open>Obfuscation layers\<close>

record B2eMetadata =
  protocol :: ObfsProtocol
  md_expiry :: nat

datatype listener =
    ReceiverListener
  | SosistabListener listener string
  | ConnTestListener listener
  | TlsListener listener

fun create_listener :: "ObfsProtocol \<Rightarrow> listener \<Rightarrow> listener" where
  "create_listener (Obfs_Sosistab3 cookie) bottom = SosistabListener bottom cookie"
| "create_listener (Obfs_ConnTest p) bottom = ConnTestListener (create_listener p bottom)"
| "create_listener Obfs_None bottom = bottom"
| "create_listener (Obfs_PlainTls p) bottom = TlsListener (create_listener p bottom)"
| "create_listener (Obfs_Sosistab3New cookie p) bottom = SosistabListener (create_listener p bottom) cookie"

text \<open>
  The layers of a connection, outermost first: what a listener undoes, and what a dialer puts on
  the connection to each of its TCP addresses.
\<close>

datatype layer = Sos_Layer string | Test_Layer | Tls_Layer

primrec listener_layers :: "listener \<Rightarrow> layer list" where
  "listener_layers ReceiverListener = []"
| "listener_layers (SosistabListener inner cookie) = Sos_Layer cookie # listener_layers inner"
| "listener_layers (ConnTestListener inner) = Test_Layer # listener_layers inner"
| "listener_layers (TlsListener inner) = Tls_Layer # listener_layers inner"

definition wrap :: "layer \<Rightarrow> (layer list \<times> sock_addr) list \<Rightarrow> (layer list \<times> sock_addr) list" where
  "wrap l es = map (\<lambda>(ls, a). (l # ls, a)) es"

primrec endpoints :: "dialer \<Rightarrow> (layer list \<times> sock_addr) list" where
  "endpoints (TcpDialer addr) = [([], addr)]"
| "endpoints (SosistabDialer inner cookie) = wrap (Sos_Layer cookie) (endpoints inner)"
| "endpoints (RaceDialer l r) = endpoints l @ endpoints r"
| "endpoints (FallbackDialer a b) = endpoints a @ endpoints b"
| "endpoints (TimeoutDialer d ms) = endpoints d"
| "endpoints (DelayDialer d ms) = endpoints d"
| "endpoints (ConnTestDialer inner pings) = wrap Test_Layer (endpoints inner)"
| "endpoints (TlsDialer inner sni domain) = wrap Tls_Layer (endpoints inner)"
| "endpoints FailingDialer = []"

text \<open>
  The route the broker describes for a protocol, dialed by the client, carries exactly the layers
  that the exit's listener for the protocol undoes.
\<close>

lemma protocol_layers:
  "endpoints (fst (route_to_dialer vpn (protocol_to_descriptor p addr))) =
     [(listener_layers (create_listener p ReceiverListener), addr)]"
  by (induction p) (simp_all add: wrap_def Let_def case_prod_unfold)

section \<open>The direct listener\<close>

text \<open>
  A connection is refused if the lookup of its address fails or gives a country of the blacklist;
  addresses of IPv6 are not looked up. The argument \<open>remote\<close> is the parsed remote address.
\<close>

definition c2e_admit ::
    "string list \<Rightarrow> nat \<Rightarrow> string + string \<Rightarrow> string + SocketAddr \<Rightarrow> asn_cache \<Rightarrow> (string + unit) \<times> asn_cache" where
  "c2e_admit blacklist now download remote c =
     (case remote of
        Inl e \<Rightarrow> (Inl e, c)
      | Inr addr \<Rightarrow>
        (case sa_ip addr of
           V6 _ \<Rightarrow> (Inr (), c)
         | V4 a \<Rightarrow>
           (case ip_to_asn_country now download a c of
              (Inl e, c') \<Rightarrow> (Inl e, c')
            | (Inr (asn, cc), c') \<Rightarrow>
                (if cc \<in> set blacklist then Inl ''in blacklisted country'' else Inr (), c'))))"

text \<open>
  The accept loop: for each result of accept with the clock and the download at that time, the
  connections that are handed to \<open>handle_client\<close>.
\<close>

fun c2e_loop ::
    "string list \<Rightarrow> (nat \<times> (string + string) \<times> (io_error + (string + SocketAddr))) list \<Rightarrow> asn_cache
       \<Rightarrow> SocketAddr list" where
  "c2e_loop blacklist [] c = []"
| "c2e_loop blacklist ((now, download, accepted) # es) c =
     (case accepted of
        Inl _ \<Rightarrow> c2e_loop blacklist es c
      | Inr remote \<Rightarrow>
        (case c2e_admit blacklist now download remote c of
           (Inl _, c') \<Rightarrow> c2e_loop blacklist es c'
         | (Inr _, c') \<Rightarrow> (case remote of Inl _ \<Rightarrow> [] | Inr addr \<Rightarrow> [addr]) @ c2e_loop blacklist es c'))"

definition country_of :: "asn_row list \<Rightarrow> u32 \<Rightarrow> string option" where
  "country_of rows a =
     map_option country_code (find (\<lambda>r. range_start r \<le> a \<and> a \<le> range_end r) rows)"

definition direct_ok :: "asn_row list \<Rightarrow> string list \<Rightarrow> SocketAddr \<Rightarrow> bool" where
  "direct_ok rows blacklist addr =
     (case sa_ip addr of V6 _ \<Rightarrow> True | V4 a \<Rightarrow> the (country_of rows a) \<notin> set blacklist)"

fun accepted_addrs :: "(nat \<times> (string + string) \<times> (io_error + (string + SocketAddr))) list \<Rightarrow> SocketAddr list" where
  "accepted_addrs [] = []"
| "accepted_addrs ((_, _, Inr (Inr addr)) # es) = addr # accepted_addrs es"
| "accepted_addrs (_ # es) = accepted_addrs es"

definition routed :: "asn_row list \<Rightarrow> SocketAddr \<Rightarrow> bool" where
  "routed rows addr = (case sa_ip addr of V6 _ \<Rightarrow> True | V4 a \<Rightarrow> country_of rows a \<noteq> None)"

definition table_cache :: "asn_row list \<Rightarrow> asn_cache \<Rightarrow> bool" where
  "table_cache rows c = (case c of None \<Rightarrow> True | Some (m, _) \<Rightarrow> m = fold row_insert rows [])"

lemma cached_table:
  assumes "table_ok rows" and "table_cache rows c"
  shows "\<exists>c'. cached_asn_map now (Inr (table_text rows)) c = (Inr (fold row_insert rows []), c') \<and> table_cache rows c'"
proof -
  have "get_ip_to_asn_map (Inr (table_text rows)) = Inr (fold row_insert rows [])"
    using assms(1) by (simp add: get_ip_to_asn_map_def text_lines_table asn_lines_rows table_ok_def)
  then show ?thesis
    using assms(2) by (auto simp: cached_asn_map_def table_cache_def split: option.splits)
qed

lemma c2e_admit_table:
  assumes "table_ok rows" and "table_cache rows c" and "routed rows addr"
  shows "\<exists>r c'. c2e_admit blacklist now (Inr (table_text rows)) (Inr addr) c = (r, c') \<and> table_cache rows c' \<and>
    (r = Inr () \<longleftrightarrow> direct_ok rows blacklist addr)"
proof (cases "sa_ip addr")
  case (V4 a)
  then obtain r where r: "find (\<lambda>r. range_start r \<le> a \<and> a \<le> range_end r) rows = Some r"
    using assms(3) by (auto simp: routed_def country_of_def)
  then have in_row: "r \<in> set rows" "range_start r \<le> a" "a \<le> range_end r"
    by (auto simp: find_Some_iff)
  obtain c' where "cached_asn_map now (Inr (table_text rows)) c = (Inr (fold row_insert rows []), c')"
      and "table_cache rows c'"
    using cached_table [OF assms(1,2)] by blast
  then show ?thesis
    using table_lookup [OF assms(1) in_row]
    by (simp add: c2e_admit_def V4 ip_to_asn_country_def asn_entry_def direct_ok_def country_of_def r)
next
  case (V6 a)
  then show ?thesis using assms(2) by (simp add: c2e_admit_def direct_ok_def)
qed

text \<open>
  With a sound table of networks that knows the addresses of the clients, the direct listener
  serves, in order, exactly the connections whose country is not on the blacklist; failed accepts
  and unreadable remote addresses are skipped and do not end the loop.
\<close>

theorem c2e_serves_allowed:
  assumes "table_ok rows" and "list_all (\<lambda>(now, download, _). download = Inr (table_text rows)) es"
    and "list_all (routed rows) (accepted_addrs es)"
  shows "c2e_loop blacklist es None = filter (direct_ok rows blacklist) (accepted_addrs es)"
proof -
  have "c2e_loop blacklist es c = filter (direct_ok rows blacklist) (accepted_addrs es)"
    if "table_cache rows c" for c
    using assms(2,3) that
  proof (induction es arbitrary: c rule: accepted_addrs.induct)
    case (2 now download addr es)
    obtain r c' where "c2e_admit blacklist now (Inr (table_text rows)) (Inr addr) c = (r, c')"
        and "table_cache rows c'" and "r = Inr () \<longleftrightarrow> direct_ok rows blacklist addr"
      using c2e_admit_table [OF assms(1) "2.prems"(3)] "2.prems"(2) by force
    then show ?case using 2 by (cases r) auto
  qed (simp_all add: c2e_admit_def)
  then show ?thesis by (simp add: table_cache_def)
qed

theorem c2e_serves_allowed_witness:
  "c2e_loop [''KP'']
      [(5, Inr (table_text [\<lparr>range_start = 1, range_end = 9, as_number = 3, country_code = ''KP'', as_name = ''Star''\<rparr>,
            \<lparr>range_start = 10, range_end = 19, as_number = 4, country_code = ''DE'', as_name = ''Netz''\<rparr>]),
          Inr (Inr \<lparr>sa_ip = V4 4, sa_port = 1\<rparr>)),
       (6, Inr (table_text [\<lparr>range_start = 1, range_end = 9, as_number = 3, country_code = ''KP'', as_name = ''Star''\<rparr>,
            \<lparr>range_start = 10, range_end = 19, as_number = 4, country_code = ''DE'', as_name = ''Netz''\<rparr>]),
          Inr (Inr \<lparr>sa_ip = V4 14, sa_port = 2\<rparr>))] None
     = [\<lparr>sa_ip = V4 14, sa_port = 2\<rparr>]"
  by (subst c2e_serves_allowed [of
        "[\<lparr>range_start = 1, range_end = 9, as_number = 3, country_code = ''KP'', as_name = ''Star''\<rparr>,
          \<lparr>range_start = 10, range_end = 19, as_number = 4, country_code = ''DE'', as_name = ''Netz''\<rparr>]"])
     (simp_all add: table_ok_def row_ok_def apart_def clean_field_def tab_def newline_def routed_def
       country_of_def direct_ok_def)

section \<open>Streams from bridges\<close>

text \<open>
  The table of \<open>b2e_loop\<close> is shared by the connections of all bridges. A process is numbered by
  its creation; \<open>procs\<close> holds the metadata each was created with, \<open>handed\<close> the streams that
  were sent to a process, with their metadata. An entry of the table is dropped after 1200 seconds
  without a stream; \<open>alive\<close> says which processes still receive.
\<close>

record b2e_state =
  b2e_table :: "B2eMetadata \<rightharpoonup> nat \<times> nat"
  procs :: "B2eMetadata list"
  handed :: "(nat \<times> B2eMetadata) list"

definition b2e_accept ::
    "(bytes \<Rightarrow> B2eMetadata option) \<Rightarrow> (nat \<Rightarrow> bool) \<Rightarrow> nat \<Rightarrow> bytes \<Rightarrow> b2e_state \<Rightarrow> (string + unit) \<times> b2e_state" where
  "b2e_accept decode alive now raw st =
     (case decode raw of
        None \<Rightarrow> (Inl ''cannot deserialize'', st)
      | Some md \<Rightarrow>
        (let (pid, st1) =
             (case b2e_table st md of
                Some (pid, last_used) \<Rightarrow>
                  if now < last_used + 1200 then (pid, st)
                  else (length (procs st), st\<lparr>procs := procs st @ [md]\<rparr>)
              | None \<Rightarrow> (length (procs st), st\<lparr>procs := procs st @ [md]\<rparr>));
             st2 = st1\<lparr>b2e_table := (b2e_table st1)(md \<mapsto> (pid, now))\<rparr>
         in if alive pid then (Inr (), st2\<lparr>handed := handed st2 @ [(pid, md)]\<rparr>)
            else (Inl ''could not accept'', st2)))"

definition proc_listener :: "b2e_state \<Rightarrow> nat \<Rightarrow> listener" where
  "proc_listener st pid = create_listener (protocol (procs st ! pid)) ReceiverListener"

definition b2e_inv :: "b2e_state \<Rightarrow> bool" where
  "b2e_inv st \<longleftrightarrow>
     (\<forall>md pid t. b2e_table st md = Some (pid, t) \<longrightarrow> pid < length (procs st) \<and> procs st ! pid = md) \<and>
     (\<forall>(pid, md) \<in> set (handed st). pid < length (procs st) \<and> procs st ! pid = md)"

definition b2e_init :: "b2e_state \<Rightarrow> bool" where
  "b2e_init st \<longleftrightarrow> b2e_table st = Map.empty \<and> procs st = [] \<and> handed st = []"

inductive b2e_step :: "(bytes \<Rightarrow> B2eMetadata option) \<Rightarrow> b2e_state \<Rightarrow> b2e_state \<Rightarrow> bool" for decode where
  B2e_Stream: "b2e_step decode st (snd (b2e_accept decode alive now raw st))"

lemma b2e_accept_inv: "b2e_inv st \<Longrightarrow> b2e_inv (snd (b2e_accept decode alive now raw st))"
  unfolding b2e_inv_def b2e_accept_def Let_def
  by (auto simp: nth_append less_Suc_eq split: option.splits if_splits)

interpretation b2e_sys: invariant_system b2e_init "b2e_step decode" b2e_inv
proof
  show "b2e_inv st" if "b2e_init st" for st
    using that by (simp add: b2e_init_def b2e_inv_def)
  show "b2e_inv st'" if "b2e_inv st" and "b2e_step decode st st'" for st st'
    using that(2,1) by cases (simp add: b2e_accept_inv)
qed

section \<open>Streams of a session\<close>

text \<open>
  In an authenticated session a stream whose metadata is JSON replaces the metadata of the
  session, any other stream is proxied with the session's metadata at that time.
\<close>

fun session_streams :: "(string \<Rightarrow> 'j option) \<Rightarrow> 'j \<Rightarrow> string list \<Rightarrow> ('j \<times> string) list" where
  "session_streams json sess [] = []"
| "session_streams json sess (m # ms) =
     (case json m of
        Some j \<Rightarrow> session_streams json j ms
      | None \<Rightarrow> (sess, m) # session_streams json sess ms)"

section \<open>The limit on tasks\<close>

text \<open>
  The tasks that are in their protected period and those that wait for the death signal. The
  counter goes up when a task is made and down when it ends, for whatever reason.
\<close>

record task_pool =
  task_count :: nat
  protected :: nat
  exposed :: nat

inductive task_step :: "nat \<Rightarrow> task_pool \<Rightarrow> task_pool \<Rightarrow> bool" for task_limit where
  New_Task: "task_step task_limit s (s\<lparr>task_count := task_count s + 1, protected := protected s + 1\<rparr>)"
| Period_Over: "0 < protected s \<Longrightarrow>
    task_step task_limit s (s\<lparr>protected := protected s - 1, exposed := exposed s + 1\<rparr>)"
| Killed: "0 < exposed s \<Longrightarrow> task_limit < task_count s \<Longrightarrow>
    task_step task_limit s (s\<lparr>task_count := task_count s - 1, exposed := exposed s - 1\<rparr>)"
| Stream_Over: "0 < protected s \<Longrightarrow>
    task_step task_limit s (s\<lparr>task_count := task_count s - 1, protected := protected s - 1\<rparr>)"
| Exposed_Over: "0 < exposed s \<Longrightarrow>
    task_step task_limit s (s\<lparr>task_count := task_count s - 1, exposed := exposed s - 1\<rparr>)"

definition task_init :: "task_pool \<Rightarrow> bool" where
  "task_init s \<longleftrightarrow> task_count s = 0 \<and> protected s = 0 \<and> exposed s = 0"

definition task_inv :: "task_pool \<Rightarrow> bool" where
  "task_inv s \<longleftrightarrow> task_count s = protected s + exposed s"

interpretation task_sys: invariant_system task_init "task_step task_limit" task_inv
proof
  show "task_inv s" if "task_init s" for s
    using that by (simp add: task_init_def task_inv_def)
  show "task_inv t" if "task_inv s" and "task_step task_limit s t" for s t
    using that(2,1) by cases (simp_all add: task_inv_def)
qed

section \<open>Announcing the exit\<close>

record exit_config =
  cfg_c2e_port :: u16
  cfg_b2e_port :: u16
  cfg_country :: string
  cfg_city :: string
  cfg_free_ratelimit :: nat
  cfg_token :: string

definition addr_of :: "string \<Rightarrow> u16 \<Rightarrow> sock_addr" where
  "addr_of ip port = ip @ '':'' @ nat_str (unat port)"

lemma addr_of_inject [simp]: "addr_of ip p = addr_of ip q \<longleftrightarrow> p = q"
  by (simp add: addr_of_def word_unat_eq_iff)

definition exit_descriptor :: "exit_config \<Rightarrow> string \<Rightarrow> rat \<Rightarrow> nat \<Rightarrow> ExitDescriptor" where
  "exit_descriptor cfg my_ip ld unix_secs =
     \<lparr>c2e_listen = addr_of my_ip (cfg_c2e_port cfg), b2e_listen = addr_of my_ip (cfg_b2e_port cfg),
      country = cfg_country cfg, city = cfg_city cfg, load = ld, expiry = unix_secs + 30\<rparr>"

definition exit_upload ::
    "('h, 's) broker_env \<Rightarrow> exit_config \<Rightarrow> bytes \<Rightarrow> ExitDescriptor \<Rightarrow> ExitDescriptor Signed Mac" where
  "exit_upload env cfg signing_secret d =
     mac_new (env_pc env) (code_signed_exit env)
       (signed_new (env_pc env) (code_exit env) d DOMAIN_EXIT_DESCRIPTOR signing_secret)
       (b3_hash (env_pc env) (text_bytes (cfg_token cfg)))"

text \<open>
  One round of the upload loop, on the broker of \<open>Broker\<close>. \<open>now\<close> is the broker's clock in
  milliseconds, \<open>unix_secs\<close> the exit's in seconds; \<open>stats\<close> are the results of the five
  \<open>set_stat\<close> calls. The flag says whether the exit serves free users.
\<close>

definition exit_round ::
    "('h, 's) broker_env \<Rightarrow> bool \<Rightarrow> exit_config \<Rightarrow> bytes \<Rightarrow> string \<Rightarrow> rat \<Rightarrow> nat \<Rightarrow> nat \<Rightarrow> (string + unit) list
       \<Rightarrow> bool \<times> broker \<Rightarrow> (string + unit) \<times> bool \<times> broker" where
  "exit_round env q cfg signing_secret my_ip ld unix_secs now stats = (\<lambda>(accept_free, st).
     (case get_free_exits env q now st of
        (Inl e, st1) \<Rightarrow> (Inl e, accept_free, st1)
      | (Inr l, st1) \<Rightarrow>
        (let accept_free' =
               (if 0 < cfg_free_ratelimit cfg
                then list_ex (\<lambda>(vk, _). vk = ed_public (env_pc env) signing_secret) (all_exits (signed_inner l))
                else accept_free)
         in case find isl stats of
              Some e \<Rightarrow> (Inl (projl e), accept_free', st1)
            | None \<Rightarrow>
              (case insert_exit env q now (exit_upload env cfg signing_secret (exit_descriptor cfg my_ip ld unix_secs)) st1 of
                 (r, st2) \<Rightarrow> (r, accept_free', st2)))))"

lemma exit_upload_accepted:
  assumes "ed_ok (env_pc env)" and "cfg_token cfg = exit_token env" and "now div 1000 \<le> expiry d"
  shows "insert_exit env True now (exit_upload env cfg sk d) st =
    (Inr (), db_insert_exit
       \<lparr>row_pubkey = ed_public (env_pc env) sk, row_c2e = c2e_listen d, row_b2e = b2e_listen d,
        row_country = country d, row_city = city d, row_load = load d,
        row_expiry = int (now div 1000 + 10)\<rparr> st)"
  using assms
  by (simp add: insert_exit_def exit_upload_def mac_roundtrip signed_roundtrip Let_def)
     (simp add: signed_new_def)

text \<open>
  A round of an exit that shares the broker's token, while the database answers and the
  broker's clock is at most thirty seconds ahead of the exit's, is accepted: the broker has exactly
  one new row, under the exit's public key, with its addresses and for ten more seconds, and the
  exit accepts free users from then on just if the broker's list of free exits names its key.
\<close>

theorem exit_round_registers:
  assumes "ed_ok (env_pc env)" and "cfg_token cfg = exit_token env" and "now div 1000 \<le> unix_secs + 30"
    and "0 < cfg_free_ratelimit cfg" and "list_all (\<lambda>r. r = Inr ()) stats"
    and free: "get_free_exits env True now st = (Inr l, st1)"
  shows "\<exists>st'. exit_round env True cfg sk my_ip ld unix_secs now stats (accept_free, st) =
      (Inr (), list_ex (\<lambda>(vk, _). vk = ed_public (env_pc env) sk) (all_exits (signed_inner l)), st') \<and>
    (\<forall>k. exit_row st' k =
       (if k = ed_public (env_pc env) sk
        then Some \<lparr>row_pubkey = k, row_c2e = addr_of my_ip (cfg_c2e_port cfg),
          row_b2e = addr_of my_ip (cfg_b2e_port cfg), row_country = cfg_country cfg,
          row_city = cfg_city cfg, row_load = ld, row_expiry = int (now div 1000 + 10)\<rparr>
        else exit_row st k))"
proof -
  have "find isl stats = None"
    using assms(5) by (auto simp: find_None_iff list_all_iff)
  moreover have "exit_row st1 k = exit_row st k" for k
    using keyed_get_all_exits [of env True now st] free
    by (auto simp: get_free_exits_def keyed_def exit_row_def split: prod.splits)
  ultimately show ?thesis
    using assms exit_upload_accepted [OF assms(1,2), of now "exit_descriptor cfg my_ip ld unix_secs" sk st1]
    by (auto simp: exit_round_def Let_def exit_row_def db_insert_exit_def find_upsert exit_descriptor_def)
qed

definition example_config :: exit_config where
  "example_config =
     \<lparr>cfg_c2e_port = 9002, cfg_b2e_port = 9003, cfg_country = ''CA'', cfg_city = ''MTR'',
      cfg_free_ratelimit = 100, cfg_token = ''et''\<rparr>"

theorem exit_round_registers_witness:
  "\<exists>st'. exit_round example_env True example_config [8] ''1.2.3.4'' (1 / 4) 40 41000 [Inr (), Inr ()]
      (True, empty_broker) = (Inr (), False, st') \<and>
    exit_row st' [8] = Some \<lparr>row_pubkey = [8], row_c2e = ''1.2.3.4:9002'', row_b2e = ''1.2.3.4:9003'',
      row_country = ''CA'', row_city = ''MTR'', row_load = 1 / 4, row_expiry = 51\<rparr>"
proof -
  have e: "env_pc example_env = plain_proto" "exit_token example_env = ''et''"
    by (simp_all add: example_env_def)
  have c: "cfg_c2e_port example_config = 9002" "cfg_b2e_port example_config = 9003"
    "cfg_country example_config = ''CA''" "cfg_city example_config = ''MTR''"
    by (simp_all add: example_config_def)
  obtain l st1 where f: "get_free_exits example_env True 41000 empty_broker = (Inr l, st1)"
      and "all_exits (signed_inner l) = []"
    by (simp add: get_free_exits_def get_all_exits_def cache_fetch_def cache_hit_def empty_broker_def
        sign_exits_def signed_new_def)
  moreover have "addr_of ''1.2.3.4'' 9002 = ''1.2.3.4:9002''" "addr_of ''1.2.3.4'' 9003 = ''1.2.3.4:9003''"
    by (simp_all add: addr_of_def nat_str.simps) (code_simp, code_simp)
  moreover have "ed_ok (env_pc example_env)" by (simp only: e plain_proto_ok)
  moreover have "ed_public (env_pc example_env) [8] = [8]" by (simp add: e plain_proto_def)
  moreover have "cfg_token example_config = exit_token example_env" "0 < cfg_free_ratelimit example_config"
    by (simp_all add: e example_config_def)
  ultimately obtain st' where
      a: "exit_round example_env True example_config [8] ''1.2.3.4'' (1 / 4) 40 41000 [Inr (), Inr ()]
        (True, empty_broker) = (Inr (), False, st')"
      and b: "\<forall>k. exit_row st' k =
        (if k = [8] then Some \<lparr>row_pubkey = k, row_c2e = ''1.2.3.4:9002'', row_b2e = ''1.2.3.4:9003'',
            row_country = ''CA'', row_city = ''MTR'', row_load = 1 / 4, row_expiry = int (41000 div 1000 + 10)\<rparr>
         else exit_row empty_broker k)"
    using exit_round_registers [of example_env example_config 41000 40 "[Inr (), Inr ()]" empty_broker l st1
        "[8]" "''1.2.3.4''" "1 / 4" True]
    by (auto simp: c)
  from b have "exit_row st' [8] = Some \<lparr>row_pubkey = [8], row_c2e = ''1.2.3.4:9002'', row_b2e = ''1.2.3.4:9003'',
      row_country = ''CA'', row_city = ''MTR'', row_load = 1 / 4, row_expiry = 51\<rparr>"
    by simp
  with a show ?thesis by blast
qed

end
