(* ===== verification/Exit_Resources.thy ===== *)
theory Exit_Resources
  imports Complex_Main Exit_Link Exit_Listen "HOL-Library.Sublist"
begin

text \<open>
  How the exit shares its resources and reaches out (binaries/geph5-exit/src): the measured load and
  the rate limiter with its copying loop (ratelimit.rs), dialing from addresses of its own (ipv6.rs)
  and the lists of blocked names (dns.rs). f32 values are exact reals.
\<close>

section \<open>Load\<close>

record exit_load =
  cpu_usage :: real
  current_speed :: real
  last_byte_count :: nat
  last_count_time :: real

definition load_new :: "real \<Rightarrow> exit_load" where
  "load_new now = \<lparr>cpu_usage = 0, current_speed = 0, last_byte_count = 0, last_count_time = now\<rparr>"

text \<open>One measurement: the usage of the processors in percent and the count of bytes at a time.\<close>

definition load_step :: "real list \<Rightarrow> nat \<Rightarrow> real \<Rightarrow> exit_load \<Rightarrow> exit_load" where
  "load_step cpus new_byte_count now l =
     (let usage = sum_list cpus / real (length cpus) / 100;
          byte_diff = new_byte_count - last_byte_count l;
          byte_rate = real byte_diff / (now - last_count_time l)
      in \<lparr>cpu_usage = cpu_usage l * 0.99 + usage * 0.01, current_speed = current_speed l * 0.99 + byte_rate * 0.01,
          last_byte_count = new_byte_count, last_count_time = now\<rparr>)"

definition get_load :: "nat \<Rightarrow> exit_load \<Rightarrow> real" where
  "get_load total_ratelimit l = max (cpu_usage l ^ 2) (current_speed l / (real total_ratelimit * 1000))"

definition get_kbps :: "exit_load \<Rightarrow> real" where
  "get_kbps l = current_speed l / 1000"

definition load_ok :: "real \<Rightarrow> exit_load \<Rightarrow> bool" where
  "load_ok peak l \<longleftrightarrow> 0 \<le> cpu_usage l \<and> cpu_usage l \<le> 1 \<and> 0 \<le> current_speed l \<and> current_speed l \<le> peak"

text \<open>
  The usage stays a fraction and the speed below the peak of what was measured, so that the load is
  at most the larger of one and the share of the peak.
\<close>

lemma mean_bounds:
  assumes "xs \<noteq> []" and "\<forall>x \<in> set xs. 0 \<le> x \<and> x \<le> (100 :: real)"
  shows "0 \<le> sum_list xs / real (length xs) / 100" "sum_list xs / real (length xs) / 100 \<le> 1"
proof -
  have "sum_list xs \<le> 100 * real (length xs) \<and> 0 \<le> sum_list xs" using assms(2) by (induction xs) auto
  with assms(1) show "0 \<le> sum_list xs / real (length xs) / 100" "sum_list xs / real (length xs) / 100 \<le> 1"
    by (simp_all add: divide_le_eq)
qed

lemma load_step_ok:
  assumes "load_ok peak l" and "cpus \<noteq> []" and "\<forall>x \<in> set cpus. 0 \<le> x \<and> x \<le> 100" and "last_count_time l < now"
    and "real (n - last_byte_count l) / (now - last_count_time l) \<le> peak"
  shows "load_ok peak (load_step cpus n now l)"
proof -
  note m = mean_bounds [OF assms(2,3)]
  have r: "0 \<le> real (n - last_byte_count l) / (now - last_count_time l)" using assms(4) by simp
  have c: "0 \<le> x * 0.99 + y * 0.01 \<and> x * 0.99 + y * 0.01 \<le> hi" if "0 \<le> x" "x \<le> hi" "0 \<le> y" "y \<le> hi" for x y hi :: real
    using that by simp
  show ?thesis
    using c [OF _ _ m, of "cpu_usage l"] c [OF _ _ r assms(5), of "current_speed l"] assms(1)
    by (simp add: load_ok_def load_step_def Let_def)
qed

lemma get_load_bounds:
  assumes "load_ok peak l" and "0 < tr"
  shows "0 \<le> get_load tr l" and "get_load tr l \<le> max 1 (peak / (real tr * 1000))"
proof -
  show "0 \<le> get_load tr l" by (simp add: get_load_def le_max_iff_disj)
  have "cpu_usage l ^ 2 \<le> 1" using assms(1) by (simp add: load_ok_def power_le_one)
  moreover have "current_speed l / (real tr * 1000) \<le> peak / (real tr * 1000)"
    using assms by (simp add: load_ok_def divide_right_mono)
  ultimately show "get_load tr l \<le> max 1 (peak / (real tr * 1000))"
    by (auto simp: get_load_def intro: max.coboundedI1 max.coboundedI2)
qed

section \<open>The rate limiter\<close>

text \<open>The bytes that are charged for a read: more under load, and never more than the limiter can give.\<close>

definition charge :: "real \<Rightarrow> nat \<Rightarrow> nat" where
  "charge load_now n =
     (let multiplier = (1 / (1 - min load_now 0.999) - 1) / 2
      in nat \<lfloor>min (real n * max multiplier 1) 100000\<rfloor>)"

lemma charge_bounds:
  assumes "0 < n"
  shows "min n 100000 \<le> charge load_now n" and "charge load_now n \<le> 100000" and "1 \<le> charge load_now n"
proof -
  define m where "m = max ((1 / (1 - min load_now 0.999) - 1) / 2) (1 :: real)"
  have c: "charge load_now n = nat \<lfloor>min (real n * m) 100000\<rfloor>" by (simp add: charge_def m_def Let_def)
  have "real n * 1 \<le> real n * m" by (rule mult_left_mono) (simp_all add: m_def)
  then have "real (min n 100000) \<le> min (real n * m) 100000" by (auto simp: min_def)
  then show lower: "min n 100000 \<le> charge load_now n" unfolding c by (simp add: le_nat_floor)
  have "\<lfloor>min (real n * m) 100000\<rfloor> \<le> 100000" by (simp add: floor_le_iff min_def)
  then show "charge load_now n \<le> 100000" unfolding c by linarith
  show "1 \<le> charge load_now n" using lower assms by linarith
qed

text \<open>Up to a load of two thirds the charge is what was read.\<close>

lemma charge_unloaded:
  assumes "load_now \<le> 2 / 3" and "n \<le> 100000"
  shows "charge load_now n = n"
proof -
  have "1 / (1 - min load_now 0.999) \<le> 3" using assms(1) by (simp add: divide_le_eq min_def)
  then have "max ((1 / (1 - min load_now 0.999) - 1) / 2) 1 = 1" by simp
  then show ?thesis using assms(2) by (simp add: charge_def Let_def)
qed

text \<open>
  The limiter inside is the governor library: \<open>check_n\<close> at a time takes a number of bytes, refuses
  for now, or refuses for good what exceeds its burst, which the code unwraps. \<open>rands\<close> are the
  random numbers of the waiting loop; the result is None on a panic, and \<open>Inl\<close> if the loop still
  waits when they are used up. The count of all bytes, which the load is measured by, grows first.
\<close>

datatype 'g checked = Allowed 'g | NotUntil | InsufficientCapacity

fun wait_loop ::
    "('g \<Rightarrow> real \<Rightarrow> nat \<Rightarrow> 'g checked) \<Rightarrow> nat \<Rightarrow> real list \<Rightarrow> real \<Rightarrow> 'g \<Rightarrow> real \<Rightarrow> (real + 'g \<times> real) option" where
  "wait_loop check_n n rands delay g now =
     (if n = 0 then None
      else case check_n g now n of
        InsufficientCapacity \<Rightarrow> None
      | Allowed g' \<Rightarrow> Some (Inr (g', now))
      | NotUntil \<Rightarrow>
          (case rands of
             [] \<Rightarrow> Some (Inl now)
           | r # rs \<Rightarrow> wait_loop check_n n rs (delay + r * 0.05) g (now + delay)))"

declare wait_loop.simps [simp del]

definition limiter_wait ::
    "('g \<Rightarrow> real \<Rightarrow> nat \<Rightarrow> 'g checked) \<Rightarrow> bool \<Rightarrow> real \<Rightarrow> nat \<Rightarrow> real list \<Rightarrow> nat \<Rightarrow> 'g \<Rightarrow> real \<Rightarrow>
      nat \<times> (real + 'g \<times> real) option" where
  "limiter_wait check_n unlimited load_now n rands total_count g now =
     ((total_count + n) mod 2 ^ 64,
      if n = 0 \<or> unlimited then Some (Inr (g, now))
      else wait_loop check_n (charge load_now n) rands 0.005 g now)"

text \<open>
  The copying loop: what each read gives, with the load and the random numbers of the wait after it,
  and whether the write after it succeeds. The reads come at growing times; a read is at most 8192
  bytes. The result is what was written, the limiter and the time.
\<close>

datatype copy_read = Read_Timeout | Read_Error io_error | Read_Eof | Read_Data bytes

datatype copy_result = Copied nat | Copy_Error io_error | Copying | Copy_Panic

record 'g copy_state =
  cs_total :: nat
  cs_limiter :: 'g
  cs_now :: real
  cs_out :: bytes

fun io_copy ::
    "('g \<Rightarrow> real \<Rightarrow> nat \<Rightarrow> 'g checked) \<Rightarrow> bool \<Rightarrow> (copy_read \<times> real \<times> real \<times> real list \<times> io_error option) list \<Rightarrow>
      'g copy_state \<Rightarrow> copy_result \<times> 'g copy_state" where
  "io_copy check_n unlimited [] s = (Copying, s)"
| "io_copy check_n unlimited ((rd, dt, load_now, rands, write_err) # evs) s =
     (let s1 = s\<lparr>cs_now := cs_now s + dt\<rparr>
      in case rd of
        Read_Timeout \<Rightarrow> (Copy_Error (IoError TimedOut ''timeout in TCP read''), s1)
      | Read_Error e \<Rightarrow> (Copy_Error e, s1)
      | Read_Eof \<Rightarrow> (Copied (length (cs_out s)), s1)
      | Read_Data bts \<Rightarrow>
          (case limiter_wait check_n unlimited load_now (length bts) rands (cs_total s1) (cs_limiter s1) (cs_now s1) of
             (n, None) \<Rightarrow> (Copy_Panic, s1\<lparr>cs_total := n\<rparr>)
           | (n, Some (Inl t)) \<Rightarrow> (Copying, s1\<lparr>cs_total := n, cs_now := t\<rparr>)
           | (n, Some (Inr (g, t))) \<Rightarrow>
               (let s2 = s1\<lparr>cs_total := n, cs_limiter := g, cs_now := t\<rparr>
                in case write_err of
                  Some e \<Rightarrow> (Copy_Error e, s2)
                | None \<Rightarrow> io_copy check_n unlimited evs (s2\<lparr>cs_out := cs_out s @ bts\<rparr>))))"

text \<open>
  What is documented of the limiter: it is a bucket of \<open>burst\<close> bytes that fills with \<open>rate\<close> bytes per
  second; \<open>level\<close> bounds what it holds, a check takes that much out, and only a request above the
  burst is refused for good.
\<close>

definition bucket ::
    "('g \<Rightarrow> real \<Rightarrow> nat \<Rightarrow> 'g checked) \<Rightarrow> ('g \<Rightarrow> real \<Rightarrow> real) \<Rightarrow> nat \<Rightarrow> nat \<Rightarrow> bool" where
  "bucket check_n level rate burst \<longleftrightarrow>
     (\<forall>g t. 0 \<le> level g t \<and> level g t \<le> real burst) \<and>
     (\<forall>g t t'. t \<le> t' \<longrightarrow> level g t' \<le> level g t + real rate * (t' - t)) \<and>
     (\<forall>g t n g'. check_n g t n = Allowed g' \<longrightarrow> real n \<le> level g t \<and> level g' t \<le> level g t - real n) \<and>
     (\<forall>g t n. check_n g t n = InsufficientCapacity \<longrightarrow> burst < n)"

definition reads_ok :: "(copy_read \<times> real \<times> real \<times> real list \<times> io_error option) list \<Rightarrow> bool" where
  "reads_ok evs \<longleftrightarrow> (\<forall>(rd, dt, _, rands, _) \<in> set evs. 0 \<le> dt \<and> (\<forall>r \<in> set rands. 0 \<le> r) \<and>
     (\<forall>bts. rd = Read_Data bts \<longrightarrow> 0 < length bts \<and> length bts \<le> 8192))"

lemma bucketD:
  assumes "bucket check_n level rate burst"
  shows "0 \<le> level g t" "level g t \<le> real burst" "t \<le> t' \<Longrightarrow> level g t' \<le> level g t + real rate * (t' - t)"
    "check_n g t n = Allowed g' \<Longrightarrow> level g' t \<le> level g t - real n"
    "check_n g t n = InsufficientCapacity \<Longrightarrow> burst < n"
  using assms by (auto simp: bucket_def)

text \<open>The wait does not panic, and takes the charge out of the bucket.\<close>

lemma wait_loop_bucket:
  assumes "bucket check_n level rate burst" and "0 < n" and "n \<le> burst" and "0 \<le> delay" and "\<forall>r \<in> set rands. 0 \<le> r"
  shows "(\<exists>t. wait_loop check_n n rands delay g now = Some (Inl t) \<and> now \<le> t) \<or>
    (\<exists>g' t. wait_loop check_n n rands delay g now = Some (Inr (g', t)) \<and> now \<le> t \<and>
       level g' t \<le> level g now + real rate * (t - now) - real n)"
  using assms(4,5)
proof (induction rands arbitrary: delay now)
  case Nil
  show ?case
    using assms(2,3) bucketD(4,5) [OF assms(1), of g now n]
    by (cases "check_n g now n") (auto simp: wait_loop.simps)
next
  case (Cons r rs)
  show ?case
  proof (cases "check_n g now n")
    case NotUntil
    then have eq: "wait_loop check_n n (r # rs) delay g now = wait_loop check_n n rs (delay + r * 0.05) g (now + delay)"
      using assms(2) by (simp add: wait_loop.simps [of check_n n "r # rs"])
    have "level g (now + delay) \<le> level g now + real rate * delay"
      using bucketD(3) [OF assms(1), of now "now + delay" g] Cons.prems by simp
    moreover have "now \<le> t \<and> level g' t \<le> level g now + real rate * (t - now) - real n"
      if "now + delay \<le> t" "level g' t \<le> level g (now + delay) + real rate * (t - (now + delay)) - real n" for g' t
      using that calculation Cons.prems by (simp add: algebra_simps)
    moreover have "(\<exists>t. wait_loop check_n n rs (delay + r * 0.05) g (now + delay) = Some (Inl t) \<and> now + delay \<le> t) \<or>
        (\<exists>g' t. wait_loop check_n n rs (delay + r * 0.05) g (now + delay) = Some (Inr (g', t)) \<and> now + delay \<le> t \<and>
           level g' t \<le> level g (now + delay) + real rate * (t - (now + delay)) - real n)"
      using Cons.prems by (intro Cons.IH) auto
    ultimately show ?thesis using Cons.prems(1) unfolding eq by fastforce
  qed (use assms(2,3) bucketD(4,5) [OF assms(1), of g now n] in \<open>auto simp: wait_loop.simps [of check_n n "r # rs"]\<close>)
qed

fun read_data :: "copy_read \<Rightarrow> bytes" where
  "read_data (Read_Data bts) = bts"
| "read_data _ = []"

lemma io_copy_bucket:
  assumes "bucket check_n level rate burst" and "100000 \<le> burst" and "reads_ok evs"
    and "io_copy check_n False evs s = (r, s')"
  shows "r \<noteq> Copy_Panic \<and> cs_now s \<le> cs_now s' \<and>
    real (length (cs_out s')) \<le> real (length (cs_out s)) + level (cs_limiter s) (cs_now s) + real rate * (cs_now s' - cs_now s)"
  using assms(3,4)
proof (induction evs arbitrary: s)
  case Nil
  then show ?case using bucketD(1) [OF assms(1)] by auto
next
  case (Cons ev evs)
  obtain rd dt load_now rands write_err where ev: "ev = (rd, dt, load_now, rands, write_err)" by (cases ev) auto
  from Cons.prems(1) ev have dt: "0 \<le> dt" and rands: "\<forall>r \<in> set rands. 0 \<le> r" and evs: "reads_ok evs"
    by (auto simp: reads_ok_def)
  note lv = bucketD(1) [OF assms(1), of "cs_limiter s" "cs_now s"]
  have grow: "0 \<le> real rate * x" if "0 \<le> x" for x using that by simp
  show ?case
  proof (cases rd)
    case (Read_Data bts)
    with Cons.prems(1) ev have b: "0 < length bts" "length bts \<le> 8192" by (auto simp: reads_ok_def)
    define n where "n = charge load_now (length bts)"
    have n: "0 < n" "n \<le> burst" "length bts \<le> n"
      using charge_bounds [OF b(1), of load_now] b(2) assms(2) by (auto simp: n_def)
    have lvl: "level (cs_limiter s) (cs_now s + dt) \<le> level (cs_limiter s) (cs_now s) + real rate * dt"
      using bucketD(3) [OF assms(1), of "cs_now s" "cs_now s + dt"] dt by simp
    have w: "limiter_wait check_n False load_now (length bts) rands (cs_total s) (cs_limiter s) (cs_now s + dt) =
        ((cs_total s + length bts) mod 2 ^ 64, wait_loop check_n n rands 0.005 (cs_limiter s) (cs_now s + dt))"
      using b by (simp add: limiter_wait_def n_def)
    from wait_loop_bucket [OF assms(1) n(1,2) _ rands, of "0.005" "cs_limiter s" "cs_now s + dt"]
    consider t where "wait_loop check_n n rands 0.005 (cs_limiter s) (cs_now s + dt) = Some (Inl t)" "cs_now s + dt \<le> t"
      | g' t where "wait_loop check_n n rands 0.005 (cs_limiter s) (cs_now s + dt) = Some (Inr (g', t))" "cs_now s + dt \<le> t"
          "level g' t \<le> level (cs_limiter s) (cs_now s + dt) + real rate * (t - (cs_now s + dt)) - real n"
      by fastforce
    then show ?thesis
    proof cases
      case 1
      with Cons.prems(2) ev Read_Data w dt lv grow [of "t - cs_now s"] show ?thesis by auto
    next
      case (2 g' t)
      have lim: "level g' t \<le> level (cs_limiter s) (cs_now s) + real rate * (t - cs_now s) - real n"
        using 2(3) lvl by (simp add: algebra_simps)
      show ?thesis
      proof (cases write_err)
        case (Some e)
        with 2 Cons.prems(2) ev Read_Data w dt lv grow [of "t - cs_now s"] show ?thesis by auto
      next
        case None
        define s2 where "s2 = s\<lparr>cs_total := (cs_total s + length bts) mod 2 ^ 64, cs_limiter := g', cs_now := t, cs_out := cs_out s @ bts\<rparr>"
        have "io_copy check_n False evs s2 = (r, s')"
          using 2(1) Cons.prems(2) ev Read_Data w None by (simp add: s2_def)
        from Cons.IH [OF evs this]
        have "r \<noteq> Copy_Panic" "t \<le> cs_now s'"
          "real (length (cs_out s')) \<le> real (length (cs_out s) + length bts) + level g' t + real rate * (cs_now s' - t)"
          by (simp_all add: s2_def)
        with lim n(3) 2(2) dt show ?thesis by (simp add: algebra_simps)
      qed
    qed
  qed (use Cons.prems(2) ev dt lv grow [of dt] in auto)
qed

lemma io_copy_data:
  assumes "io_copy check_n unlimited evs s = (r, s')"
  shows "prefix (cs_out s') (cs_out s @ concat (map (read_data \<circ> fst) evs)) \<and> (\<forall>n. r = Copied n \<longrightarrow> n = length (cs_out s'))"
  using assms
proof (induction check_n unlimited evs s rule: io_copy.induct)
  case (2 check_n unlimited rd dt load_now rands write_err evs s)
  show ?case
  proof (cases rd)
    case (Read_Data bts)
    show ?thesis
      using 2 Read_Data by (auto simp: Let_def split: option.splits sum.splits prod.splits)
  qed (use 2(2) in auto)
qed simp

text \<open>
  The rate limit of a session holds. Over a limiter made with the burst of 100 kilobytes that the
  exit uses, and whatever the load, the copying loop never panics, writes a prefix of what it read,
  in order, and in any time writes at most the burst and what the rate gives for that time. Under
  load it may write less, never more.
\<close>

theorem rate_limit_holds:
  assumes "limiter_new limit_kb 100 = Some (Limited rate burst)" and "bucket check_n level rate burst" and "reads_ok evs"
    and "io_copy check_n False evs \<lparr>cs_total = tc, cs_limiter = g, cs_now = t0, cs_out = []\<rparr> = (r, s)"
  shows "r \<noteq> Copy_Panic \<and> prefix (cs_out s) (concat (map (read_data \<circ> fst) evs)) \<and>
    (\<forall>n. r = Copied n \<longrightarrow> n = length (cs_out s)) \<and>
    real (length (cs_out s)) \<le> 102400 + real ((limit_kb + 1) * 1024) * (cs_now s - t0)"
proof -
  have lim: "rate = (limit_kb + 1) * 1024" "burst = 102400"
    using assms(1) by (simp_all add: limiter_new_def split: if_splits)
  then have "100000 \<le> burst" by simp
  from io_copy_bucket [OF assms(2) this assms(3,4)] io_copy_data [OF assms(4)] bucketD(2) [OF assms(2), of g t0] lim
  show ?thesis by auto
qed

text \<open>A bucket: its content at the time of the last change.\<close>

definition example_level :: "real \<times> real \<Rightarrow> real \<Rightarrow> real" where
  "example_level g t = min 102400 (max 0 (fst g + 2048 * (t - snd g)))"

definition example_check :: "real \<times> real \<Rightarrow> real \<Rightarrow> nat \<Rightarrow> (real \<times> real) checked" where
  "example_check g t n =
     (if 102400 < n then InsufficientCapacity
      else if real n \<le> example_level g t then Allowed (example_level g t - real n, t) else NotUntil)"

lemma example_bucket: "bucket example_check example_level 2048 102400"
proof -
  have "example_level g t' \<le> example_level g t + 2048 * (t' - t)" if "t \<le> t'" for g t t'
    using that unfolding example_level_def by (simp add: min_def max_def algebra_simps)
  moreover have "0 \<le> example_level g t" "example_level g t \<le> 102400" for g t by (simp_all add: example_level_def)
  ultimately show ?thesis
    by (auto simp: bucket_def example_check_def split: if_splits) (auto simp: example_level_def)
qed

theorem rate_limit_holds_witness:
  "\<exists>s. io_copy example_check False
      [(Read_Data [1, 2, 3], 1, 0.9, [], None), (Read_Data [4], 2, 0.5, [], None), (Read_Eof, 1, 0.5, [], None)]
      \<lparr>cs_total = 0, cs_limiter = (102400, 0), cs_now = 0, cs_out = []\<rparr> = (Copied 4, s) \<and>
    cs_out s = [1, 2, 3, 4] \<and> real (length (cs_out s)) \<le> 102400 + real ((1 + 1) * 1024) * (cs_now s - 0)"
proof -
  let ?evs = "[(Read_Data [1, 2, 3], 1, 0.9, [], None), (Read_Data [4], 2, 0.5, [], None), (Read_Eof, 1, 0.5, [], None)]
    :: (copy_read \<times> real \<times> real \<times> real list \<times> io_error option) list"
  let ?s = "\<lparr>cs_total = 0, cs_limiter = (102400, 0), cs_now = 0, cs_out = []\<rparr> :: (real \<times> real) copy_state"
  have "\<lfloor>27 / 2 :: real\<rfloor> = 13" by (rule floor_unique) simp_all
  then have "charge 0.9 (Suc (Suc (Suc 0))) = 13" "charge 0.5 (Suc 0) = 1" by (simp_all add: charge_def Let_def min_def)
  then have "\<exists>s. io_copy example_check False ?evs ?s = (Copied 4, s) \<and> cs_out s = [1, 2, 3, 4]"
    by (simp add: limiter_wait_def wait_loop.simps example_check_def example_level_def Let_def)
  then obtain s where s: "io_copy example_check False ?evs ?s = (Copied 4, s)" "cs_out s = [1, 2, 3, 4]" by blast
  have "real (length (cs_out s)) \<le> 102400 + real ((1 + 1) * 1024) * (cs_now s - 0)"
    using rate_limit_holds [OF _ example_bucket _ s(1), of 1] by (simp add: limiter_new_def reads_ok_def)
  with s show ?thesis by blast
qed

section \<open>Dialing from addresses of the exit's own\<close>

text \<open>
  The source address of a dialer: none without a subnet. A panic of the draw is the outer None.
\<close>

definition eyeball_new :: "u128 \<times> nat \<Rightarrow> u128 \<Rightarrow> u128 option option" where
  "eyeball_new subnet rnd =
     (if subnet = (0, 0) then Some None else map_option Some (random_ipv6_in_net subnet rnd))"

text \<open>
  \<open>TcpStream::connect\<close> of a list tries one address after the other; the error is that of the last.
\<close>

fun connect_each :: "('a \<Rightarrow> nat \<Rightarrow> 'p outcome) \<Rightarrow> 'a list \<Rightarrow> nat \<Rightarrow> io_error \<Rightarrow> 'p outcome" where
  "connect_each tcp [] t err = Done t (Inl err)"
| "connect_each tcp (a # as) t err =
     (case tcp a t of Never \<Rightarrow> Never | Done i (Inr p) \<Rightarrow> Done i (Inr p) | Done i (Inl e) \<Rightarrow> connect_each tcp as i e)"

text \<open>
  \<open>race_ok\<close> over a list: the earliest success; when all fail, the error of the first, at the time of
  the last failure. Of two successes at the same time the model takes the first of the list.
\<close>

fun earliest :: "'p outcome list \<Rightarrow> (nat \<times> 'p) option" where
  "earliest [] = None"
| "earliest (Done i (Inr p) # os) = (case earliest os of Some (j, q) \<Rightarrow> if j < i then Some (j, q) else Some (i, p) | None \<Rightarrow> Some (i, p))"
| "earliest (_ # os) = earliest os"

definition race_ok_all :: "'p outcome list \<Rightarrow> 'p outcome" where
  "race_ok_all os =
     (case earliest os of
        Some (i, p) \<Rightarrow> Done i (Inr p)
      | None \<Rightarrow>
          if os = [] \<or> Never \<in> set os then Never
          else (case hd os of
                  Done _ r \<Rightarrow> Done (fold (\<lambda>out m. case out of Done i _ \<Rightarrow> max i m | Never \<Rightarrow> m) os 0) r
                | Never \<Rightarrow> Never))"

definition eyeball_connect ::
    "(SocketAddr \<Rightarrow> nat \<Rightarrow> 'p outcome) \<Rightarrow> (u128 \<Rightarrow> SocketAddr \<Rightarrow> nat \<Rightarrow> 'p outcome) \<Rightarrow> u128 option \<Rightarrow> SocketAddr list \<Rightarrow> nat \<Rightarrow>
      'p outcome" where
  "eyeball_connect tcp connect_from my_addr addrs t =
     (case my_addr of
        None \<Rightarrow> connect_each tcp addrs t (IoError OtherKind ''could not connect to any of the addresses'')
      | Some a \<Rightarrow>
          race_ok_all (map (\<lambda>(idx, addr). let t' = t + 500 * idx
              in case sa_ip addr of V6 _ \<Rightarrow> connect_from a addr t' | V4 _ \<Rightarrow> tcp addr t')
            (List.enumerate 0 addrs)))"

lemma earliest_spec:
  "(\<forall>i p. earliest os = Some (i, p) \<longrightarrow> Done i (Inr p) \<in> set os \<and> (\<forall>j q. Done j (Inr q) \<in> set os \<longrightarrow> i \<le> j)) \<and>
   (earliest os = None \<longrightarrow> (\<forall>j q. Done j (Inr q) \<notin> set os))"
  by (induction os rule: earliest.induct) (auto split: option.splits if_splits intro: order_trans less_imp_le, meson not_less order_trans)

text \<open>
  An exit with a subnet connects as soon as any address answers, however long the others take:
  the \<open>i\<close>th address is given a start half a second after the one before it.
\<close>

lemma eyeball_earliest:
  assumes "i < length addrs" and "sa_ip (addrs ! i) = V4 ip" and "tcp (addrs ! i) (t + 500 * i) = Done d (Inr p)"
  shows "\<exists>d' q. eyeball_connect tcp cf (Some a) addrs t = Done d' (Inr q) \<and> d' \<le> d"
proof -
  define os where "os = map (\<lambda>(idx, addr). let t' = t + 500 * idx
      in case sa_ip addr of V6 _ \<Rightarrow> cf a addr t' | V4 _ \<Rightarrow> tcp addr t') (List.enumerate 0 addrs)"
  have "os ! i = Done d (Inr p)" and "i < length os"
    using assms by (simp_all add: os_def nth_enumerate_eq Let_def)
  then have mem: "Done d (Inr p) \<in> set os" by (metis nth_mem)
  then obtain d' q where e: "earliest os = Some (d', q)" using earliest_spec [of os] by (cases "earliest os") auto
  with mem earliest_spec [of os] have "d' \<le> d" by blast
  with e show ?thesis by (simp add: eyeball_connect_def race_ok_all_def flip: os_def)
qed

text \<open>Without a subnet one address that never answers keeps all later ones from being tried.\<close>

lemma no_subnet_blocks:
  "tcp a t = Never \<Longrightarrow> eyeball_connect tcp cf None (a # addrs) t = Never"
  by (simp add: eyeball_connect_def)

text \<open>
  The socket that dials from an address of the subnet. \<open>os\<close> is the operating system with its state;
  each call either fails or succeeds. The rule of a call says what its error does: \<open>Fails\<close> ends the
  dial with a message in front of the error, \<open>Ignored\<close> does nothing, \<open>Except\<close> ends it unless the error is
  of one kind. What is dropped on an error closes the socket. The calls that were made are returned.
\<close>

datatype sock_call = Socket_New | Set_Reuse_Address | Set_Reuse_Port | Sock_Bind SocketAddr | Async_New
  | Sock_Connect SocketAddr | Writable | Into_Inner | Into_Stream

datatype call_rule = Fails string | Ignored | Except error_kind string

fun sock_calls ::
    "(sock_call \<Rightarrow> 'o \<Rightarrow> (io_error + unit) \<times> 'o) \<Rightarrow> (sock_call \<times> call_rule) list \<Rightarrow> 'o \<Rightarrow>
      (string \<times> io_error + unit) \<times> sock_call list \<times> 'o" where
  "sock_calls os [] st = (Inr (), [], st)"
| "sock_calls os ((c, r) # cs) st =
     (case os c st of
        (res, st') \<Rightarrow>
          (case (res, r) of
             (Inl e, Fails msg) \<Rightarrow> (Inl (msg, e), [c], st')
           | (Inl e, Except k msg) \<Rightarrow>
               if kind e = k then (case sock_calls os cs st' of (q, tr, st'') \<Rightarrow> (q, c # tr, st''))
               else (Inl (msg, e), [c], st')
           | _ \<Rightarrow> (case sock_calls os cs st' of (q, tr, st'') \<Rightarrow> (q, c # tr, st''))))"

definition connect_calls :: "u128 \<Rightarrow> SocketAddr \<Rightarrow> (sock_call \<times> call_rule) list" where
  "connect_calls from remote =
     [(Socket_New, Fails []), (Set_Reuse_Address, Fails []), (Set_Reuse_Port, Fails []),
      (Sock_Bind \<lparr>sa_ip = V6 from, sa_port = 0\<rparr>, Fails ''cannot bind''),
      (Async_New, Fails ''cannot build Async''),
      (Sock_Connect remote, Ignored),
      (Writable, Fails ''cannot wait until socket is writable''),
      (Sock_Connect remote, Except AlreadyExists ''cannot finish connect''),
      (Into_Inner, Fails []), (Into_Stream, Fails [])]"

definition connect_from ::
    "(sock_call \<Rightarrow> 'o \<Rightarrow> (io_error + unit) \<times> 'o) \<Rightarrow> u128 \<Rightarrow> SocketAddr \<Rightarrow> 'o \<Rightarrow>
      (string \<times> io_error + unit) \<times> sock_call list \<times> 'o" where
  "connect_from os from remote st = sock_calls os (connect_calls from remote) st"

lemma sock_calls_prefix: "sock_calls os cs st = (q, tr, st') \<Longrightarrow> prefix tr (map fst cs) \<and> (q = Inr () \<longrightarrow> tr = map fst cs)"
proof (induction cs arbitrary: st q tr st')
  case (Cons cr cs)
  obtain c r where cr: "cr = (c, r)" by (cases cr)
  obtain res mid where res: "os c st = (res, mid)" by (cases "os c st")
  obtain q' tr' st'' where rest: "sock_calls os cs mid = (q', tr', st'')" by (cases "sock_calls os cs mid")
  have "(\<exists>f. q = Inl f \<and> tr = [c]) \<or> (q = q' \<and> tr = c # tr')"
    using Cons.prems by (cases res; cases r) (auto simp: cr res rest split: if_splits)
  with Cons.IH [OF rest] show ?case by (auto simp: cr)
qed simp

text \<open>
  The exit's own address never dials: whatever the operating system answers, a socket is connected only
  after it was bound to the address of the subnet, and a dial that succeeds made every call.
\<close>

lemma connect_from_bound:
  assumes "connect_from os from remote st = (q, tr, st')" and "Sock_Connect a \<in> set tr"
  shows "a = remote \<and> (\<exists>later. tr = [Socket_New, Set_Reuse_Address, Set_Reuse_Port, Sock_Bind \<lparr>sa_ip = V6 from, sa_port = 0\<rparr>, Async_New] @
      Sock_Connect remote # later)"
proof -
  have p: "prefix tr (map fst (connect_calls from remote))"
    using sock_calls_prefix [of os "connect_calls from remote"] assms(1) unfolding connect_from_def by blast
  then have "set tr \<subseteq> set (map fst (connect_calls from remote))" by (rule set_mono_prefix)
  then have "a = remote" using assms(2) by (auto simp: connect_calls_def)
  moreover have "\<not> length tr \<le> 5"
  proof
    assume "length tr \<le> 5"
    moreover have "tr = take (length tr) (map fst (connect_calls from remote))" using p by (auto simp: prefix_def)
    ultimately have "set tr \<subseteq> set (take 5 (map fst (connect_calls from remote)))"
      by (metis set_take_subset_set_take)
    with assms(2) show False by (auto simp: connect_calls_def)
  qed
  ultimately show ?thesis using p by (auto simp: connect_calls_def prefix_Cons)
qed

text \<open>
  The second call of \<open>connect\<close> fails with whatever error it has, unless the socket is said to exist
  already: so does a dial whose first call had connected at once, when the second says that it has.
\<close>

lemma connect_from_second:
  assumes "os (Sock_Connect remote) = (\<lambda>n. (if n = 0 then Inr () else Inl e, Suc n))"
    and "\<And>c. c \<noteq> Sock_Connect remote \<Longrightarrow> os c = Pair (Inr ())"
  shows "fst (connect_from os from remote 0) = (if kind e = AlreadyExists then Inr () else Inl (''cannot finish connect'', e))"
proof -
  have "os c = Pair (Inr ())" if "c \<in> {Socket_New, Set_Reuse_Address, Set_Reuse_Port, Sock_Bind a, Async_New, Writable, Into_Inner, Into_Stream}"
    for a c using that assms(2) by blast
  then show ?thesis using assms(1) by (simp add: connect_from_def connect_calls_def)
qed

section \<open>The route of the subnet\<close>

definition is_ws :: "char \<Rightarrow> bool" where
  "is_ws c \<longleftrightarrow> c \<in> {CHR 0x09, CHR 0x0A, CHR 0x0B, CHR 0x0C, CHR 0x0D, CHR 0x20}"

text \<open>\<open>split_whitespace\<close> on ASCII text.\<close>

fun words :: "string \<Rightarrow> string \<Rightarrow> string list" where
  "words cur [] = (if cur = [] then [] else [rev cur])"
| "words cur (c # cs) = (if is_ws c then (if cur = [] then words [] cs else rev cur # words [] cs) else words (c # cur) cs)"

definition detect_ipv6_interface :: "string \<Rightarrow> string + string" where
  "detect_ipv6_interface out =
     (case find (\<lambda>l. take 7 l = ''default'') (text_lines out) of
        None \<Rightarrow> Inl ''No default IPv6 route found''
      | Some l \<Rightarrow>
          (let ws = words [] l
           in if 4 < length ws then Inr (ws ! 4) else Inl ''Unable to parse interface name from default route''))"

lemma text_lines_one: "newline \<notin> set s \<Longrightarrow> s \<noteq> [] \<Longrightarrow> text_lines s = [s]"
  by (simp add: text_lines_def)

lemma detect_gateway_route:
  "detect_ipv6_interface ''default via fe80::1 dev eth0 proto ra'' = Inr ''eth0''"
  by (simp add: detect_ipv6_interface_def text_lines_one newline_def is_ws_def Let_def)

text \<open>A default route without a gateway has the interface at another place: a number is taken for it.\<close>

lemma detect_direct_route:
  "detect_ipv6_interface ''default dev tun0 metric 1024 pref medium'' = Inr ''1024''"
  by (simp add: detect_ipv6_interface_def text_lines_one newline_def is_ws_def Let_def)

text \<open>
  \<open>configure_ipv6_routing\<close> on start-up: \<open>listing\<close> is the output of the command that lists the routes,
  and \<open>spawn\<close> says whether a command could be run; how it exits is not looked at. The commands that were
  tried are returned.
\<close>

definition route_command :: "string \<Rightarrow> string \<Rightarrow> string list \<Rightarrow> string list" where
  "route_command verb range_text args = [''ip'', ''-6'', ''route'', verb, ''local'', range_text] @ args"

definition configure_ipv6_routing ::
    "string + string \<Rightarrow> (string list \<Rightarrow> string + unit) \<Rightarrow> (u128 \<times> nat \<Rightarrow> string) \<Rightarrow> u128 \<times> nat \<Rightarrow> (string + unit) \<times> string list list" where
  "configure_ipv6_routing listing spawn show_net net =
     (if net = (0, 0) then (Inr (), [])
      else case result_bind listing detect_ipv6_interface of
             Inl e \<Rightarrow> (Inl e, [])
           | Inr iface \<Rightarrow>
               (let del = route_command ''del'' (show_net net) [];
                    ad = route_command ''add'' (show_net net) [''dev'', iface]
                in case spawn del of
                     Inl e \<Rightarrow> (Inl e, [del])
                   | Inr _ \<Rightarrow> (case spawn ad of Inl e \<Rightarrow> (Inl e, [del, ad]) | Inr _ \<Rightarrow> (Inr (), [del, ad]))))"

text \<open>
  The routes are touched only with a subnet and a default route, and a set-up that succeeds ends with
  the subnet routed over the interface of the default route.
\<close>

lemma configure_ipv6_routing_touches:
  assumes "configure_ipv6_routing listing spawn show_net net = (res, cmds)"
  shows "cmds \<noteq> [] \<longleftrightarrow> net \<noteq> (0, 0) \<and> (\<exists>out iface. listing = Inr out \<and> detect_ipv6_interface out = Inr iface)"
    and "res = Inr () \<Longrightarrow> net \<noteq> (0, 0) \<Longrightarrow> \<exists>out iface. listing = Inr out \<and> detect_ipv6_interface out = Inr iface \<and>
      last cmds = [''ip'', ''-6'', ''route'', ''add'', ''local'', show_net net, ''dev'', iface] \<and>
      spawn (last cmds) = Inr ()"
  using assms
  by (auto simp: configure_ipv6_routing_def route_command_def result_bind_def Let_def split: if_splits sum.splits)

section \<open>Lists of blocked names\<close>

text \<open>
  Every line without a number sign adds two patterns: itself, and itself without its wildcards.
  \<open>Glob::from_str\<close> of the globset library is the parameter: a pattern gives an error or what it
  matches; the set matches what one of its patterns does.
\<close>

fun drop_wildcards :: "string \<Rightarrow> string" where
  "drop_wildcards (a # b # cs) =
     (if a = CHR ''*'' \<and> b = CHR ''.'' then drop_wildcards cs else a # drop_wildcards (b # cs))"
| "drop_wildcards cs = cs"

fun oisd_globs :: "(string \<Rightarrow> string + (string \<Rightarrow> bool)) \<Rightarrow> string list \<Rightarrow> string + (string \<Rightarrow> bool) list" where
  "oisd_globs glob [] = Inr []"
| "oisd_globs glob (line # lines) =
     result_bind (glob line) (\<lambda>g1. result_bind (glob (drop_wildcards line)) (\<lambda>g2.
       result_bind (oisd_globs glob lines) (\<lambda>gs. Inr (g1 # g2 # gs))))"

definition parse_oisd :: "(string \<Rightarrow> string + (string \<Rightarrow> bool)) \<Rightarrow> string + string \<Rightarrow> string + (string \<Rightarrow> bool)" where
  "parse_oisd glob download =
     result_bind download (\<lambda>raw. result_bind (oisd_globs glob (filter (\<lambda>l. CHR ''#'' \<notin> set l) (text_lines raw))) (\<lambda>gs.
       Inr (\<lambda>name. \<exists>g \<in> set gs. g name)))"

text \<open>What is documented of patterns: one without wildcards matches itself, a leading star any prefix.\<close>

definition glob_ok :: "(string \<Rightarrow> string + (string \<Rightarrow> bool)) \<Rightarrow> bool" where
  "glob_ok glob \<longleftrightarrow>
     (\<forall>d. CHR ''*'' \<notin> set d \<longrightarrow> glob d = Inr ((=) d) \<and>
        glob (''*.'' @ d) = Inr (\<lambda>name. \<exists>p. name = p @ ''.'' @ d))"

lemma drop_wildcards_plain: "CHR ''*'' \<notin> set d \<Longrightarrow> drop_wildcards d = d"
  by (induction d rule: drop_wildcards.induct) auto

lemma oisd_globs_entry:
  assumes "oisd_globs glob lines = Inr gs" and "line \<in> set lines"
  shows "\<exists>g1 g2. glob line = Inr g1 \<and> glob (drop_wildcards line) = Inr g2 \<and> g1 \<in> set gs \<and> g2 \<in> set gs"
  using assms
  by (induction lines arbitrary: gs) (auto simp: result_bind_def split: sum.splits)


definition example_glob :: "string \<Rightarrow> string + (string \<Rightarrow> bool)" where
  "example_glob p = Inr (if take 2 p = ''*.'' then (\<lambda>name. \<exists>q. name = q @ ''.'' @ drop 2 p) else (=) p)"


end
