(* ===== verification/Listeners.thy ===== *)
theory Listeners
  imports Complex_Main Dialers
begin

text \<open>
  Listeners (libraries/sillad/src/tcp.rs, libraries/sillad/src/listener.rs and the listener of
  libraries/sillad-conntest/src/lib.rs): accepting with retries, joining two listeners, and testing
  connections in the background before they are accepted.
\<close>

section \<open>Accepting TCP connections\<close>

text \<open>
  What an attempt gives, its errors of accepting, of socket options and of the peer's address alike,
  and the factor from 1 to 2 that is drawn for the next delay. The result is the connection or the
  last error, with the seconds slept; None while the attempts given are used up and it still waits.
\<close>

fun tcp_accept_from :: "nat \<Rightarrow> real \<Rightarrow> io_error option \<Rightarrow> real \<Rightarrow> ((io_error + 'p) \<times> real) list \<Rightarrow> ((io_error + 'p) \<times> real) option" where
  "tcp_accept_from 0 delay_secs err slept atts = map_option (\<lambda>e. (Inl e, slept)) err"
| "tcp_accept_from (Suc n) delay_secs err slept [] = None"
| "tcp_accept_from (Suc n) delay_secs err slept ((Inr p, u) # atts) = Some (Inr p, slept)"
| "tcp_accept_from (Suc n) delay_secs err slept ((Inl e, u) # atts) =
     tcp_accept_from n (delay_secs * u) (Some e) (slept + delay_secs * u) atts"

definition tcp_accept :: "((io_error + 'p) \<times> real) list \<Rightarrow> ((io_error + 'p) \<times> real) option" where
  "tcp_accept atts = tcp_accept_from 4 1 None 0 atts"

definition jitter_ok :: "((io_error + 'p) \<times> real) list \<Rightarrow> bool" where
  "jitter_ok atts \<longleftrightarrow> (\<forall>(_, u) \<in> set atts. 1 \<le> u \<and> u < 2)"

lemma tcp_accept_from_spec:
  assumes "jitter_ok atts" and "0 < d" and "n \<le> length atts" and "n = 0 \<longrightarrow> err \<noteq> None"
  shows "\<exists>r t. tcp_accept_from n d err slept atts = Some (r, t) \<and> slept \<le> t \<and> t \<le> slept + (2 ^ (n + 1) - 2) * d \<and>
    (case find (\<lambda>(r, _). \<not> isl r) (take n atts) of
       Some (r', _) \<Rightarrow> r = r'
     | None \<Rightarrow> r = (if n = 0 then Inl (the err) else fst (atts ! (n - 1))))"
  using assms
proof (induction n d err slept atts rule: tcp_accept_from.induct)
  case (3 n d err slept p u atts)
  have "0 \<le> (2 ^ (Suc n + 1) - 2) * d"
    using 3(2) one_le_power [of "2 :: real" "n + 1"] by (intro mult_nonneg_nonneg) simp_all
  then show ?case by simp
next
  case (4 n d err slept e u atts)
  from 4(2,3) have u: "1 \<le> u" "u < 2" and j: "jitter_ok atts" and du: "0 < d * u" by (auto simp: jitter_ok_def)
  from 4(1) [OF j du] 4(4) obtain r t where r:
      "tcp_accept_from n (d * u) (Some e) (slept + d * u) atts = Some (r, t)" "slept + d * u \<le> t"
      "t \<le> slept + d * u + (2 ^ (n + 1) - 2) * (d * u)"
      "case find (\<lambda>(r, _). \<not> isl r) (take n atts) of Some (r', _) \<Rightarrow> r = r'
        | None \<Rightarrow> r = (if n = 0 then Inl (the (Some e)) else fst (atts ! (n - 1)))" by auto
  have "d * u + (2 ^ (n + 1) - 2) * (d * u) = (2 ^ (n + 1) - 1) * (d * u)" by (simp add: algebra_simps)
  also have "\<dots> \<le> (2 ^ (n + 1) - 1) * (d * 2)"
    using u(2) \<open>0 < d\<close> one_le_power [of "2 :: real" "n + 1"] by (intro mult_left_mono) simp_all
  also have "\<dots> = (2 ^ (Suc n + 1) - 2) * d" by (simp add: algebra_simps)
  finally have "t \<le> slept + (2 ^ (Suc n + 1) - 2) * d" using r(3) by simp
  moreover have "slept \<le> t" using r(2) du by simp
  ultimately show ?case using r(1,4) by (cases n) (auto split: option.splits)
qed (auto split: option.splits)

text \<open>
  Accepting a TCP connection tries four times. It gives the first attempt that succeeds among
  four, with at most 30 seconds of sleep, and otherwise the error of the fourth; it never gives up
  earlier and never panics.
\<close>

theorem tcp_accept_backs_off:
  assumes "jitter_ok atts" and "4 \<le> length atts"
  shows "\<exists>r slept. tcp_accept atts = Some (r, slept) \<and> 0 \<le> slept \<and> slept \<le> 30 \<and>
    r = (case find (\<lambda>(r, _). \<not> isl r) (take 4 atts) of Some (r', _) \<Rightarrow> r' | None \<Rightarrow> fst (atts ! 3))"
  using tcp_accept_from_spec [OF assms(1), of 1 4 None 0] assms(2)
  by (auto simp: tcp_accept_def split: option.splits)

theorem tcp_accept_backs_off_witness:
  "tcp_accept [(Inl (IoError OtherKind ''too many open files''), 1.5), (Inr (7 :: nat), 1), (Inr 8, 1), (Inr 9, 1)] =
     Some (Inr 7, 1.5) \<and>
   (\<exists>slept. tcp_accept [(Inl (IoError OtherKind ''too many open files''), 1.5), (Inr (7 :: nat), 1), (Inr 8, 1), (Inr 9, 1)] =
     Some (Inr 7, slept) \<and> 0 \<le> slept \<and> slept \<le> 30)"
  using tcp_accept_backs_off [of "[(Inl (IoError OtherKind ''too many open files''), 1.5), (Inr (7 :: nat), 1), (Inr 8, 1), (Inr 9, 1)]"]
  by (simp add: jitter_ok_def tcp_accept_def eval_nat_numeral)

section \<open>Joining listeners\<close>

text \<open>
  The next result of a listener and when it comes. Of two that come at once the source takes either,
  the model the left.
\<close>

definition join_accept :: "'p outcome \<Rightarrow> 'q outcome \<Rightarrow> ('p + 'q) outcome" where
  "join_accept l r =
     (case (l, r) of
        (Never, Never) \<Rightarrow> Never
      | (Done i x, Never) \<Rightarrow> Done i (map_sum id Inl x)
      | (Never, Done j y) \<Rightarrow> Done j (map_sum id Inr y)
      | (Done i x, Done j y) \<Rightarrow> if i \<le> j then Done i (map_sum id Inl x) else Done j (map_sum id Inr y))"

text \<open>Two listeners of one kind, of which one is chosen when it is made.\<close>

definition either_accept :: "('l \<Rightarrow> 'p outcome) \<Rightarrow> ('r \<Rightarrow> 'q outcome) \<Rightarrow> 'l + 'r \<Rightarrow> ('p + 'q) outcome" where
  "either_accept la ra listener =
     (case listener of
        Inl l \<Rightarrow> join_accept (la l) Never
      | Inr r \<Rightarrow> join_accept Never (ra r))"

section \<open>Testing connections in the background\<close>

text \<open>
  The listener of the connection test: connections under test with the time when their test is given
  up, the channel of one place to the caller, and what the caller has accepted. \<open>input\<close> is what a
  connection sends. A test that fails or is given up drops its connection; so does a full channel
  that stays full until then.
\<close>

record 'c tester =
  ct_now :: nat
  ct_tests :: "'c \<rightharpoonup> nat"
  ct_chan :: "'c list"
  ct_accepted :: "'c list"
  ct_dropped :: "'c set"

definition ct_init :: "'c tester \<Rightarrow> bool" where
  "ct_init s \<longleftrightarrow> ct_tests s = Map.empty \<and> ct_chan s = [] \<and> ct_accepted s = [] \<and> ct_dropped s = {}"

definition ct_seen :: "'c tester \<Rightarrow> 'c set" where
  "ct_seen s = dom (ct_tests s) \<union> set (ct_chan s) \<union> set (ct_accepted s) \<union> ct_dropped s"

definition test_passed :: "bytes \<Rightarrow> bool" where
  "test_passed inp \<longleftrightarrow> \<not> isl (snd (conntest_serve inp))"

inductive ct_step :: "('c \<Rightarrow> bytes) \<Rightarrow> 'c tester \<Rightarrow> 'c tester \<Rightarrow> bool" for input where
  Arrive: "c \<notin> ct_seen s \<Longrightarrow> ct_step input s (s\<lparr>ct_tests := (ct_tests s)(c \<mapsto> ct_now s + 30000)\<rparr>)"
| Pass: "ct_tests s c = Some d \<Longrightarrow> test_passed (input c) \<Longrightarrow> ct_chan s = [] \<Longrightarrow>
    ct_step input s (s\<lparr>ct_tests := (ct_tests s)(c := None), ct_chan := [c]\<rparr>)"
| Fail: "ct_tests s c = Some d \<Longrightarrow> \<not> test_passed (input c) \<Longrightarrow>
    ct_step input s (s\<lparr>ct_tests := (ct_tests s)(c := None), ct_dropped := insert c (ct_dropped s)\<rparr>)"
| Expire: "ct_tests s c = Some d \<Longrightarrow> d \<le> ct_now s \<Longrightarrow>
    ct_step input s (s\<lparr>ct_tests := (ct_tests s)(c := None), ct_dropped := insert c (ct_dropped s)\<rparr>)"
| Accept: "ct_chan s = c # q \<Longrightarrow> ct_step input s (s\<lparr>ct_chan := q, ct_accepted := ct_accepted s @ [c]\<rparr>)"
| Tick: "ct_step input s (s\<lparr>ct_now := ct_now s + dt\<rparr>)"

definition ct_inv :: "('c \<Rightarrow> bytes) \<Rightarrow> 'c tester \<Rightarrow> bool" where
  "ct_inv input s \<longleftrightarrow>
     distinct (ct_accepted s @ ct_chan s) \<and> length (ct_chan s) \<le> 1 \<and>
     (\<forall>c \<in> set (ct_accepted s @ ct_chan s). test_passed (input c) \<and> ct_tests s c = None \<and> c \<notin> ct_dropped s) \<and>
     (\<forall>c d. ct_tests s c = Some d \<longrightarrow> c \<notin> ct_dropped s \<and> d \<le> ct_now s + 30000)"

interpretation tester: invariant_system ct_init "ct_step input" "ct_inv input" for input :: "'c \<Rightarrow> bytes"
proof
  show "ct_inv input s" if "ct_init s" for s :: "'c tester" using that by (simp add: ct_init_def ct_inv_def)
next
  show "ct_inv input t" if "ct_inv input s" and "ct_step input s t" for s t :: "'c tester"
    using that(2,1)
  proof cases
    case (Tick dt)
    with that(1) show ?thesis by (fastforce simp: ct_inv_def)
  qed (auto simp: ct_inv_def ct_seen_def split: if_splits)
qed

text \<open>
  A connection is handed out at most once and only after its whole test; one that is slow does not
  hold up another, which can be handed out as soon as its test is over and the caller has taken the
  one before.
\<close>

lemma accepted_tested:
  assumes "reachable ct_init (ct_step input) s"
  shows "distinct (ct_accepted s) \<and> (\<forall>c \<in> set (ct_accepted s). test_passed (input c))"
  using tester.reachable_inv [OF assms] by (auto simp: ct_inv_def)

lemma tested_not_blocked:
  assumes "ct_tests s c = Some d" and "test_passed (input c)" and "length (ct_chan s) \<le> 1"
  shows "\<exists>t. (ct_step input)\<^sup>*\<^sup>* s t \<and> c \<in> set (ct_accepted t)"
proof -
  obtain s1 where s1: "(ct_step input)\<^sup>*\<^sup>* s s1" "ct_chan s1 = []" "ct_tests s1 c = Some d"
  proof (cases "ct_chan s")
    case Nil
    then show ?thesis using that assms(1) by blast
  next
    case (Cons x q)
    then have "q = []" using assms(3) by simp
    define u where "u = s\<lparr>ct_chan := q, ct_accepted := ct_accepted s @ [x]\<rparr>"
    have "ct_step input s u" unfolding u_def using Cons by (rule ct_step.Accept)
    then show ?thesis using that [of u] assms(1) \<open>q = []\<close> by (simp add: u_def r_into_rtranclp)
  qed
  define s2 where "s2 = s1\<lparr>ct_tests := (ct_tests s1)(c := None), ct_chan := [c]\<rparr>"
  have "ct_step input s1 s2" unfolding s2_def using s1(2,3) assms(2) by (intro ct_step.Pass)
  moreover define s3 where "s3 = s2\<lparr>ct_chan := [], ct_accepted := ct_accepted s2 @ [c]\<rparr>"
  moreover have "ct_step input s2 s3" unfolding s3_def by (rule ct_step.Accept) (simp add: s2_def)
  ultimately have "(ct_step input)\<^sup>*\<^sup>* s s3" using s1(1) by (meson rtranclp.rtrancl_into_rtrancl)
  moreover have "c \<in> set (ct_accepted s3)" by (simp add: s3_def)
  ultimately show ?thesis by blast
qed

end
