(* ===== verification/Bandwidth.thy ===== *)
theory Bandwidth
  imports Complex_Main Stream_Tasks
begin

text \<open>
  The bandwidth estimate of a picomux stream (libraries/picomux/src/bdp.rs) and the window that is
  made of it (\<open>outgoing_task\<close> in libraries/picomux/src/lib.rs): the number \<open>raw\<close> of Stream_Tasks. The
  source computes in f64; here finite values are exact reals, and the values that are not finite,
  which the code can reach, are values of their own. All amounts are non-negative.
\<close>

datatype f64 = NaN | PosInf | Fin real

fun f64_div :: "f64 \<Rightarrow> f64 \<Rightarrow> f64" where
  "f64_div (Fin x) (Fin y) = (if y = 0 then (if x = 0 then NaN else PosInf) else Fin (x / y))"
| "f64_div (Fin x) PosInf = Fin 0"
| "f64_div PosInf (Fin y) = PosInf"
| "f64_div _ _ = NaN"

fun f64_mul :: "f64 \<Rightarrow> f64 \<Rightarrow> f64" where
  "f64_mul (Fin x) (Fin y) = Fin (x * y)"
| "f64_mul (Fin x) PosInf = (if x = 0 then NaN else PosInf)"
| "f64_mul PosInf (Fin y) = (if y = 0 then NaN else PosInf)"
| "f64_mul PosInf PosInf = PosInf"
| "f64_mul _ _ = NaN"

fun f64_add :: "f64 \<Rightarrow> f64 \<Rightarrow> f64" where
  "f64_add (Fin x) (Fin y) = Fin (x + y)"
| "f64_add NaN _ = NaN"
| "f64_add _ NaN = NaN"
| "f64_add _ _ = PosInf"

text \<open>The cast to usize saturates and makes NaN zero.\<close>

definition f64_as_usize :: "f64 \<Rightarrow> nat" where
  "f64_as_usize x = (case x of NaN \<Rightarrow> 0 | PosInf \<Rightarrow> 2 ^ 64 - 1 | Fin r \<Rightarrow> min (2 ^ 64 - 1) (nat \<lfloor>r\<rfloor>))"

record BwEstimate =
  accum :: f64
  last_update :: real

definition bw_new :: "real \<Rightarrow> f64 \<Rightarrow> BwEstimate" where
  "bw_new now init_estimate = \<lparr>accum = init_estimate, last_update = now\<rparr>"

text \<open>\<open>now\<close> is in seconds; a clock that went back counts as one that stood still.\<close>

definition bw_sample :: "real \<Rightarrow> nat \<Rightarrow> BwEstimate \<Rightarrow> BwEstimate" where
  "bw_sample now delta b =
     (let delta_t = max 0 (now - last_update b);
          speed_sample = f64_div (Fin (real delta)) (Fin delta_t);
          decay_ratio = 1 / 2 powr delta_t
      in b\<lparr>accum := f64_add (f64_mul (accum b) (Fin decay_ratio)) (f64_mul speed_sample (Fin (1 - decay_ratio))),
           last_update := now\<rparr>)"

definition bw_read :: "BwEstimate \<Rightarrow> f64" where
  "bw_read b = accum b"

text \<open>The target of the receive window that an estimate gives, before it is clamped.\<close>

definition bw_raw :: "f64 \<Rightarrow> nat" where
  "bw_raw estimate = f64_as_usize (f64_div (f64_div estimate (Fin (real MSS))) (Fin 2))"

fun bw_run :: "(real \<times> nat) list \<Rightarrow> BwEstimate \<Rightarrow> BwEstimate" where
  "bw_run [] b = b"
| "bw_run ((now, delta) # samples) b = bw_run samples (bw_sample now delta b)"

lemma bw_sample_later:
  assumes "last_update b < now" and "accum b = Fin a"
  shows "accum (bw_sample now delta b) =
    Fin (real delta / (now - last_update b) +
         (a - real delta / (now - last_update b)) * 2 powr (last_update b - now))"
proof -
  have "x / 2 powr (now - last_update b) = x * 2 powr (last_update b - now)" for x
    using powr_minus_divide [of 2 "now - last_update b"] by simp
  with assms show ?thesis by (simp add: bw_sample_def Let_def max_def algebra_simps)
qed

lemma bw_sample_last [simp]: "last_update (bw_sample now delta b) = now"
  by (simp add: bw_sample_def Let_def)

text \<open>
  The estimate is a mean of the speeds that were measured and of the one it started with.
\<close>

lemma bw_sample_between:
  assumes "last_update b < now" and "accum b = Fin a" and "lo \<le> a" "a \<le> hi"
    and "lo \<le> real delta / (now - last_update b)" "real delta / (now - last_update b) \<le> hi"
  shows "\<exists>r. accum (bw_sample now delta b) = Fin r \<and> lo \<le> r \<and> r \<le> hi"
proof -
  define s w where "s = real delta / (now - last_update b)" and "w = 2 powr (last_update b - now)"
  have w: "0 \<le> w" "w \<le> 1" using assms(1) powr_mono [of "last_update b - now" 0 2] by (simp_all add: w_def)
  have r: "accum (bw_sample now delta b) = Fin (w * a + (1 - w) * s)"
    using bw_sample_later [OF assms(1,2), of delta] by (simp add: s_def w_def algebra_simps)
  have "lo \<le> w * a + (1 - w) * s" "w * a + (1 - w) * s \<le> hi"
    using convex_bound_le [of a hi s w "1 - w"] convex_bound_le [of "- a" "- lo" "- s" w "1 - w"] w assms(3-6)
    by (simp_all add: s_def algebra_simps)
  with r show ?thesis by blast
qed

text \<open>
  C7: The estimate is independent of how the traffic is cut into samples. While data arrives at a
  constant speed, however many samples at whatever growing times report it, the estimate differs
  from that speed by the initial difference halved once per second: only the time that passed
  counts, not the number or the spacing of the samples.
\<close>

theorem bandwidth_antialiased:
  assumes "sorted_wrt (<) (t0 # map fst samples)"
    and "\<forall>i < length samples. real (snd (samples ! i)) = speed * (fst (samples ! i) - (t0 # map fst samples) ! i)"
  shows "bw_read (bw_run samples (bw_new t0 (Fin a))) =
    Fin (speed + (a - speed) * 2 powr (t0 - last (t0 # map fst samples)))"
  using assms
proof (induction samples arbitrary: t0 a)
  case Nil
  then show ?case by (simp add: bw_read_def bw_new_def)
next
  case (Cons s samples)
  obtain now delta where s: "s = (now, delta)" by force
  from Cons.prems s have lt: "t0 < now" by simp
  have sp: "real delta / (now - t0) = speed" using Cons.prems(2) s lt by force
  define a' where "a' = speed + (a - speed) * 2 powr (t0 - now)"
  have step: "bw_sample now delta (bw_new t0 (Fin a)) = bw_new now (Fin a')"
    using bw_sample_later [of "bw_new t0 (Fin a)" now a delta] lt sp
    by (simp add: bw_new_def a'_def bw_sample_def Let_def)
  have "bw_read (bw_run samples (bw_new now (Fin a'))) =
      Fin (speed + (a' - speed) * 2 powr (now - last (now # map fst samples)))"
  proof (rule Cons.IH)
    show "sorted_wrt (<) (now # map fst samples)" using Cons.prems(1) s by simp
    show "\<forall>i < length samples. real (snd (samples ! i)) = speed * (fst (samples ! i) - (now # map fst samples) ! i)"
      using Cons.prems(2) s by fastforce
  qed
  moreover have "(a' - speed) * 2 powr (now - x) = (a - speed) * 2 powr (t0 - x)" for x
    by (simp add: a'_def powr_add [symmetric] mult.assoc)
  ultimately show ?case using s step by simp
qed

theorem bandwidth_antialiased_witness:
  "bw_read (bw_run [(1, 1000), (3, 2000)] (bw_new 0 (Fin 9000))) = Fin 2000"
proof -
  have "bw_read (bw_run [(1, 1000), (3, 2000)] (bw_new 0 (Fin 9000))) = Fin (1000 + (9000 - 1000) * 2 powr (0 - 3))"
    using bandwidth_antialiased [of 0 "[(1, 1000), (3, 2000)]" 1000 9000]
    by (simp add: less_Suc_eq_0_disj all_conj_distrib)
  then show ?thesis by (simp add: powr_minus)
qed

text \<open>
  Two frames at the same instant poison the estimate: an infinite speed times zero is not a number,
  and neither is anything that is computed from it. From then on the stream asks for the smallest
  window, and so does every stream of the session that starts with its estimate.
\<close>

lemma bw_sample_same_instant: "now \<le> last_update b \<Longrightarrow> accum (bw_sample now delta b) = NaN"
  by (cases "accum b") (simp_all add: bw_sample_def Let_def)

lemma bw_run_NaN: "accum b = NaN \<Longrightarrow> bw_read (bw_run samples b) = NaN"
proof (induction samples b rule: bw_run.induct)
  case (2 now delta samples b)
  then show ?case by (simp add: bw_sample_def Let_def)
qed (simp add: bw_read_def)

lemma bw_poisoned:
  assumes "now \<le> last_update (bw_run before b)"
  shows "bw_raw (bw_read (bw_run (before @ (now, delta) # later) b)) = 0"
proof -
  have "bw_run (xs @ ys) b = bw_run ys (bw_run xs b)" for xs ys b by (induction xs b rule: bw_run.induct) auto
  then show ?thesis
    using bw_run_NaN [OF bw_sample_same_instant [OF assms, of delta], of later]
    by (simp add: bw_raw_def f64_as_usize_def)
qed

lemma poisoned_window:
  assumes "flow_step (bw_raw NaN) fl = Some (fl', g)"
  shows "target_remote_window fl' = INIT_WINDOW"
  using assms by (auto simp: flow_step_def bw_raw_def f64_as_usize_def clamp_def window_defs Let_def split: option.splits if_splits)

end
