(* ===== verification/Client_Dialer.thy ===== *)
theory Client_Dialer
  imports Dialers
begin

text \<open>
  How the client chooses an exit and a way to it (binaries/geph5-client/src/get_dialer.rs): the
  choice among the exits the broker signed, the dialer to the chosen one and the cache around
  both. Everything that comes from outside in one call - the connect token, the broker's answers,
  the resolver's - is the record \<open>answers\<close>.
\<close>

section \<open>Choosing an exit\<close>

datatype ExitConstraint =
    Auto
  | Direct string
  | Hostname string
  | Country string
  | CountryCity string string

datatype BridgeMode = AutoMode | ForceBridges | ForceDirect

fun matches :: "ExitConstraint \<Rightarrow> ExitDescriptor \<Rightarrow> bool" where
  "matches Auto exit = True"
| "matches (Direct _) exit = True"
| "matches (Hostname host) exit = (addr_ip (b2e_listen exit) = host)"
| "matches (Country c) exit = (country exit = c)"
| "matches (CountryCity c ci) exit = (country exit = c \<and> city exit = ci)"

text \<open>Iterator::min_by_key: the first of the elements with the least key.\<close>

fun min_by_key :: "('a \<Rightarrow> 'k::linorder) \<Rightarrow> 'a list \<Rightarrow> 'a option" where
  "min_by_key key [] = None"
| "min_by_key key (x # xs) = Some (foldl (\<lambda>best y. if key y < key best then y else best) x xs)"

text \<open>
  \<open>picker\<close> is the floating-point weight of load-sensitive rendezvous hashing, which is compared
  in the total order of OrderedFloat. None is the panic for a direct constraint.
\<close>

definition pick_exit_with_constraint ::
    "(bytes \<times> ExitDescriptor \<Rightarrow> 'k::linorder) \<Rightarrow> ExitConstraint \<Rightarrow> ExitList
       \<Rightarrow> (string + bytes \<times> ExitDescriptor) option" where
  "pick_exit_with_constraint picker constraint exits_verified =
     (case constraint of
        Direct _ \<Rightarrow> None
      | _ \<Rightarrow>
          (let filtered = filter (\<lambda>(_, exit). matches constraint exit) (all_exits exits_verified)
           in if filtered = [] then Some (Inl ''no exits match the constraints'')
              else map_option Inr (min_by_key picker filtered)))"

lemma min_by_key_Some:
  "min_by_key key xs = Some m \<Longrightarrow> m \<in> set xs \<and> (\<forall>x \<in> set xs. key m \<le> key x)"
proof -
  have "let m = foldl (\<lambda>best y. if key y < key best then y else best) x xs
        in m \<in> set (x # xs) \<and> (\<forall>y \<in> set (x # xs). key m \<le> key y)" for x xs
  proof (induction xs arbitrary: x)
    case Nil
    then show ?case by simp
  next
    case (Cons y ys)
    from Cons [of "if key y < key x then y else x"] show ?case
      by (auto simp: Let_def split: if_splits intro: order_trans less_imp_le)
  qed
  then show "min_by_key key xs = Some m \<Longrightarrow> m \<in> set xs \<and> (\<forall>x \<in> set xs. key m \<le> key x)"
    by (cases xs) (auto simp: Let_def)
qed

lemma pick_exit_ok:
  assumes "pick_exit_with_constraint picker constraint l = Some (Inr (pk, exit))"
  shows "(pk, exit) \<in> set (all_exits l)" "matches constraint exit"
proof -
  have "min_by_key picker (filter (\<lambda>(_, exit). matches constraint exit) (all_exits l)) = Some (pk, exit)"
    using assms by (auto simp: pick_exit_with_constraint_def Let_def split: ExitConstraint.splits if_splits)
  from min_by_key_Some [OF this] show "(pk, exit) \<in> set (all_exits l)" "matches constraint exit" by auto
qed

section \<open>The dialer\<close>

record dialer_config =
  exit_constraint :: ExitConstraint
  bridge_mode :: BridgeMode
  broker_master :: "string option"
  cfg_vpn :: bool

record answers =
  an_level :: "string + AccountLevel"
  an_exits :: "AccountLevel \<Rightarrow> string + ExitList Signed"
  an_routes :: "sock_addr \<Rightarrow> string + RouteDescriptor"
  an_resolve :: "string \<Rightarrow> string + sock_addr list"
  an_choice :: nat

type_synonym target = "bytes \<times> ExitDescriptor \<times> dialer"

record 'k dialer_env =
  de_pc :: proto_crypto
  code_exit_list :: "ExitList \<Rightarrow> bytes"
  valid_key :: "bytes \<Rightarrow> bool"
  picker :: "bytes \<times> ExitDescriptor \<Rightarrow> 'k"

definition direct_descriptor :: ExitDescriptor where
  "direct_descriptor =
     \<lparr>c2e_listen = ''0.0.0.0:0'', b2e_listen = ''0.0.0.0:0'', country = ''ABW'', city = '''',
      load = 0, expiry = 0\<rparr>"

definition whitelisted :: "dialer_config \<Rightarrow> sock_addr \<Rightarrow> string list" where
  "whitelisted cfg addr = (if cfg_vpn cfg then [addr_ip addr] else [])"

definition direct_target :: "'k dialer_env \<Rightarrow> dialer_config \<Rightarrow> answers \<Rightarrow> string \<Rightarrow> (string + target) \<times> string list" where
  "direct_target env cfg an dir =
     (case split_once CHR ''/'' dir of
        None \<Rightarrow> (Inl ''did not find / in a direct constraint'', [])
      | Some (host, pubkey_hex) \<Rightarrow>
          (case hex_decode pubkey_hex of
             None \<Rightarrow> (Inl ''cannot decode pubkey as hex'', [])
           | Some key \<Rightarrow>
               if length key \<noteq> 32 then (Inl ''pubkey wrong length'', [])
               else if \<not> valid_key env key then (Inl ''signature error'', [])
               else (case an_resolve an host of
                       Inl e \<Rightarrow> (Inl e, [])
                     | Inr addrs \<Rightarrow>
                         if addrs = [] then (Inl ''could not resolve destination for direct exit connection'', [])
                         else let dest_addr = addrs ! (an_choice an mod length addrs)
                              in (Inr (key, direct_descriptor, ConnTestDialer (TcpDialer dest_addr) 1),
                                  whitelisted cfg dest_addr))))"

definition final_dialer :: "BridgeMode \<Rightarrow> dialer \<Rightarrow> dialer \<Rightarrow> dialer" where
  "final_dialer mode direct bridge =
     (case mode of
        AutoMode \<Rightarrow> RaceDialer direct (DelayDialer bridge 1000)
      | ForceBridges \<Rightarrow> bridge
      | ForceDirect \<Rightarrow> direct)"

text \<open>The result, and the addresses put on the whitelist of the VPN on the way. None is a panic.\<close>

definition get_dialer_inner ::
    "'k::linorder dialer_env \<Rightarrow> dialer_config \<Rightarrow> answers \<Rightarrow> ((string + target) \<times> string list) option" where
  "get_dialer_inner env cfg an =
     (case exit_constraint cfg of
        Direct dir \<Rightarrow> Some (direct_target env cfg an dir)
      | constraint \<Rightarrow>
          (case result_bind (an_level an) (an_exits an) of
             Inl e \<Rightarrow> Some (Inl e, [])
           | Inr exits_response \<Rightarrow>
               (case signed_verify (de_pc env) (code_exit_list env) exits_response DOMAIN_EXIT_DESCRIPTOR
                       (\<lambda>their_pk. case broker_master cfg of Some m \<Rightarrow> hex_encode their_pk = m | None \<Rightarrow> True) of
                  Inl e \<Rightarrow> Some (Inl ''could not verify exits'', [])
                | Inr exits_verified \<Rightarrow>
                    (case pick_exit_with_constraint (picker env) constraint exits_verified of
                       None \<Rightarrow> None
                     | Some (Inl e) \<Rightarrow> Some (Inl e, [])
                     | Some (Inr (pk, exit)) \<Rightarrow>
                         (case an_routes an (b2e_listen exit) of
                            Inl e \<Rightarrow> Some (Inl e, whitelisted cfg (c2e_listen exit))
                          | Inr bridge_routes \<Rightarrow>
                              let direct = ConnTestDialer (TcpDialer (c2e_listen exit)) 1;
                                  (bridge, w) = route_to_dialer (cfg_vpn cfg) bridge_routes
                              in Some (Inr (pk, exit, final_dialer (bridge_mode cfg) direct bridge),
                                       whitelisted cfg (c2e_listen exit) @ w))))))"

section \<open>The cache\<close>

record dialer_state =
  cached_value :: "(target \<times> nat) option"
  vpn_whitelist :: "string list"

text \<open>
  A call at second \<open>now\<close>; \<open>stop\<close> is Some k when the inner call is cancelled by its time limit after
  it has put k addresses on the whitelist.
\<close>

definition get_dialer ::
    "'k::linorder dialer_env \<Rightarrow> dialer_config \<Rightarrow> answers \<Rightarrow> nat option \<Rightarrow> nat \<Rightarrow> dialer_state
       \<Rightarrow> ((string + target) \<times> dialer_state) option" where
  "get_dialer env cfg an stop now st =
     (let refresh =
        (case get_dialer_inner env cfg an of
           None \<Rightarrow> None
         | Some (res, w) \<Rightarrow>
             (let (res', w') = (case stop of Some k \<Rightarrow> (Inl ''get_dialer_inner timed out'', take k w) | None \<Rightarrow> (res, w));
                  st' = st\<lparr>vpn_whitelist := vpn_whitelist st @ w'\<rparr>
              in case res' of
                   Inr val \<Rightarrow> Some (Inr val, st'\<lparr>cached_value := Some (val, now)\<rparr>)
                 | Inl err \<Rightarrow>
                     (case cached_value st of
                        Some (val, _) \<Rightarrow> Some (Inr val, st')
                      | None \<Rightarrow> Some (Inl err, st'))))
      in case cached_value st of
           Some (val, t) \<Rightarrow>
             if now < t then Some (Inl ''second time provided was later than self'', st)
             else if now - t < 10 then Some (Inr val, st)
             else refresh
         | None \<Rightarrow> refresh)"

inductive dialer_step :: "'k::linorder dialer_env \<Rightarrow> dialer_config \<Rightarrow> dialer_state \<Rightarrow> dialer_state \<Rightarrow> bool"
  for env cfg where
  call: "get_dialer env cfg an stop now st = Some (r, st') \<Longrightarrow> dialer_step env cfg st st'"

definition dialer_init :: "dialer_state \<Rightarrow> bool" where
  "dialer_init st \<longleftrightarrow> st = \<lparr>cached_value = None, vpn_whitelist = []\<rparr>"

text \<open>
  What is promised of a target: unless the user names the exit himself, key and descriptor are
  an entry of a list signed by the broker's master key and match the user's constraint.
\<close>

definition trusted :: "'k dialer_env \<Rightarrow> dialer_config \<Rightarrow> target \<Rightarrow> bool" where
  "trusted env cfg v \<longleftrightarrow>
     (case (exit_constraint cfg, broker_master cfg) of
        (Direct dir, _) \<Rightarrow> \<exists>host h. split_once CHR ''/'' dir = Some (host, h) \<and> hex_decode h = Some (fst v)
      | (constraint, Some m) \<Rightarrow>
          \<exists>s :: ExitList Signed. hex_encode (pubkey s) = m \<and>
            ed_verify (de_pc env) (pubkey s)
              (signed_digest (de_pc env) (code_exit_list env) DOMAIN_EXIT_DESCRIPTOR (signed_inner s)) (signature s) \<and>
            (fst v, fst (snd v)) \<in> set (all_exits (signed_inner s)) \<and> matches constraint (fst (snd v))
      | (constraint, None) \<Rightarrow> matches constraint (fst (snd v)))"

definition covered :: "dialer_config \<Rightarrow> string list \<Rightarrow> target \<Rightarrow> bool" where
  "covered cfg w v \<longleftrightarrow> (cfg_vpn cfg \<longrightarrow> addr_ip ` set (tcp_addrs (snd (snd v))) \<subseteq> set w)"

definition dialer_inv :: "'k dialer_env \<Rightarrow> dialer_config \<Rightarrow> dialer_state \<Rightarrow> bool" where
  "dialer_inv env cfg st \<longleftrightarrow>
     (\<forall>v t. cached_value st = Some (v, t) \<longrightarrow> trusted env cfg v \<and> covered cfg (vpn_whitelist st) v)"

lemma direct_target_ok:
  assumes "direct_target env cfg an dir = (Inr v, w)" and "exit_constraint cfg = Direct dir"
  shows "trusted env cfg v" "covered cfg w v"
  using assms
  by (auto simp: direct_target_def trusted_def covered_def whitelisted_def Let_def
      split: option.splits prod.splits if_splits sum.splits)

lemma final_dialer_covered:
  assumes "route_to_dialer (cfg_vpn cfg) r = (bridge, w)"
  shows "covered cfg (whitelisted cfg a @ w) (pk, exit, final_dialer mode (ConnTestDialer (TcpDialer a) n) bridge)"
proof -
  have "w = (if cfg_vpn cfg then map addr_ip (tcp_addrs bridge) else [])"
    using route_whitelists_lemma [of "cfg_vpn cfg" r] by (simp only: assms fst_conv snd_conv)
  then show ?thesis by (cases mode) (auto simp: covered_def whitelisted_def final_dialer_def)
qed

lemma exits_pick_trusted:
  assumes "signed_verify (de_pc env) (code_exit_list env) (s :: ExitList Signed) DOMAIN_EXIT_DESCRIPTOR
      (\<lambda>their_pk. case broker_master cfg of Some m \<Rightarrow> hex_encode their_pk = m | None \<Rightarrow> True) = Inr l"
    and "pick_exit_with_constraint (picker env) (exit_constraint cfg) l = Some (Inr (pk, exit))"
  shows "trusted env cfg (pk, exit, d)"
proof -
  have "exit_constraint cfg \<noteq> Direct dir" for dir
    using assms(2) by (auto simp: pick_exit_with_constraint_def)
  with assms(1) pick_exit_ok [OF assms(2)] show ?thesis
    unfolding signed_verify_Inr_iff trusted_def
    by (cases "exit_constraint cfg"; cases "broker_master cfg") auto
qed

lemma get_dialer_inner_ok:
  assumes "get_dialer_inner env cfg an = Some (Inr v, w)"
  shows "trusted env cfg v \<and> covered cfg w v"
proof (cases "\<exists>dir. exit_constraint cfg = Direct dir")
  case True
  then obtain dir where dir: "exit_constraint cfg = Direct dir" by blast
  with assms have "direct_target env cfg an dir = (Inr v, w)" by (simp add: get_dialer_inner_def)
  from direct_target_ok [OF this dir] show ?thesis by blast
next
  case False
  with assms obtain s l pk exit r where
    "signed_verify (de_pc env) (code_exit_list env) s DOMAIN_EXIT_DESCRIPTOR
      (\<lambda>their_pk. case broker_master cfg of Some m \<Rightarrow> hex_encode their_pk = m | None \<Rightarrow> True) = Inr l"
    "pick_exit_with_constraint (picker env) (exit_constraint cfg) l = Some (Inr (pk, exit))"
    "v = (pk, exit, final_dialer (bridge_mode cfg) (ConnTestDialer (TcpDialer (c2e_listen exit)) 1)
       (fst (route_to_dialer (cfg_vpn cfg) r)))"
    "w = whitelisted cfg (c2e_listen exit) @ snd (route_to_dialer (cfg_vpn cfg) r)"
    by (cases "exit_constraint cfg")
       (auto simp: get_dialer_inner_def Let_def case_prod_unfold split: sum.splits option.splits)
  with exits_pick_trusted final_dialer_covered show ?thesis by (metis prod.collapse)
qed

lemma covered_mono: "covered cfg w v \<Longrightarrow> set w \<subseteq> set w' \<Longrightarrow> covered cfg w' v"
  by (auto simp: covered_def)

lemma get_dialer_ok:
  assumes "get_dialer env cfg an stop now st = Some (r, st')" and "dialer_inv env cfg st"
  shows "dialer_inv env cfg st'" "r = Inr v \<Longrightarrow> trusted env cfg v \<and> covered cfg (vpn_whitelist st') v"
proof -
  consider (keep) "st' = st" "\<And>v. r = Inr v \<Longrightarrow> \<exists>t. cached_value st = Some (v, t)"
    | (fresh) val w where "get_dialer_inner env cfg an = Some (Inr val, w)" "r = Inr val"
        "st' = \<lparr>cached_value = Some (val, now), vpn_whitelist = vpn_whitelist st @ w\<rparr>"
    | (stale) w where "st' = st\<lparr>vpn_whitelist := vpn_whitelist st @ w\<rparr>"
        "\<And>v. r = Inr v \<Longrightarrow> \<exists>t. cached_value st = Some (v, t)"
    using assms(1) unfolding get_dialer_def Let_def
    by (cases "cached_value st"; cases stop; cases st)
       (auto split: option.splits if_splits prod.splits sum.splits)
  then have "dialer_inv env cfg st' \<and> (\<forall>v. r = Inr v \<longrightarrow> trusted env cfg v \<and> covered cfg (vpn_whitelist st') v)"
  proof cases
    case keep
    then show ?thesis using assms(2) by (auto simp: dialer_inv_def)
  next
    case fresh
    then have "trusted env cfg val \<and> covered cfg (vpn_whitelist st') val"
      using get_dialer_inner_ok [OF fresh(1)] covered_mono [of cfg w val "vpn_whitelist st @ w"] by auto
    with fresh show ?thesis by (auto simp: dialer_inv_def)
  next
    case stale
    then show ?thesis
      using assms(2) covered_mono [of cfg "vpn_whitelist st" _ "vpn_whitelist st @ w"]
      by (auto simp: dialer_inv_def)
  qed
  then show "dialer_inv env cfg st'" "r = Inr v \<Longrightarrow> trusted env cfg v \<and> covered cfg (vpn_whitelist st') v"
    by blast+
qed

interpretation dialer_sys: invariant_system dialer_init "dialer_step env cfg" "dialer_inv env cfg"
proof
  show "dialer_init st \<Longrightarrow> dialer_inv env cfg st" for st
    by (simp add: dialer_init_def dialer_inv_def)
  show "dialer_inv env cfg st \<Longrightarrow> dialer_step env cfg st st' \<Longrightarrow> dialer_inv env cfg st'" for st st'
    by (auto elim!: dialer_step.cases dest: get_dialer_ok(1))
qed


definition example_exits :: "ExitList Signed" where
  "example_exits = signed_new plain_proto (\<lambda>_. [])
     \<lparr>all_exits = [([1], direct_descriptor), ([2], direct_descriptor\<lparr>country := ''TW''\<rparr>)], city_names = []\<rparr>
     DOMAIN_EXIT_DESCRIPTOR [7]"

definition example_answers :: answers where
  "example_answers =
     \<lparr>an_level = Inr Plus, an_exits = \<lambda>_. Inr example_exits, an_routes = \<lambda>_. Inr (Race [Tcp ''1.2.3.4:5'']),
      an_resolve = \<lambda>_. Inl ''no'', an_choice = 0\<rparr>"


end
