(* ===== verification/Client_Auth.thy ===== *)
theory Client_Auth
  imports Broker
begin

text \<open>
  The client's connect tokens (binaries/geph5-client/src/auth.rs) in its key-value store
  (database.rs): \<open>refresh_conn_token\<close> asks the broker for a signature for the current and the next
  epoch, first at the Plus and then at the Free level, and stores what it gets. What the client
  relies on of whoever issues the signatures is the locale \<open>token_issuer\<close>, which the broker's
  handlers interpret.
\<close>

section \<open>The store\<close>

text \<open>
  The table \<open>misc\<close> of the store; \<open>'v\<close> is the type of serialized values. SQLite errors are left out.
\<close>

type_synonym 'v kv = "string \<rightharpoonup> 'v"

definition db_write :: "string \<Rightarrow> 'v \<Rightarrow> 'v kv \<Rightarrow> 'v kv" where
  "db_write key val db = db(key \<mapsto> val)"

definition db_read :: "string \<Rightarrow> 'v kv \<Rightarrow> 'v option" where
  "db_read key db = db key"

definition db_remove :: "string \<Rightarrow> 'v kv \<Rightarrow> 'v kv" where
  "db_remove key db = db(key := None)"

lemma db_read_after [simp]:
  "db_read k (db_write k' v db) = (if k = k' then Some v else db_read k db)"
  "db_read k (db_remove k' db) = (if k = k' then None else db_read k db)"
  by (simp_all add: db_read_def db_write_def db_remove_def)

section \<open>Refreshing tokens\<close>

type_synonym 'h conn_token = "AccountLevel \<times> bytes \<times> 'h UnblindedSignature"

text \<open>
  The broker as the client sees it, with a state that its answers may change. An error of the
  call itself - no connection, a time limit, a crash of the broker - is an Inl. The time limit of
  30 seconds on the whole refresh cancels it at one of these calls, which leaves the store as
  an error of that call does.
\<close>

record ('h, 'b) token_rpc =
  rpc_user_info :: "'b \<Rightarrow> (string + UserInfo option) \<times> 'b"
  rpc_subkey :: "AccountLevel \<Rightarrow> u16 \<Rightarrow> 'b \<Rightarrow> (string + bytes) \<times> 'b"
  rpc_connect :: "AccountLevel \<Rightarrow> u16 \<Rightarrow> bytes \<Rightarrow> 'b \<Rightarrow> (string + (AuthError + 'h BlindedSignature)) \<times> 'b"

record ('h, 's, 'v) auth_env =
  ae_hash :: "bytes \<Rightarrow> 'h"
  ae_khash :: "'h \<Rightarrow> 'h \<Rightarrow> 'h"
  ae_brs :: "'s brs"
  ae_keys :: "(AccountLevel \<Rightarrow> string + 'h) option"
  code_token :: "'h conn_token \<Rightarrow> 'v"
  decode_token :: "'v \<Rightarrow> 'h conn_token option"

definition conn_key :: "u16 \<Rightarrow> string" where
  "conn_key ep = ''conn_token_'' @ nat_str (unat ep)"

lemma conn_key_inject [simp]: "conn_key a = conn_key b \<longleftrightarrow> a = b"
  by (simp add: conn_key_def word_unat_eq_iff)

definition get_conn_token_inner :: "('h, 's, 'v) auth_env \<Rightarrow> u16 \<Rightarrow> 'v kv \<Rightarrow> string + 'h conn_token" where
  "get_conn_token_inner env ep db =
     (case db_read (conn_key ep) db of
        None \<Rightarrow> Inl ''absent right now''
      | Some bts \<Rightarrow> (case decode_token env bts of None \<Rightarrow> Inl ''stdcode'' | Some t \<Rightarrow> Inr t))"

text \<open>The check against the configured keys; None is the panic in \<open>verify_member\<close>.\<close>

definition check_member ::
    "('h, 's, 'v) auth_env \<Rightarrow> AccountLevel \<Rightarrow> u16 \<Rightarrow> 'h BlindedSignature \<Rightarrow> (string + unit) option" where
  "check_member env lvl ep res =
     (case ae_keys env of
        None \<Rightarrow> Some (Inr ())
      | Some keys \<Rightarrow>
          (case keys lvl of
             Inl e \<Rightarrow> Some (Inl e)
           | Inr root_key \<Rightarrow>
               verify_member (ae_hash env) (ae_khash env) root_key ep (bs_used_key res) (bs_merkle_branch res)))"

definition store_token ::
    "('h, 's, 'v) auth_env \<Rightarrow> AccountLevel \<Rightarrow> u16 \<Rightarrow> bytes \<Rightarrow> 's \<Rightarrow> 'h BlindedSignature \<Rightarrow> 'v kv
       \<Rightarrow> ((string + unit) \<times> 'v kv) option" where
  "store_token env lvl ep token secret res db =
     (if bs_epoch res \<noteq> ep then Some (Inl ''wrong epoch in response'', db)
      else (case check_member env lvl ep res of
              None \<Rightarrow> None
            | Some (Inl e) \<Rightarrow> Some (Inl e, db)
            | Some (Inr _) \<Rightarrow>
                (case unblind (ae_brs env) res secret token of
                   Inl e \<Rightarrow> Some (Inl ''cannot unblind response'', db)
                 | Inr u_sig \<Rightarrow> Some (Inr (), db_write (conn_key ep) (code_token env (lvl, token, u_sig)) db))))"

text \<open>
  The loop over levels for one epoch; when every level is answered with WrongLevel, nothing is
  stored and there is no error. \<open>rnd\<close> is the blinding randomness.
\<close>

fun try_levels ::
    "('h, 's, 'v) auth_env \<Rightarrow> ('h, 'b) token_rpc \<Rightarrow> u16 \<Rightarrow> bytes \<Rightarrow> (AccountLevel \<Rightarrow> nat) \<Rightarrow> AccountLevel list
       \<Rightarrow> 'v kv \<times> 'b \<Rightarrow> ((string + unit) \<times> 'v kv \<times> 'b) option" where
  "try_levels env rpc ep token rnd [] (db, b) = Some (Inr (), db, b)"
| "try_levels env rpc ep token rnd (lvl # levels) (db, b) =
     (case rpc_subkey rpc lvl ep b of
        (Inl e, b1) \<Rightarrow> Some (Inl ''cannot get subkey'', db, b1)
      | (Inr subkey, b1) \<Rightarrow>
          if \<not> valid_public (ae_brs env) subkey then Some (Inl ''cannot decode subkey'', db, b1)
          else (let (blind_token, secret) = token_blind (ae_brs env) (rnd lvl) subkey token in
                case rpc_connect rpc lvl ep blind_token b1 of
                  (Inl e, b2) \<Rightarrow> Some (Inl ''cannot get connect token'', db, b2)
                | (Inr (Inr res), b2) \<Rightarrow>
                    map_option (\<lambda>(r, db'). (r, db', b2)) (store_token env lvl ep token secret res db)
                | (Inr (Inl WrongLevel), b2) \<Rightarrow> try_levels env rpc ep token rnd levels (db, b2)
                | (Inr (Inl e), b2) \<Rightarrow> Some (Inl (''cannot get token: '' @ auth_error_text e), db, b2)))"

definition refresh_epoch ::
    "('h, 's, 'v) auth_env \<Rightarrow> ('h, 'b) token_rpc \<Rightarrow> u16 \<Rightarrow> bytes \<Rightarrow> (AccountLevel \<Rightarrow> nat)
       \<Rightarrow> 'v kv \<times> 'b \<Rightarrow> ((string + unit) \<times> 'v kv \<times> 'b) option" where
  "refresh_epoch env rpc ep token rnd s =
     (if db_read (conn_key ep) (fst s) = None then try_levels env rpc ep token rnd [Plus, Free] s
      else Some (Inr (), s))"

text \<open>
  A user who gained a subscription drops the tokens of both epochs first. The next epoch is
  computed with overflow checks.
\<close>

definition drop_if_upgraded :: "('h, 's, 'v) auth_env \<Rightarrow> u16 \<Rightarrow> int \<Rightarrow> 'v kv \<Rightarrow> 'v kv" where
  "drop_if_upgraded env ep plus_expiry db =
     (let currently_plus = (case get_conn_token_inner env ep db of Inr (lvl, _) \<Rightarrow> lvl = Plus | Inl _ \<Rightarrow> False)
      in if 0 < plus_expiry \<and> \<not> currently_plus then db_remove (conn_key (ep + 1)) (db_remove (conn_key ep) db)
         else db)"

definition refresh_conn_token ::
    "('h, 's, 'v) auth_env \<Rightarrow> ('h, 'b) token_rpc \<Rightarrow> u16 \<Rightarrow> (u16 \<Rightarrow> bytes) \<Rightarrow> (u16 \<Rightarrow> AccountLevel \<Rightarrow> nat)
       \<Rightarrow> 'v kv \<times> 'b \<Rightarrow> ((string + unit) \<times> 'v kv \<times> 'b) option" where
  "refresh_conn_token env rpc ep token rnd s =
     (case rpc_user_info rpc (snd s) of
        (Inl e, b1) \<Rightarrow> Some (Inl e, fst s, b1)
      | (Inr None, b1) \<Rightarrow> Some (Inl ''no such user'', fst s, b1)
      | (Inr (Some info), b1) \<Rightarrow>
          if unat ep + 1 = 2 ^ 16 then None
          else (let plus_expiry = (case plus_expires_unix info of Some t \<Rightarrow> t | None \<Rightarrow> 0);
                    db1 = drop_if_upgraded env ep plus_expiry (fst s)
                in case refresh_epoch env rpc ep (token ep) (rnd ep) (db1, b1) of
                     None \<Rightarrow> None
                   | Some (Inl e, s2) \<Rightarrow> Some (Inl e, s2)
                   | Some (Inr _, s2) \<Rightarrow> refresh_epoch env rpc (ep + 1) (token (ep + 1)) (rnd (ep + 1)) s2))"

section \<open>What the client relies on\<close>

text \<open>Every token in the store is good for its epoch.\<close>

definition store_good ::
    "('h, 's, 'v) auth_env \<Rightarrow> (AccountLevel \<Rightarrow> u16 \<Rightarrow> bytes \<Rightarrow> 'h UnblindedSignature \<Rightarrow> bool) \<Rightarrow> 'v kv \<Rightarrow> bool" where
  "store_good env good db \<longleftrightarrow>
     (\<forall>ep lvl token sig. get_conn_token_inner env ep db = Inr (lvl, token, sig) \<longrightarrow> good lvl ep token sig)"

lemma store_good_remove: "store_good env good db \<Longrightarrow> store_good env good (db_remove (conn_key ep) db)"
  by (simp add: store_good_def get_conn_token_inner_def)

lemma store_good_write:
  assumes "store_good env good db" and "good lvl ep token sig"
    and "decode_token env (code_token env (lvl, token, sig)) = Some (lvl, token, sig)"
  shows "store_good env good (db_write (conn_key ep) (code_token env (lvl, token, sig)) db)"
  using assms by (simp add: store_good_def get_conn_token_inner_def)

lemma drop_if_upgraded_good: "store_good env good db \<Longrightarrow> store_good env good (drop_if_upgraded env ep x db)"
  by (simp add: drop_if_upgraded_def Let_def store_good_remove)

locale token_issuer =
  fixes brs :: "'s brs"
    and rpc :: "('h, 'b) token_rpc"
    and good :: "AccountLevel \<Rightarrow> u16 \<Rightarrow> bytes \<Rightarrow> 'h UnblindedSignature \<Rightarrow> bool"
  assumes issued_good:
    "rpc_subkey rpc lvl ep b = (Inr subkey, b1) \<Longrightarrow>
     token_blind brs rnd subkey token = (blinded, secret) \<Longrightarrow>
     rpc_connect rpc lvl ep blinded b1 = (Inr (Inr res), b2) \<Longrightarrow>
     unblind brs res secret token = Inr sig \<Longrightarrow> good lvl ep token sig"
begin

lemma try_levels_good:
  assumes "ae_brs env = brs" and "\<And>t. decode_token env (code_token env t) = Some t"
  shows "try_levels env rpc ep token rnd levels (db, b) = Some (r, db', b') \<Longrightarrow>
     store_good env good db \<Longrightarrow> store_good env good db'"
proof (induction levels arbitrary: b)
  case Nil
  then show ?case by simp
next
  case (Cons lvl levels)
  obtain k b1 where k: "rpc_subkey rpc lvl ep b = (k, b1)" by force
  show ?case
  proof (cases k)
    case (Inl e)
    with Cons.prems k show ?thesis by auto
  next
    case (Inr subkey)
    obtain blinded secret where bl: "token_blind brs (rnd lvl) subkey token = (blinded, secret)" by force
    obtain c b2 where c: "rpc_connect rpc lvl ep blinded b1 = (c, b2)" by force
    have u: "good lvl ep token sig" if "c = Inr (Inr res)" "unblind brs res secret token = Inr sig" for res sig
      using issued_good [OF k [unfolded Inr] bl c [unfolded that(1)] that(2)] .
    show ?thesis
      using Cons.prems Cons.IH [of b2] u
      by (auto simp: k Inr bl c assms store_token_def store_good_write
          split: if_splits sum.splits option.splits AuthError.splits)
  qed
qed

lemma refresh_epoch_good:
  assumes "ae_brs env = brs" and "\<And>t. decode_token env (code_token env t) = Some t"
    and "refresh_epoch env rpc ep token rnd (db, b) = Some (r, db', b')" and "store_good env good db"
  shows "store_good env good db'"
  using assms(3,4) try_levels_good [OF assms(1,2)] by (auto simp: refresh_epoch_def simp del: try_levels.simps split: if_splits)

lemma refresh_good:
  assumes "ae_brs env = brs" and "\<And>t. decode_token env (code_token env t) = Some t"
    and "refresh_conn_token env rpc ep token rnd (db, b) = Some (r, db', b')" and "store_good env good db"
  shows "store_good env good db'"
proof -
  note step = refresh_epoch_good [OF assms(1,2)]
  show ?thesis
    using assms(3,4) step drop_if_upgraded_good [OF assms(4)]
    by (auto simp: refresh_conn_token_def Let_def split: prod.splits sum.splits option.splits if_splits)
qed

end

section \<open>The broker as issuer\<close>

text \<open>
  The client's calls answered by the handlers of the broker: \<open>up\<close> says which calls get through,
  \<open>q\<close> which of the broker's queries succeed. A crash of the broker is a call without an answer.
\<close>

datatype rpc_call = Info_Call | Subkey_Call AccountLevel u16 | Connect_Call AccountLevel u16

definition broker_rpc ::
    "('h, 's) broker_env \<Rightarrow> (rpc_call \<Rightarrow> bool) \<Rightarrow> (nat \<Rightarrow> bool) \<Rightarrow> nat \<Rightarrow> string \<Rightarrow> ('h, broker) token_rpc" where
  "broker_rpc benv up q now auth_token =
     \<lparr>rpc_user_info = \<lambda>st.
        if up Info_Call
        then (case rpc_get_user_info q now auth_token st of
                (Inl e, st') \<Rightarrow> (Inl (auth_error_text e), st') | (Inr i, st') \<Rightarrow> (Inr i, st'))
        else (Inl ''no answer'', st),
      rpc_subkey = \<lambda>lvl ep st.
        (case (up (Subkey_Call lvl ep), get_mizaru_subkey benv lvl ep) of
           (True, Some k) \<Rightarrow> (Inr k, st) | _ \<Rightarrow> (Inl ''no answer'', st)),
      rpc_connect = \<lambda>lvl ep blind_token st.
        (case (up (Connect_Call lvl ep), get_connect_token benv q now auth_token lvl ep blind_token st) of
           (True, Some (r, st')) \<Rightarrow> (Inr r, st') | _ \<Rightarrow> (Inl ''no answer'', st))\<rparr>"

definition keys_ok :: "('h, 's) broker_env \<Rightarrow> bool" where
  "keys_ok benv \<longleftrightarrow>
     (\<forall>lvl. \<exists>keys. length keys = KEY_COUNT \<and> (\<forall>k \<in> set keys. brs_ok (mz_brs benv) k) \<and>
        level_sk benv lvl = generate (mz_hash benv) (mz_khash benv) (mz_brs benv) keys)"

text \<open>A good token has a signature for its epoch that the public key of its level accepts.\<close>

definition good_token :: "('h, 's) broker_env \<Rightarrow> AccountLevel \<Rightarrow> u16 \<Rightarrow> bytes \<Rightarrow> 'h UnblindedSignature \<Rightarrow> bool" where
  "good_token benv lvl ep token sig \<longleftrightarrow>
     epoch sig = ep \<and>
     (keys_ok benv \<longrightarrow>
       (\<exists>pk. to_public_key (level_sk benv lvl) = Some pk \<and>
          blind_verify (mz_hash benv) (mz_khash benv) (mz_brs benv) pk token sig = Some (Inr ())))"

lemma connect_token_epoch:
  assumes "get_connect_token env q now auth lvl ep blinded st = Some (Inr bsig, st')"
    and "unblind b bsig secret token = Inr sig"
  shows "epoch sig = ep"
  using assms
  by (auto simp: get_connect_token_def blind_sign_def unblind_def
      split: prod.splits sum.splits option.splits if_splits bind_splits)

interpretation broker_issuer: token_issuer "mz_brs benv" "broker_rpc benv up q now auth_token" "good_token benv"
proof
  fix lvl ep b subkey b1 rnd token blinded secret res b2 sig
  assume a: "rpc_subkey (broker_rpc benv up q now auth_token) lvl ep b = (Inr subkey, b1)"
    "token_blind (mz_brs benv) rnd subkey token = (blinded, secret)"
    "rpc_connect (broker_rpc benv up q now auth_token) lvl ep blinded b1 = (Inr (Inr res), b2)"
    "unblind (mz_brs benv) res secret token = Inr sig"
  have sub: "get_mizaru_subkey benv lvl ep = Some subkey"
    using a(1) by (auto simp: broker_rpc_def split: bool.splits option.splits)
  have con: "get_connect_token benv q now auth_token lvl ep blinded b1 = Some (Inr res, b2)"
    using a(3) by (auto simp: broker_rpc_def split: bool.splits option.splits)
  have "\<exists>pk. to_public_key (level_sk benv lvl) = Some pk \<and>
      blind_verify (mz_hash benv) (mz_khash benv) (mz_brs benv) pk token sig = Some (Inr ())" if "keys_ok benv"
  proof -
    from that obtain keys where k: "length keys = KEY_COUNT" "\<forall>k \<in> set keys. brs_ok (mz_brs benv) k"
        "level_sk benv lvl = generate (mz_hash benv) (mz_khash benv) (mz_brs benv) keys"
      unfolding keys_ok_def by blast
    from connect_token_verifies [OF k sub a(2) con] a(4) show ?thesis by auto
  qed
  with connect_token_epoch [OF con a(4)] show "good_token benv lvl ep token sig"
    by (simp add: good_token_def)
qed

section \<open>Client and broker together\<close>

text \<open>Refreshes of the client at any time, between whatever else the broker serves.\<close>

inductive token_step ::
    "('h, 's, 'v) auth_env \<Rightarrow> ('h, 's) broker_env \<Rightarrow> string \<Rightarrow> 'v kv \<times> broker \<Rightarrow> 'v kv \<times> broker \<Rightarrow> bool"
  for aenv benv auth_token where
  refresh: "refresh_conn_token aenv (broker_rpc benv up q now auth_token) ep token rnd s = Some (r, s') \<Longrightarrow>
     token_step aenv benv auth_token s s'"
| serve: "broker_step benv st st' \<Longrightarrow> token_step aenv benv auth_token (db, st) (db, st')"

inductive_cases token_stepE: "token_step aenv benv auth_token s s'"

definition token_init :: "'v kv \<times> broker \<Rightarrow> bool" where
  "token_init s \<longleftrightarrow> fst s = Map.empty"

definition auth_env_ok :: "('h, 's, 'v) auth_env \<Rightarrow> ('h, 's) broker_env \<Rightarrow> bool" where
  "auth_env_ok aenv benv \<longleftrightarrow>
     ae_brs aenv = mz_brs benv \<and> (\<forall>t. decode_token aenv (code_token aenv t) = Some t)"

definition token_inv :: "('h, 's, 'v) auth_env \<Rightarrow> ('h, 's) broker_env \<Rightarrow> 'v kv \<times> broker \<Rightarrow> bool" where
  "token_inv aenv benv s \<longleftrightarrow> (auth_env_ok aenv benv \<longrightarrow> store_good aenv (good_token benv) (fst s))"

interpretation token_sys: invariant_system token_init "token_step aenv benv auth_token" "token_inv aenv benv"
proof
  show "token_init s \<Longrightarrow> token_inv aenv benv s" for s
    by (simp add: token_init_def token_inv_def store_good_def get_conn_token_inner_def db_read_def)
next
  fix s t
  assume inv: "token_inv aenv benv s" and "token_step aenv benv auth_token s t"
  from this(2) show "token_inv aenv benv t"
  proof (rule token_stepE)
    fix up q now ep token rnd r
    assume "refresh_conn_token aenv (broker_rpc benv up q now auth_token) ep token rnd s = Some (r, t)"
    with inv show ?thesis
      using broker_issuer.refresh_good [of aenv benv up q now auth_token ep token rnd "fst s" "snd s" r "fst t" "snd t"]
      by (auto simp: token_inv_def auth_env_ok_def)
  next
    fix st st' db
    assume "s = (db, st)" "t = (db, st')"
    with inv show ?thesis by (simp add: token_inv_def)
  qed
qed

lemma stored_token_good:
  assumes "reachable token_init (token_step aenv benv auth_token) (db, st)" and "auth_env_ok aenv benv"
    and "get_conn_token_inner aenv ep db = Inr (lvl, token, sig)"
  shows "good_token benv lvl ep token sig"
  using token_sys.reachable_inv [OF assms(1)] assms(2,3) by (auto simp: token_inv_def store_good_def)

text \<open>A refresh that is interrupted after its first token keeps this token.\<close>

lemma refresh_first_token:
  assumes "rpc_user_info rpc b = (Inr (Some info), b1)" and "unat ep + 1 \<noteq> 2 ^ 16"
    and "rpc_subkey rpc Plus ep b1 = (Inr k, b2)" and "valid_public (ae_brs env) k"
    and "token_blind (ae_brs env) (rnd ep Plus) k (token ep) = (blinded, secret)"
    and "rpc_connect rpc Plus ep blinded b2 = (Inr (Inr res), b3)" and "bs_epoch res = ep"
    and "ae_keys env = None" and "unblind (ae_brs env) res secret (token ep) = Inr sig"
    and "rpc_subkey rpc Plus (ep + 1) b3 = (Inl e, b4)"
  shows "refresh_conn_token env rpc ep token rnd (Map.empty, b) =
     Some (Inl ''cannot get subkey'', [conn_key ep \<mapsto> code_token env (Plus, token ep, sig)], b4)"
proof -
  have d: "drop_if_upgraded env ep x Map.empty = Map.empty" for x
    by (auto simp: drop_if_upgraded_def db_remove_def Let_def)
  have 1: "refresh_epoch env rpc ep (token ep) (rnd ep) (Map.empty, b1) =
      Some (Inr (), [conn_key ep \<mapsto> code_token env (Plus, token ep, sig)], b3)"
    using assms by (simp add: refresh_epoch_def db_read_def store_token_def check_member_def db_write_def)
  have 2: "refresh_epoch env rpc (ep + 1) (token (ep + 1)) (rnd (ep + 1)) ([conn_key ep \<mapsto> v], b3) =
      Some (Inl ''cannot get subkey'', [conn_key ep \<mapsto> v], b4)" for v
    using assms(10) by (simp add: refresh_epoch_def db_read_def)
  show ?thesis using assms(1,2) by (simp add: refresh_conn_token_def d 1 2)
qed

lemma example_broker_serves:
  "\<exists>info st1 st2. rpc_get_user_info (\<lambda>_. True) 200000 ''tok'' example_broker = (Inr (Some info), st1) \<and>
     valid_auth_token (\<lambda>_. True) 200000 ''tok'' st1 = (Inr (Some (1, Plus)), st2)"
  by (simp add: rpc_get_user_info_def get_user_info_def auth_eval example_broker_def empty_broker_def)

lemma example_keys_env: "keys_ok example_env"
  unfolding keys_ok_def
proof
  show "\<exists>keys. length keys = KEY_COUNT \<and> (\<forall>k \<in> set keys. brs_ok (mz_brs example_env) k) \<and>
      level_sk example_env lvl = generate (mz_hash example_env) (mz_khash example_env) (mz_brs example_env) keys" for lvl
    using example_keys_ok
    by (intro exI [of _ "case lvl of Free \<Rightarrow> rev example_keys | Plus \<Rightarrow> example_keys"])
       (cases lvl; simp add: level_sk_def example_env_def)
qed

definition example_auth :: "(sym_hash, unit, sym_hash conn_token) auth_env" where
  "example_auth =
     \<lparr>ae_hash = Plain_Hash, ae_khash = Keyed_Hash, ae_brs = plain_brs, ae_keys = None,
      code_token = id, decode_token = Some\<rparr>"

text \<open>One refresh against the example broker, cut off before the second epoch.\<close>

lemma example_refresh:
  "\<exists>sig st. reachable token_init (token_step example_auth example_env ''tok'') ([conn_key 300 \<mapsto> (Plus, [9, 9], sig)], st) \<and>
     get_conn_token_inner example_auth 300 [conn_key 300 \<mapsto> (Plus, [9, 9], sig)] = Inr (Plus, [9, 9], sig)"
proof -
  let ?rpc = "broker_rpc example_env (\<lambda>c. c \<noteq> Subkey_Call Plus 301) (\<lambda>_. True) 200000 ''tok''"
  obtain info st1 st2 where b: "rpc_get_user_info (\<lambda>_. True) 200000 ''tok'' example_broker = (Inr (Some info), st1)"
      "valid_auth_token (\<lambda>_. True) 200000 ''tok'' st1 = (Inr (Some (1, Plus)), st2)"
    using example_broker_serves by blast
  let ?k = "public_der plain_brs (example_keys ! unat (300 :: u16))"
  have blind: "token_blind plain_brs 0 ?k [9, 9] = ([9, 9], ())"
    by (simp add: token_blind_def plain_brs_def)
  obtain bsig sig where s: "blind_sign plain_brs (plus_sk example_env) 300 [9, 9] = Some bsig"
      "unblind plain_brs bsig () [9, 9] = Inr sig"
    using signed_token_verifies [OF example_keys_ok blind, of Plain_Hash Keyed_Hash] by (auto simp: example_env_def)
  have ep: "bs_epoch bsig = 300" using s(1) by (auto simp: blind_sign_def split: bind_splits)
  have sub: "get_mizaru_subkey example_env Plus 300 = Some ?k"
    using generate_tree(3) [OF example_keys_ok(1), of Plain_Hash Keyed_Hash plain_brs 300]
    by (simp add: get_mizaru_subkey_def level_sk_def example_env_def)
  have brs: "mz_brs example_env = plain_brs" "ae_brs example_auth = plain_brs" "ae_keys example_auth = None"
    by (simp_all add: example_env_def example_auth_def)
  have "refresh_conn_token example_auth ?rpc 300 (\<lambda>_. [9, 9]) (\<lambda>_ _. 0) (Map.empty, example_broker) =
      Some (Inl ''cannot get subkey'', [conn_key 300 \<mapsto> code_token example_auth (Plus, [9, 9], sig)], st2)"
  proof (rule refresh_first_token)
    show "rpc_user_info ?rpc example_broker = (Inr (Some info), st1)" by (simp add: broker_rpc_def b)
    show "rpc_subkey ?rpc Plus 300 st1 = (Inr ?k, st1)" by (simp add: broker_rpc_def sub)
    show "valid_public (ae_brs example_auth) ?k"
      by (simp add: brs plain_brs_def example_keys_def KEY_COUNT_def)
    show "rpc_connect ?rpc Plus 300 [9, 9] st1 = (Inr (Inr bsig), st2)"
      by (simp add: broker_rpc_def get_connect_token_def b s(1) level_sk_def brs)
    show "rpc_subkey ?rpc Plus (300 + 1) st2 = (Inl ''no answer'', st2)" by (simp add: broker_rpc_def)
  qed (use blind s ep brs in simp_all)
  then have "token_step example_auth example_env ''tok'' (Map.empty, example_broker)
      ([conn_key 300 \<mapsto> code_token example_auth (Plus, [9, 9], sig)], st2)"
    by (rule token_step.refresh)
  then have "reachable token_init (token_step example_auth example_env ''tok'')
      ([conn_key 300 \<mapsto> (Plus, [9, 9], sig)], st2)"
    by (intro reachable_step [OF reachable_init]) (simp_all add: token_init_def example_auth_def)
  then show ?thesis by (auto simp: get_conn_token_inner_def db_read_def example_auth_def)
qed

end
