(* ===== verification/Bridge.thy ===== *)
theory Bridge
  imports Exit_Listen
begin

text \<open>
  A bridge (binaries/geph5-bridge/src/listen_forward.rs, main.rs): the forwardings it sets up for
  the broker, the loop that accepts clients on one of them, the relay of bytes, the pool of
  multiplexed connections to an exit, and its announcement to the broker. The ports drawn at
  random, the ports that other programs hold, the clock and what sockets return are arguments.
\<close>

section \<open>Forwardings\<close>

text \<open>
  An entry of the cache \<open>MAPPING\<close>: destination and metadata, with the port of its listener, the
  time it was last asked for, and whether the task that accepts on the port still runs. Entries
  are dropped, and their tasks cancelled, 3600 seconds after they were last asked for.
\<close>

type_synonym forward_key = "sock_addr \<times> B2eMetadata"

record forward =
  fw_key :: forward_key
  fw_port :: u16
  fw_used :: nat
  fw_running :: bool

record bridge =
  bridge_ip :: string
  mapping :: "forward list"

definition fw_live :: "nat \<Rightarrow> forward \<Rightarrow> bool" where
  "fw_live now f \<longleftrightarrow> now < fw_used f + 3600"

definition port_bound :: "bridge \<Rightarrow> u16 \<Rightarrow> bool" where
  "port_bound s p = list_ex (\<lambda>f. fw_running f \<and> fw_port f = p) (mapping s)"

text \<open>\<open>gen_range(2048..65535)\<close>, from a random number.\<close>

definition random_port :: "nat \<Rightarrow> u16" where
  "random_port r = word_of_nat (2048 + r mod (65535 - 2048))"

text \<open>Draws until a port can be bound; None when the given draws were not enough.\<close>

fun random_tcp_listener :: "(u16 \<Rightarrow> bool) \<Rightarrow> nat list \<Rightarrow> u16 option" where
  "random_tcp_listener in_use [] = None"
| "random_tcp_listener in_use (r # rs) =
     (if in_use (random_port r) then random_tcp_listener in_use rs else Some (random_port r))"

definition tcp_forward ::
    "(u16 \<Rightarrow> bool) \<Rightarrow> nat list \<Rightarrow> nat \<Rightarrow> sock_addr \<Rightarrow> B2eMetadata \<Rightarrow> bridge \<Rightarrow> (sock_addr \<times> bridge) option" where
  "tcp_forward taken draws now b2e_dest metadata s =
     (let key = (b2e_dest, metadata); rest = filter (\<lambda>f. fw_key f \<noteq> key) (mapping s)
      in case find (\<lambda>f. fw_key f = key \<and> fw_live now f) (mapping s) of
           Some f \<Rightarrow> Some (addr_of (bridge_ip s) (fw_port f), s\<lparr>mapping := f\<lparr>fw_used := now\<rparr> # rest\<rparr>)
         | None \<Rightarrow>
             map_option (\<lambda>p.
                 (addr_of (bridge_ip s) p,
                  s\<lparr>mapping := \<lparr>fw_key = key, fw_port = p, fw_used = now, fw_running = True\<rparr> # rest\<rparr>))
               (random_tcp_listener (\<lambda>p. taken p \<or> port_bound s p) draws))"

text \<open>Where a connection to an address of the bridge is forwarded.\<close>

definition bridge_forwards :: "nat \<Rightarrow> bridge \<Rightarrow> sock_addr \<Rightarrow> forward_key option" where
  "bridge_forwards now s a =
     map_option fw_key (find (\<lambda>f. fw_running f \<and> fw_live now f \<and> addr_of (bridge_ip s) (fw_port f) = a) (mapping s))"

definition stop_listener :: "forward_key \<Rightarrow> forward list \<Rightarrow> forward list" where
  "stop_listener k ms = map (\<lambda>g. if fw_key g = k then g\<lparr>fw_running := False\<rparr> else g) ms"

text \<open>
  The steps of a bridge with its clock. \<open>Listener_Dies\<close> is the end of an accept loop, after an
  error of accept or of the lookup of a client's network; \<open>may_die\<close> says whether there are any.
\<close>

inductive bridge_step :: "bool \<Rightarrow> (u16 \<Rightarrow> bool) \<Rightarrow> nat \<times> bridge \<Rightarrow> nat \<times> bridge \<Rightarrow> bool"
  for may_die taken where
  Forward: "tcp_forward taken draws now dest md s = Some (a, s') \<Longrightarrow>
    bridge_step may_die taken (now, s) (now, s')"
| Tick: "bridge_step may_die taken (now, s) (now + n, s)"
| Evict: "f \<in> set (mapping s) \<Longrightarrow> \<not> fw_live now f \<Longrightarrow>
    bridge_step may_die taken (now, s) (now, s\<lparr>mapping := filter (\<lambda>g. fw_key g \<noteq> fw_key f) (mapping s)\<rparr>)"
| Listener_Dies: "may_die \<Longrightarrow>
    bridge_step may_die taken (now, s) (now, s\<lparr>mapping := stop_listener k (mapping s)\<rparr>)"

definition bridge_init :: "nat \<times> bridge \<Rightarrow> bool" where
  "bridge_init x \<longleftrightarrow> mapping (snd x) = []"

definition bridge_inv :: "bool \<Rightarrow> nat \<times> bridge \<Rightarrow> bool" where
  "bridge_inv may_die x \<longleftrightarrow>
     distinct (map fw_key (mapping (snd x))) \<and>
     distinct (map fw_port (filter fw_running (mapping (snd x)))) \<and>
     (may_die \<or> list_all fw_running (mapping (snd x)))"

lemma random_tcp_listener_free: "random_tcp_listener in_use draws = Some p \<Longrightarrow> \<not> in_use p"
  by (induction draws) (auto split: if_splits)

lemma distinct_map_filter2: "distinct (map f (filter P xs)) \<Longrightarrow> distinct (map f (filter (\<lambda>x. Q x \<and> P x) xs))"
  by (induction xs) (auto split: if_splits)

lemma fw_key_unique:
  assumes "bridge_inv may_die x" and "f \<in> set (mapping (snd x))" and "g \<in> set (mapping (snd x))"
  shows "fw_key f = fw_key g \<longleftrightarrow> f = g"
  using assms by (auto simp: bridge_inv_def distinct_map dest: inj_onD)

lemma fw_port_unique:
  assumes "bridge_inv may_die x" and "f \<in> set (mapping (snd x))" and "g \<in> set (mapping (snd x))"
    and "fw_running f" and "fw_running g" and "fw_port f = fw_port g"
  shows "f = g"
proof -
  have "inj_on fw_port {f \<in> set (mapping (snd x)). fw_running f}"
    using assms(1) by (simp add: bridge_inv_def distinct_map)
  then show ?thesis using assms(2-) by (simp add: inj_on_def)
qed

lemma tcp_forward_result:
  assumes "tcp_forward taken draws now dest md s = Some (a, s')"
  shows "\<exists>f. a = addr_of (bridge_ip s) (fw_port f) \<and> fw_key f = (dest, md) \<and> fw_used f = now \<and>
    s' = s\<lparr>mapping := f # filter (\<lambda>g. fw_key g \<noteq> (dest, md)) (mapping s)\<rparr> \<and>
    ((\<exists>g \<in> set (mapping s). f = g\<lparr>fw_used := now\<rparr>) \<or> fw_running f \<and> \<not> port_bound s (fw_port f))"
proof (cases "find (\<lambda>f. fw_key f = (dest, md) \<and> fw_live now f) (mapping s)")
  case None
  with assms obtain p where "random_tcp_listener (\<lambda>p. taken p \<or> port_bound s p) draws = Some p"
    "a = addr_of (bridge_ip s) p"
    "s' = s\<lparr>mapping := \<lparr>fw_key = (dest, md), fw_port = p, fw_used = now, fw_running = True\<rparr>
      # filter (\<lambda>g. fw_key g \<noteq> (dest, md)) (mapping s)\<rparr>"
    by (auto simp: tcp_forward_def Let_def)
  then show ?thesis
    by (intro exI [of _ "\<lparr>fw_key = (dest, md), fw_port = p, fw_used = now, fw_running = True\<rparr>"])
       (auto dest: random_tcp_listener_free)
next
  case (Some g)
  then show ?thesis
    using assms find_SomeD [OF Some] by (intro exI [of _ "g\<lparr>fw_used := now\<rparr>"]) (auto simp: tcp_forward_def Let_def)
qed

lemma forward_ports_distinct:
  assumes "bridge_inv may_die (now, s)" and "tcp_forward taken draws now dest md s = Some (a, s')"
  shows "bridge_inv may_die (now, s')"
proof -
  obtain f where f: "fw_key f = (dest, md)"
      "s' = s\<lparr>mapping := f # filter (\<lambda>g. fw_key g \<noteq> (dest, md)) (mapping s)\<rparr>"
      "(\<exists>g \<in> set (mapping s). f = g\<lparr>fw_used := now\<rparr>) \<or> fw_running f \<and> \<not> port_bound s (fw_port f)"
    using tcp_forward_result [OF assms(2)] by blast
  have port: "fw_port g \<noteq> fw_port f" if "fw_running f" "g \<in> set (mapping s)" "fw_running g" "fw_key g \<noteq> (dest, md)" for g
  proof (cases "port_bound s (fw_port f)")
    case True
    then obtain h where "h \<in> set (mapping s)" "f = h\<lparr>fw_used := now\<rparr>" using f(3) by blast
    then show ?thesis using fw_port_unique [OF assms(1), of g h] that f(1) by auto
  next
    case False
    then show ?thesis using that by (auto simp: port_bound_def list_ex_iff)
  qed
  have ms: "mapping s' = f # filter (\<lambda>g. fw_key g \<noteq> (dest, md)) (mapping s)" by (simp add: f(2))
  have "may_die \<or> fw_running f"
    using assms(1) f(3) by (auto simp: bridge_inv_def list_all_iff)
  moreover have "fw_port f \<notin> fw_port ` {g \<in> set (mapping s). fw_key g \<noteq> (dest, md) \<and> fw_running g}" if "fw_running f"
    using port [OF that] by fastforce
  ultimately show ?thesis
    using assms(1) f(1) by (auto simp: bridge_inv_def ms list_all_iff distinct_map_filter2 distinct_map_filter)
qed

interpretation bridge_sys: invariant_system bridge_init "bridge_step may_die taken" "bridge_inv may_die"
proof
  show "bridge_inv may_die x" if "bridge_init x" for x
    using that by (simp add: bridge_init_def bridge_inv_def)
next
  show "bridge_inv may_die y" if "bridge_inv may_die x" and "bridge_step may_die taken x y" for x y
    using that(2,1)
  proof cases
    case (Forward draws now dest md s a s')
    then show ?thesis using that(1) forward_ports_distinct by blast
  next
    case (Evict f s now)
    then show ?thesis
      using that(1) by (auto simp: bridge_inv_def list_all_iff distinct_map_filter2 distinct_map_filter)
  next
    case (Listener_Dies now s k)
    have "map fw_key (stop_listener k ms) = map fw_key ms" for ms
      by (induction ms) (auto simp: stop_listener_def)
    moreover have "map fw_port (filter fw_running (stop_listener k ms)) =
        map fw_port (filter (\<lambda>g. fw_key g \<noteq> k \<and> fw_running g) ms)" for ms
      by (induction ms) (auto simp: stop_listener_def)
    ultimately show ?thesis
      using that(1) Listener_Dies by (simp add: bridge_inv_def distinct_map_filter2)
  qed (simp add: bridge_inv_def)
qed

text \<open>In a reachable state an address belongs to one forwarding.\<close>

lemma forwards_iff:
  assumes "bridge_inv may_die (now, s)" and "f \<in> set (mapping s)" and "fw_running f" and "fw_live now f"
  shows "bridge_forwards now s (addr_of (bridge_ip s) (fw_port f)) = Some (fw_key f)"
proof -
  let ?P = "\<lambda>g. fw_running g \<and> fw_live now g \<and> addr_of (bridge_ip s) (fw_port g) = addr_of (bridge_ip s) (fw_port f)"
  obtain g where g: "find ?P (mapping s) = Some g"
    using assms(2,3,4) by (cases "find ?P (mapping s)") (auto simp: find_None_iff)
  then have "g \<in> set (mapping s)" and "?P g" by (auto simp: find_Some_iff)
  then have "g = f"
    using fw_port_unique [OF assms(1), of g f] assms(2,3) by simp
  then show ?thesis using g by (simp add: bridge_forwards_def)
qed

lemma forward_kept:
  assumes "(bridge_step False taken)\<^sup>*\<^sup>* x y" and "bridge_inv False x"
    and "f \<in> set (mapping (snd x))" and "fw_used f = fst x" and "fst y < fst x + 3600"
  shows "bridge_ip (snd y) = bridge_ip (snd x) \<and>
    (\<exists>g \<in> set (mapping (snd y)). fw_key g = fw_key f \<and> fw_port g = fw_port f \<and> fst x \<le> fw_used g) \<and> fst x \<le> fst y"
  using assms(1,5)
proof (induction rule: rtranclp_induct)
  case base
  then show ?case using assms(3,4) by auto
next
  case (step y z)
  have inv: "bridge_inv False y" using bridge_sys.run_inv [OF step.hyps(1) assms(2)] .
  have le: "fst y \<le> fst z" using step.hyps(2) by cases simp_all
  then obtain g where g: "g \<in> set (mapping (snd y))" "fw_key g = fw_key f" "fw_port g = fw_port f"
      "fst x \<le> fw_used g" and ip: "bridge_ip (snd y) = bridge_ip (snd x)" and t: "fst x \<le> fst y"
    using step.IH step.prems by auto
  from step.hyps(2) show ?case
  proof cases
    case (Forward draws now dest md s a s')
    obtain h where h: "fw_key h = (dest, md)" "fw_used h = now"
        "s' = s\<lparr>mapping := h # filter (\<lambda>g. fw_key g \<noteq> (dest, md)) (mapping s)\<rparr>"
        "(\<exists>g \<in> set (mapping s). h = g\<lparr>fw_used := now\<rparr>) \<or> fw_running h \<and> \<not> port_bound s (fw_port h)"
      using tcp_forward_result [OF Forward(3)] by blast
    show ?thesis
    proof (cases "fw_key g = (dest, md)")
      case True
      have "fw_live now g" using g(4) t step.prems Forward le by (simp add: fw_live_def)
      then obtain g' where "find (\<lambda>f. fw_key f = (dest, md) \<and> fw_live now f) (mapping s) = Some g'"
        using True g(1) Forward by (cases "find (\<lambda>f. fw_key f = (dest, md) \<and> fw_live now f) (mapping s)")
          (auto simp: find_None_iff)
      moreover from this have "g' = g"
        using True g(1) fw_key_unique [OF inv, of g' g] Forward by (auto dest: find_SomeD)
      ultimately have "s' = s\<lparr>mapping := g\<lparr>fw_used := now\<rparr> # filter (\<lambda>g. fw_key g \<noteq> (dest, md)) (mapping s)\<rparr>"
        using Forward(3) by (simp add: tcp_forward_def Let_def)
      then show ?thesis using Forward g ip t by simp
    next
      case False
      then show ?thesis using Forward g ip t h(3) by auto
    qed
  next
    case (Evict e s now)
    have "fw_live now g" using g(4) t step.prems Evict le by (simp add: fw_live_def)
    then have "g \<noteq> e" using Evict by blast
    then have "fw_key g \<noteq> fw_key e"
      using g(1) fw_key_unique [OF inv, of g e] Evict by simp
    then show ?thesis using Evict g ip t by auto
  qed (use g ip t in auto)
qed

text \<open>
  C28: An address that a bridge answers to the broker forwards to the destination and with the metadata
  of the request, and to nothing else, for an hour, whatever else the bridge is asked to forward
  and whatever expires in between, as long as no accept loop dies.
\<close>

theorem forwarding_lasts:
  assumes "reachable bridge_init (bridge_step False taken) (t, s)"
    and "tcp_forward taken draws t dest md s = Some (a, s')"
    and "(bridge_step False taken)\<^sup>*\<^sup>* (t, s') (t', s'')" and "t' < t + 3600"
  shows "bridge_forwards t' s'' a = Some (dest, md)"
proof -
  have inv: "bridge_inv False (t, s')"
    using bridge_sys.reachable_inv [OF assms(1)] forward_ports_distinct [OF _ assms(2)] by blast
  obtain f where f: "a = addr_of (bridge_ip s) (fw_port f)" "fw_key f = (dest, md)" "fw_used f = t"
      "s' = s\<lparr>mapping := f # filter (\<lambda>g. fw_key g \<noteq> (dest, md)) (mapping s)\<rparr>"
    using tcp_forward_result [OF assms(2)] by blast
  then have "f \<in> set (mapping (snd (t, s')))" "fw_used f = fst (t, s')" by simp_all
  from forward_kept [OF assms(3) inv this] assms(4) obtain g where
      g: "g \<in> set (mapping s'')" "fw_key g = fw_key f" "fw_port g = fw_port f" "t \<le> fw_used g"
      and ip: "bridge_ip s'' = bridge_ip s'"
    by auto
  have inv2: "bridge_inv False (t', s'')" using bridge_sys.run_inv [OF assms(3) inv] .
  moreover have "fw_running g" using inv2 g(1) by (simp add: bridge_inv_def list_all_iff)
  moreover have "fw_live t' g" using g(4) assms(4) by (simp add: fw_live_def)
  ultimately show ?thesis using forwards_iff [of False t' s'' g] g ip f by simp
qed

definition example_md :: B2eMetadata where
  "example_md = \<lparr>protocol = Obfs_ConnTest Obfs_None, md_expiry = 90000\<rparr>"

definition example_bridge :: bridge where
  "example_bridge =
     \<lparr>bridge_ip = ''5.6.7.8'', mapping = [\<lparr>fw_key = (''1.2.3.4:9003'', example_md), fw_port = 2050, fw_used = 10, fw_running = True\<rparr>]\<rparr>"

lemma example_forward:
  "tcp_forward (\<lambda>_. False) [2] 10 ''1.2.3.4:9003'' example_md \<lparr>bridge_ip = ''5.6.7.8'', mapping = []\<rparr> =
     Some (addr_of ''5.6.7.8'' 2050, example_bridge)"
  by (simp add: tcp_forward_def Let_def port_bound_def random_port_def example_bridge_def)

theorem forwarding_lasts_witness:
  "bridge_forwards 3000 example_bridge (addr_of ''5.6.7.8'' 2050) = Some (''1.2.3.4:9003'', example_md)"
proof -
  have "(bridge_step False (\<lambda>_. False))\<^sup>*\<^sup>* (10, example_bridge) (3000, example_bridge)"
    using bridge_step.Tick [of False "\<lambda>_. False" 10 example_bridge 2990] by simp
  then show ?thesis
    using forwarding_lasts [OF _ example_forward, of "3000" example_bridge]
    by (simp add: reachable_init bridge_init_def)
qed

text \<open>
  A forwarding whose accept loop has died is still answered to the broker, until it has not been
  asked for during an hour.
\<close>

lemma dead_forwarding_answered:
  assumes "bridge_inv True (now, s)" and "f \<in> set (mapping s)" and "fw_live now f" and "\<not> fw_running f"
  shows "\<exists>s'. tcp_forward taken draws now (fst (fw_key f)) (snd (fw_key f)) s =
      Some (addr_of (bridge_ip s) (fw_port f), s') \<and>
    (\<forall>g \<in> set (mapping s'). fw_key g = fw_key f \<longrightarrow> \<not> fw_running g)"
proof -
  obtain g where "find (\<lambda>g. fw_key g = fw_key f \<and> fw_live now g) (mapping s) = Some g"
    using assms(2,3) by (cases "find (\<lambda>g. fw_key g = fw_key f \<and> fw_live now g) (mapping s)") (auto simp: find_None_iff)
  moreover from this have "g = f"
    using fw_key_unique [OF assms(1), of g f] assms(2) by (auto dest: find_SomeD)
  ultimately show ?thesis using assms(4) by (simp add: tcp_forward_def Let_def)
qed

section \<open>From the broker's route to the exit\<close>

text \<open>
  What the broker and the client rely on: the answer of a bridge is an address that is forwarded to
  the destination asked for, with the protocol asked for.
\<close>

locale forwarding =
  fixes ok :: "'s \<Rightarrow> bool"
    and answer :: "'s \<Rightarrow> forwarder"
    and target :: "'s \<Rightarrow> sock_addr \<Rightarrow> (sock_addr \<times> ObfsProtocol) option"
  assumes answer_target: "ok s \<Longrightarrow> answer s b dest p = Inr a \<Longrightarrow> target s a = Some (dest, p)"
begin

definition reaches :: "'s \<Rightarrow> sock_addr \<Rightarrow> dialer \<Rightarrow> bool" where
  "reaches s dest d \<longleftrightarrow> (\<forall>(ls, a) \<in> set (endpoints d).
     \<exists>p. target s a = Some (dest, p) \<and> ls = listener_layers (create_listener p ReceiverListener))"

lemma inner_route_reaches:
  assumes "ok s" and "bridge_to_leaf_route_inner (answer s) b dest p = Inr r"
  shows "reaches s dest (fst (route_to_dialer vpn r))"
proof -
  obtain a where "answer s b dest p = Inr a" and "r = protocol_to_descriptor p a"
    using assms(2) by (auto simp: bridge_to_leaf_route_inner_def map_sum_def split: sum.splits)
  then show ?thesis
    using answer_target [OF assms(1)] by (auto simp: reaches_def protocol_layers)
qed

lemma leaf_route_reaches:
  assumes "ok s" and "leaf_route (answer s) cookie b delay_ms dest = Inr r"
  shows "reaches s dest (fst (route_to_dialer vpn r))"
proof -
  note inner = inner_route_reaches [OF assms(1), where b = b and dest = dest and vpn = vpn]
  consider r1 p where "bridge_to_leaf_route_inner (answer s) b dest p = Inr r1" "r = Delay delay_ms r1"
    | r1 r2 p q where "bridge_to_leaf_route_inner (answer s) b dest p = Inr r1"
        "bridge_to_leaf_route_inner (answer s) b dest q = Inr r2" "r = Delay delay_ms (Fallback [r1, r2])"
    using assms(2)
    by (auto simp: leaf_route_def map_sum_def result_bind_Inr_iff split: if_splits sum.splits)
  then show ?thesis
  proof cases
    case 1
    then show ?thesis using inner by (simp add: reaches_def Let_def case_prod_unfold)
  next
    case 2
    then have "reaches s dest (fst (route_to_dialer vpn r1))" "reaches s dest (fst (route_to_dialer vpn r2))"
      using inner by blast+
    then show ?thesis using 2(3) by (force simp: reaches_def Let_def case_prod_unfold reduce_def)
  qed
qed

end

text \<open>The answers a bridge has given and still stands by, by destination and protocol.\<close>

definition bridge_answer :: "nat \<times> bridge \<Rightarrow> forwarder" where
  "bridge_answer x = (\<lambda>_ dest p.
     (case find (\<lambda>f. fst (fw_key f) = dest \<and> protocol (snd (fw_key f)) = p \<and> fw_running f \<and> fw_live (fst x) f)
             (mapping (snd x)) of
        Some f \<Rightarrow> Inr (addr_of (bridge_ip (snd x)) (fw_port f))
      | None \<Rightarrow> Inl ''timed out''))"

definition bridge_target :: "nat \<times> bridge \<Rightarrow> sock_addr \<Rightarrow> (sock_addr \<times> ObfsProtocol) option" where
  "bridge_target x a = map_option (\<lambda>(dest, md). (dest, protocol md)) (bridge_forwards (fst x) (snd x) a)"

interpretation bridge_forwarding: forwarding "bridge_inv True" bridge_answer bridge_target
proof
  show "bridge_target x a = Some (dest, p)"
    if "bridge_inv True x" and "bridge_answer x b dest p = Inr a" for x b dest p a
  proof -
    note hyps = that
    obtain f where f: "f \<in> set (mapping (snd x))" "fst (fw_key f) = dest" "protocol (snd (fw_key f)) = p"
        "fw_running f" "fw_live (fst x) f" "a = addr_of (bridge_ip (snd x)) (fw_port f)"
      using hyps(2) by (auto simp: bridge_answer_def split: option.splits dest!: find_SomeD)
    then show ?thesis
      using forwards_iff [of True "fst x" "snd x" f] hyps(1) by (simp add: bridge_target_def case_prod_unfold)
  qed
qed

lemma b2e_accept_handed:
  assumes "b2e_inv st" and "b2e_accept decode alive now raw st = (Inr (), st')" and "decode raw = Some md"
  shows "\<exists>pid. last (handed st') = (pid, md) \<and> proc_listener st' pid = create_listener (protocol md) ReceiverListener"
proof -
  have "procs st ! pid = md" if "b2e_table st md = Some (pid, u)" for pid u
    using assms(1) that by (auto simp: b2e_inv_def)
  then show ?thesis
    using assms(2,3) by (auto simp: b2e_accept_def proc_listener_def Let_def split: option.splits if_splits)
qed


definition example_pool :: BridgeDescriptor where
  "example_pool = \<lparr>control_listen = ''5.6.7.8:1234'', control_cookie = ''x'', pool = ''rbxa'', br_expiry = 0\<rparr>"


section \<open>Clients of a forwarding\<close>

text \<open>
  The accept loop: for each accepted connection its remote address and the table of networks at
  that time. It returns the relays it starts, the error that ended it (None while it waits for the
  next client) and the counters; the whole is None when it panics.
\<close>

fun handle_one_listener ::
    "(string \<Rightarrow> IpAddr option) \<Rightarrow> sock_addr \<Rightarrow> B2eMetadata \<Rightarrow> (string + string \<times> (string + asn_map)) list \<Rightarrow> asn_counters
       \<Rightarrow> ((u32 \<times> sock_addr \<times> B2eMetadata) list \<times> string option \<times> asn_counters) option" where
  "handle_one_listener parse dest md [] s = Some ([], None, s)"
| "handle_one_listener parse dest md (Inl e # es) s = Some ([], Some e, s)"
| "handle_one_listener parse dest md (Inr (remote, table) # es) s =
     Option.bind (parse remote) (\<lambda>ip.
       case ip_to_asn table ip s of
         (Inl e, s') \<Rightarrow> Some ([], Some e, s')
       | (Inr asn, s') \<Rightarrow>
           map_option (\<lambda>(rs, r, s''). ((asn, dest, md) # rs, r, s''))
             (handle_one_listener parse dest md es s'))"

text \<open>One client whose network cannot be looked up ends the loop: none after it is served.\<close>

lemma lookup_error_ends_listener:
  assumes "parse remote = Some ip" and "ip_to_asn table ip s = (Inl e, s')"
  shows "handle_one_listener parse dest md (Inr (remote, table) # es) s = Some ([], Some e, s')"
  using assms by simp

section \<open>Relaying\<close>

text \<open>
  What one turn of the copy loop meets: a chunk that was read, with the outcome of writing it
  (an error after the first so many bytes), a read error, or silence for the whole timeout.
\<close>

datatype copy_event = Chunk bytes "(nat \<times> io_error) option" | Read_Failed io_error | Read_Timeout

fun io_copy_with_timeout ::
    "bool \<Rightarrow> string option \<Rightarrow> u32 \<Rightarrow> copy_event list \<Rightarrow> asn_counters
       \<Rightarrow> (bytes \<times> (io_error + unit) option \<times> asn_counters) option" where
  "io_copy_with_timeout endpoint pl asn [] s = Some ([], None, s)"
| "io_copy_with_timeout endpoint pl asn (Chunk buf w # es) s =
     (if buf = [] then Some ([], Some (Inr ()), s)
      else case w of
        Some (n, e) \<Rightarrow> Some (take n buf, Some (Inl e), s)
      | None \<Rightarrow>
          Option.bind (incr_bytes_asn endpoint pl asn (length buf) s) (\<lambda>s'.
            map_option (\<lambda>(out, r, s''). (buf @ out, r, s'')) (io_copy_with_timeout endpoint pl asn es s')))"
| "io_copy_with_timeout endpoint pl asn (Read_Failed e # es) s = Some ([], Some (Inl e), s)"
| "io_copy_with_timeout endpoint pl asn (Read_Timeout # es) s = Some ([], Some (Inl (IoError TimedOut ''timeout'')), s)"

text \<open>The bytes read before the stream ended or failed, when the writer takes everything.\<close>

fun copied :: "copy_event list \<Rightarrow> bytes" where
  "copied (Chunk buf None # es) = (if buf = [] then [] else buf @ copied es)"
| "copied _ = []"

lemma incr_bytes_accounted:
  assumes "incr_bytes_asn True (Some pl) asn n s = Some s'"
  shows "held s' asn + reported s' asn = held s asn + reported s asn + n"
proof -
  obtain b s1 where "add_bytes asn n s = Some (b, s1)"
      and "s' = (if b then flush_asn_data True (Some pl) asn s1 else s1)"
    using assms by (cases "add_bytes asn n s") (auto simp: incr_bytes_asn_def)
  moreover from this have "held s1 asn = held s asn + n" and "reported s1 asn = reported s asn"
    by (auto simp: reported_def dest!: add_bytes_held)
  ultimately show ?thesis by (simp add: flush_held)
qed

text \<open>
  A relay of a bridge writes exactly the bytes it read, in order, up to the end of the stream,
  the first error or the timeout, as long as the writer takes them, and accounts every one of them
  to the network of the client.
\<close>

theorem relay_copies_and_counts:
  assumes "io_copy_with_timeout True (Some pl) asn es s = Some (out, r, s')"
    and "list_all (\<lambda>e. case e of Chunk _ w \<Rightarrow> w = None | _ \<Rightarrow> True) es"
  shows "out = copied es \<and> held s' asn + reported s' asn = held s asn + reported s asn + length out"
  using assms
proof (induction es arbitrary: s out)
  case (Cons e es)
  show ?case
  proof (cases e)
    case (Chunk buf w)
    then have w: "w = None" using Cons.prems(2) by simp
    show ?thesis
    proof (cases "buf = []")
      case False
      then obtain s1 out1 where "incr_bytes_asn True (Some pl) asn (length buf) s = Some s1"
          and "io_copy_with_timeout True (Some pl) asn es s1 = Some (out1, r, s')" and "out = buf @ out1"
        using Cons.prems(1) Chunk w by (auto simp: bind_eq_Some_conv)
      then show ?thesis
        using Cons.IH Cons.prems(2) incr_bytes_accounted Chunk w False by fastforce
    qed (use Cons.prems(1) Chunk w in auto)
  qed (use Cons.prems(1) in auto)
qed simp

theorem relay_copies_and_counts_witness:
  "\<exists>s'. io_copy_with_timeout True (Some ''p'') 7 [Chunk [1, 2] None, Chunk [3] None, Read_Timeout]
      \<lparr>asn_byte_counts = Map.empty, asn_country_map = Map.empty, sent = []\<rparr> =
        Some ([1, 2, 3], Some (Inl (IoError TimedOut ''timeout'')), s') \<and>
    held s' 7 + reported s' 7 = 3"
proof -
  obtain s' where "io_copy_with_timeout True (Some ''p'') 7 [Chunk [1, 2] None, Chunk [3] None, Read_Timeout]
      \<lparr>asn_byte_counts = Map.empty, asn_country_map = Map.empty, sent = []\<rparr> =
        Some ([1, 2, 3], Some (Inl (IoError TimedOut ''timeout'')), s')"
    by (simp add: incr_bytes_asn_def add_bytes_def FLUSH_THRESHOLD_def)
  with relay_copies_and_counts [OF this] show ?thesis by (simp add: held_def reported_def)
qed

section \<open>The pool of connections to an exit\<close>

text \<open>
  Thirty-two workers share a queue of requests. A worker that has dialed serves requests until
  its multiplexer fails, then rests before it dials again. \<open>opened\<close> lists the requests that were
  answered with a stream.
\<close>

datatype worker = Dialing | Serving | Resting

record single_pool =
  live_count :: nat
  workers :: "worker list"
  queue :: "bytes list"
  opened :: "bytes list"

definition pool_create :: single_pool where
  "pool_create = \<lparr>live_count = 0, workers = replicate 32 Dialing, queue = [], opened = []\<rparr>"

text \<open>\<open>connect\<close>: None while the queue of 100 requests is full and the caller waits.\<close>

definition pool_connect :: "bytes \<Rightarrow> single_pool \<Rightarrow> (string + single_pool) option" where
  "pool_connect metadata s =
     (if live_count s = 0 then Some (Inl ''no live workers'')
      else if length (queue s) < 100 then Some (Inr (s\<lparr>queue := queue s @ [metadata]\<rparr>))
      else None)"

inductive pool_step :: "single_pool \<Rightarrow> single_pool \<Rightarrow> bool" where
  Dialed: "i < length (workers s) \<Longrightarrow> workers s ! i = Dialing \<Longrightarrow>
    pool_step s (s\<lparr>workers := (workers s)[i := Serving], live_count := live_count s + 1\<rparr>)"
| Dial_Failed: "i < length (workers s) \<Longrightarrow> workers s ! i = Dialing \<Longrightarrow>
    pool_step s (s\<lparr>workers := (workers s)[i := Resting]\<rparr>)"
| Opened: "i < length (workers s) \<Longrightarrow> workers s ! i = Serving \<Longrightarrow> queue s = m # ms \<Longrightarrow>
    pool_step s (s\<lparr>queue := ms, opened := opened s @ [m]\<rparr>)"
| Open_Failed: "i < length (workers s) \<Longrightarrow> workers s ! i = Serving \<Longrightarrow> queue s = m # ms \<Longrightarrow>
    pool_step s (s\<lparr>queue := ms, workers := (workers s)[i := Resting], live_count := live_count s - 1\<rparr>)"
| Rested: "i < length (workers s) \<Longrightarrow> workers s ! i = Resting \<Longrightarrow>
    pool_step s (s\<lparr>workers := (workers s)[i := Dialing]\<rparr>)"
| Connect: "pool_connect m s = Some (Inr s') \<Longrightarrow> pool_step s s'"

definition pool_inv :: "single_pool \<Rightarrow> bool" where
  "pool_inv s \<longleftrightarrow> live_count s = count_list (workers s) Serving \<and> length (workers s) = 32 \<and> length (queue s) \<le> 100"

lemma count_list_update:
  "i < length xs \<Longrightarrow> count_list (xs[i := y]) x + (if xs ! i = x then 1 else 0) = count_list xs x + (if y = x then 1 else 0)"
proof (induction xs arbitrary: i)
  case (Cons a xs)
  then show ?case by (cases i) (auto dest!: Cons.IH)
qed simp

interpretation pool_sys: invariant_system "\<lambda>s. s = pool_create" pool_step pool_inv
proof
  show "pool_inv s" if "s = pool_create" for s
    using that by (simp add: pool_inv_def pool_create_def)
next
  show "pool_inv t" if "pool_inv s" and "pool_step s t" for s t
    using that(2,1)
  proof cases
    case (Dialed i)
    then show ?thesis using that(1) count_list_update [of i "workers s" Serving Serving] by (simp add: pool_inv_def)
  next
    case (Dial_Failed i)
    then show ?thesis using that(1) count_list_update [of i "workers s" Resting Serving] by (simp add: pool_inv_def)
  next
    case (Open_Failed i m ms)
    then show ?thesis using that(1) count_list_update [of i "workers s" Resting Serving] by (simp add: pool_inv_def)
  next
    case (Rested i)
    then show ?thesis using that(1) count_list_update [of i "workers s" Dialing Serving] by (simp add: pool_inv_def)
  qed (auto simp: pool_inv_def pool_connect_def split: if_splits)
qed

text \<open>
  The count of live workers of a pool is exact in every state it can reach: a request for a
  stream is refused just when no worker has a connection to the exit, so in particular the first
  requests of a pool that was just made are refused until one of its workers has dialed.
\<close>

theorem pool_refuses_iff_no_worker:
  assumes "reachable (\<lambda>s. s = pool_create) pool_step s"
  shows "pool_connect m s = Some (Inl ''no live workers'') \<longleftrightarrow> Serving \<notin> set (workers s)"
  using pool_sys.reachable_inv [OF assms]
  by (simp add: pool_inv_def pool_connect_def count_list_0_iff)

theorem pool_refuses_iff_no_worker_witness:
  "pool_connect [1] pool_create = Some (Inl ''no live workers'')"
  using pool_refuses_iff_no_worker [of pool_create "[1]"]
  by (simp add: reachable_init) (simp add: pool_create_def)

text \<open>
  \<open>dial_pooled\<close>: the pools by the address of their exit, with the instant of their last use, in
  seconds; the cache drops a pool that was not used for two hours. Making a pool does not wait, so its
  time limit never passes. \<open>room\<close> is the pool once a full queue has a place, if that is within the
  second a caller waits, and \<open>front\<close> is what comes back in that second, with an error when the request
  was dropped.
\<close>

type_synonym pools = "sock_addr \<rightharpoonup> single_pool \<times> nat"

definition pool_get :: "nat \<Rightarrow> sock_addr \<Rightarrow> pools \<Rightarrow> single_pool" where
  "pool_get now b2e_dest POOLS =
     (case POOLS b2e_dest of
        Some (p, used) \<Rightarrow> if now < used + 3600 * 2 then p else pool_create
      | None \<Rightarrow> pool_create)"

definition dial_answer :: "sock_addr \<Rightarrow> (string + 's) option \<Rightarrow> string + 's" where
  "dial_answer b2e_dest front =
     (case front of
        None \<Rightarrow> Inl ''timeout connecting through pool''
      | Some (Inl _) \<Rightarrow> Inl (''cannot open through mux, b2e_dest='' @ b2e_dest)
      | Some (Inr stream) \<Rightarrow> Inr stream)"

definition dial_pooled ::
    "nat \<Rightarrow> sock_addr \<Rightarrow> bytes \<Rightarrow> single_pool option \<Rightarrow> (string + 's) option \<Rightarrow> pools \<Rightarrow> (string + 's) \<times> pools" where
  "dial_pooled now b2e_dest metadata room front POOLS =
     (let p = pool_get now b2e_dest POOLS
      in case pool_connect metadata p of
           Some (Inl err) \<Rightarrow> (dial_answer b2e_dest (Some (Inl err)), POOLS(b2e_dest \<mapsto> (p, now)))
         | Some (Inr p') \<Rightarrow> (dial_answer b2e_dest front, POOLS(b2e_dest \<mapsto> (p', now)))
         | None \<Rightarrow>
             (case room of
                None \<Rightarrow> (dial_answer b2e_dest None, POOLS(b2e_dest \<mapsto> (p, now)))
              | Some q \<Rightarrow> (dial_answer b2e_dest front, POOLS(b2e_dest \<mapsto> (q\<lparr>queue := queue q @ [metadata]\<rparr>, now)))))"

text \<open>
  The pools as they change: a dial at an instant, a step of the workers of one pool, and time. The room
  that a caller waits for is that of a later state of its pool.
\<close>

inductive pools_step :: "nat \<times> pools \<Rightarrow> nat \<times> pools \<Rightarrow> bool" where
  Dial: "(\<And>q. room = Some q \<Longrightarrow> pool_step\<^sup>*\<^sup>* (pool_get now b2e_dest POOLS) q \<and> length (queue q) < 100) \<Longrightarrow>
    pools_step (now, POOLS) (now, snd (dial_pooled now b2e_dest metadata room (front :: (string + unit) option) POOLS))"
| Work: "POOLS dest = Some (p, used) \<Longrightarrow> pool_step p p' \<Longrightarrow> pools_step (now, POOLS) (now, POOLS(dest \<mapsto> (p', used)))"
| Pass: "pools_step (now, POOLS) (now + dt, POOLS)"

definition pools_inv :: "nat \<times> pools \<Rightarrow> bool" where
  "pools_inv s \<longleftrightarrow> (\<forall>dest p used. snd s dest = Some (p, used) \<longrightarrow> pool_inv p \<and> used \<le> fst s)"

lemma pool_get_inv: "pools_inv (now, POOLS) \<Longrightarrow> pool_inv (pool_get now' dest POOLS)"
  by (auto simp: pools_inv_def pool_get_def intro: pool_sys.init_inv split: option.splits)

lemma pool_connect_inv: "pool_inv p \<Longrightarrow> pool_connect m p = Some (Inr p') \<Longrightarrow> pool_inv p'"
  by (auto simp: pool_inv_def pool_connect_def split: if_splits)

lemma dial_pooled_other: "dest \<noteq> b2e_dest \<Longrightarrow> snd (dial_pooled now b2e_dest metadata room front POOLS) dest = POOLS dest"
  by (simp add: dial_pooled_def Let_def split: option.splits sum.splits)

lemma dial_pooled_pool:
  assumes "pool_inv (pool_get now b2e_dest POOLS)"
    and "\<And>q. room = Some q \<Longrightarrow> pool_step\<^sup>*\<^sup>* (pool_get now b2e_dest POOLS) q \<and> length (queue q) < 100"
  shows "\<exists>p. snd (dial_pooled now b2e_dest metadata room front POOLS) b2e_dest = Some (p, now) \<and> pool_inv p"
proof -
  have "pool_inv (q\<lparr>queue := queue q @ [metadata]\<rparr>)" if "room = Some q" for q
    using pool_sys.run_inv [of _ q] assms that by (fastforce simp: pool_inv_def)
  then show ?thesis
    using assms(1) pool_connect_inv [OF assms(1)]
    by (auto simp: dial_pooled_def Let_def split: option.splits sum.splits)
qed

interpretation pools_sys: invariant_system "\<lambda>s. snd s = Map.empty" pools_step pools_inv
proof
  show "pools_inv s" if "snd s = Map.empty" for s using that by (simp add: pools_inv_def)
next
  show "pools_inv t" if "pools_inv s" and "pools_step s t" for s t
    using that(2,1)
  proof cases
    case (Dial room now b2e_dest POOLS metadata front)
    have "pool_inv (pool_get now b2e_dest POOLS)" by (rule pool_get_inv) (use that(1) Dial in simp)
    from dial_pooled_pool [OF this, of room metadata front] Dial(2,3)
    obtain p where p: "snd t b2e_dest = Some (p, now)" "pool_inv p" by auto
    have "pool_inv q \<and> used \<le> fst t" if "snd t dest = Some (q, used)" for dest q used
      using p that \<open>pools_inv s\<close> Dial dial_pooled_other [of dest b2e_dest now metadata room front POOLS]
      by (cases "dest = b2e_dest") (auto simp: pools_inv_def)
    then show ?thesis by (simp add: pools_inv_def)
  qed (auto simp: pools_inv_def intro: pool_sys.step_inv trans_le_add1)
qed

text \<open>
  A client gets no stream from a new pool: the very first dial to an exit is refused, and so is every
  dial that finds no worker connected. In a state that can be reached, a dial to a pool with a connected
  worker and a place in its queue puts the request at the end of it and gives what comes back.
\<close>

lemma first_dial_refused:
  "POOLS b2e_dest = None \<Longrightarrow>
   dial_pooled now b2e_dest metadata room front POOLS =
     (Inl (''cannot open through mux, b2e_dest='' @ b2e_dest), POOLS(b2e_dest \<mapsto> (pool_create, now)))"
  by (simp add: dial_pooled_def pool_get_def pool_connect_def pool_create_def dial_answer_def)

lemma dial_pooled_live:
  assumes "reachable (\<lambda>s. snd s = Map.empty) pools_step (now, POOLS)"
    and "POOLS b2e_dest = Some (p, used)" and "now < used + 7200"
  shows "Serving \<notin> set (workers p) \<Longrightarrow> fst (dial_pooled now b2e_dest metadata room front POOLS) =
      Inl (''cannot open through mux, b2e_dest='' @ b2e_dest)"
    and "Serving \<in> set (workers p) \<Longrightarrow> length (queue p) < 100 \<Longrightarrow>
      dial_pooled now b2e_dest metadata room front POOLS =
        (dial_answer b2e_dest front, POOLS(b2e_dest \<mapsto> (p\<lparr>queue := queue p @ [metadata]\<rparr>, now)))"
proof -
  have "pool_inv p" using pools_sys.reachable_inv [OF assms(1)] assms(2) by (auto simp: pools_inv_def)
  then have "live_count p = 0 \<longleftrightarrow> Serving \<notin> set (workers p)" by (simp add: pool_inv_def count_list_0_iff)
  with assms(2,3) show "Serving \<notin> set (workers p) \<Longrightarrow> fst (dial_pooled now b2e_dest metadata room front POOLS) =
      Inl (''cannot open through mux, b2e_dest='' @ b2e_dest)"
    and "Serving \<in> set (workers p) \<Longrightarrow> length (queue p) < 100 \<Longrightarrow>
      dial_pooled now b2e_dest metadata room front POOLS =
        (dial_answer b2e_dest front, POOLS(b2e_dest \<mapsto> (p\<lparr>queue := queue p @ [metadata]\<rparr>, now)))"
    by (simp_all add: dial_pooled_def pool_get_def pool_connect_def dial_answer_def)
qed

section \<open>Announcing the bridge\<close>

definition bridge_upload :: "('h, 's) broker_env \<Rightarrow> string \<Rightarrow> BridgeDescriptor \<Rightarrow> BridgeDescriptor Mac" where
  "bridge_upload env token d =
     mac_new (env_pc env) (code_bridge env) d (b3_hash (env_pc env) (text_bytes token))"

definition bridge_descriptor :: "sock_addr \<Rightarrow> string \<Rightarrow> string \<Rightarrow> nat \<Rightarrow> BridgeDescriptor" where
  "bridge_descriptor listen cookie pl unix_secs =
     \<lparr>control_listen = listen, control_cookie = cookie, pool = pl, br_expiry = unix_secs + 120\<rparr>"

definition bridge_round ::
    "('h, 's) broker_env \<Rightarrow> bool \<Rightarrow> string \<Rightarrow> sock_addr \<Rightarrow> string \<Rightarrow> string \<Rightarrow> nat \<Rightarrow> broker \<Rightarrow> (string + unit) \<times> broker" where
  "bridge_round env q token listen cookie pl unix_secs st =
     insert_bridge env q (bridge_upload env token (bridge_descriptor listen cookie pl unix_secs)) st"

lemma bridge_round_registers:
  "bridge_round env True (bridge_token env) listen cookie pl unix_secs st =
     (Inr (), db_insert_bridge (bridge_descriptor listen cookie pl unix_secs) st)"
  by (simp add: bridge_round_def insert_bridge_def bridge_upload_def mac_roundtrip)

end
