(* ===== verification/Broker_Aux.thy ===== *)
theory Broker_Aux
  imports Broker
begin

text \<open>
  The rest of the broker (binaries/geph5-broker/src): the news with their cache files (news.rs), the
  availability reports of clients and the statistics calls (rpc_impl.rs) and the counts it publishes
  about itself (self_stat.rs). HTTP, the language model that writes the news, JSON, dates and StatsD
  are parameters.
\<close>

section \<open>News\<close>

record PreNewsItem =
  pre_title :: string
  pre_date :: string
  pre_contents :: string

record BrokerNewsItem =
  bw_title :: string
  bw_date_unix :: u64
  bw_contents :: string

type_synonym news = "BrokerNewsItem list"

text \<open>\<open>date_to_unix_timestamp\<close> panics on what is no date; the i64 is cast to u64.\<close>

definition date_to_unix_timestamp :: "(string \<Rightarrow> int option) \<Rightarrow> string \<Rightarrow> int option" where
  "date_to_unix_timestamp parse_date s = parse_date s"

fun convert_news :: "(string \<Rightarrow> int option) \<Rightarrow> PreNewsItem list \<Rightarrow> news option" where
  "convert_news parse_date [] = Some []"
| "convert_news parse_date (item # items) =
     Option.bind (date_to_unix_timestamp parse_date (pre_date item)) (\<lambda>t.
       map_option (\<lambda>ns. \<lparr>bw_title = pre_title item, bw_date_unix = word_of_int t, bw_contents = pre_contents item\<rparr> # ns)
         (convert_news parse_date items))"

text \<open>
  What \<open>fetch_news\<close> does about a request: refuse the language, answer from the cache file, with or
  without a refresh in the background, or fetch. The file is its text and the second of its last
  change, if it can be read; a time in the future counts as stale.
\<close>

datatype news_action = News_Refused string | News_Cached news bool | News_Fetch

definition news_langs :: "string list" where
  "news_langs = [''en'', ''zh-CN'', ''zh-TW'', ''fa'', ''ru'']"

definition fetch_news :: "(string \<Rightarrow> news option) \<Rightarrow> nat \<Rightarrow> string \<Rightarrow> (string \<times> nat) option \<Rightarrow> news_action" where
  "fetch_news from_json now lang_code file =
     (if lang_code \<notin> set news_langs then News_Refused (''unsupported language '' @ lang_code)
      else let cached_news = Option.bind file (\<lambda>(text, _). from_json text);
               needs_refresh = (case file of
                   Some (_, modified) \<Rightarrow> if now < modified then True else 3600 \<le> now - modified
                 | None \<Rightarrow> True)
           in case cached_news of
                Some news \<Rightarrow> News_Cached news needs_refresh
              | None \<Rightarrow> News_Fetch)"

text \<open>
  The broker serving news: background refreshes take one lock, refreshes that a request waits for
  take none. A refresh that has its items writes the file in two operations, opening it empty and
  writing the text from the start, between which others may run. \<open>bg\<close> is the language whose refresh
  holds the lock, \<open>writing\<close> the refreshes between the two operations, \<open>produced\<close> all items that
  refreshes got, \<open>served\<close> the answers; a refresh that a request waits for answers when it has written.
\<close>

record news_state =
  cache_files :: "string \<Rightarrow> (string \<times> nat) option"
  bg :: "string option"
  writing :: "(string \<times> news) list"
  produced :: "(string \<times> news) set"
  served :: "(string \<times> news) list"

text \<open>Writing to an open file from its start leaves what is behind the end of the text.\<close>

definition overwrite :: "string \<Rightarrow> string \<Rightarrow> string" where
  "overwrite text old = text @ drop (length text) old"

definition old_text :: "(string \<times> nat) option \<Rightarrow> string" where
  "old_text file = (case file of Some (text, _) \<Rightarrow> text | None \<Rightarrow> [])"

inductive news_step ::
    "(news \<Rightarrow> string) \<Rightarrow> (string \<Rightarrow> news option) \<Rightarrow> (string \<Rightarrow> int option) \<Rightarrow> news_state \<Rightarrow> news_state \<Rightarrow> bool"
  for to_json from_json parse_date where
  Answer_Cached: "fetch_news from_json now lang (cache_files s lang) = News_Cached items refresh \<Longrightarrow>
    news_step to_json from_json parse_date s (s\<lparr>served := (lang, items) # served s,
      bg := (if refresh \<and> bg s = None then Some lang else bg s)\<rparr>)"
| Fetched: "convert_news parse_date pre = Some items \<Longrightarrow> bg s = Some lang \<or> lang \<in> set news_langs \<Longrightarrow>
    news_step to_json from_json parse_date s (s\<lparr>cache_files := (cache_files s)(lang \<mapsto> ([], now)),
      writing := (lang, items) # writing s, produced := insert (lang, items) (produced s)\<rparr>)"
| Written: "(lang, items) \<in> set (writing s) \<Longrightarrow>
    news_step to_json from_json parse_date s (s\<lparr>
      cache_files := (cache_files s)(lang \<mapsto> (overwrite (to_json items) (old_text (cache_files s lang)), now)),
      writing := remove1 (lang, items) (writing s), served := (if waited_for then (lang, items) # served s else served s)\<rparr>)"
| Write_Failed: "(lang, items) \<in> set (writing s) \<Longrightarrow>
    news_step to_json from_json parse_date s (s\<lparr>writing := remove1 (lang, items) (writing s)\<rparr>)"
| Refresh_Over: "bg s = Some lang \<Longrightarrow> news_step to_json from_json parse_date s (s\<lparr>bg := None\<rparr>)"

definition news_init :: "news_state \<Rightarrow> bool" where
  "news_init s \<longleftrightarrow> (\<forall>lang. cache_files s lang = None) \<and> bg s = None \<and> writing s = [] \<and> produced s = {} \<and> served s = []"

text \<open>
  What the broker relies on of serde_json: lists of news are read back as they were written, their
  text ends with a bracket, the empty text is no value, and neither is the text of a list followed
  by more text that ends with a bracket.
\<close>

definition news_json_ok :: "(news \<Rightarrow> string) \<Rightarrow> (string \<Rightarrow> news option) \<Rightarrow> bool" where
  "news_json_ok to_json from_json \<longleftrightarrow>
     from_json [] = None \<and>
     (\<forall>items. from_json (to_json items) = Some items \<and> to_json items \<noteq> [] \<and> last (to_json items) = CHR '']'') \<and>
     (\<forall>items r. r \<noteq> [] \<longrightarrow> last r = CHR '']'' \<longrightarrow> from_json (to_json items @ r) = None)"

text \<open>The text of a file: empty, or the text of produced items, perhaps with the end of an older one.\<close>

definition file_text_ok :: "(news \<Rightarrow> string) \<Rightarrow> (string \<times> news) set \<Rightarrow> string \<Rightarrow> string \<Rightarrow> bool" where
  "file_text_ok to_json made lang text \<longleftrightarrow>
     text = [] \<or> (\<exists>items r. text = to_json items @ r \<and> (lang, items) \<in> made \<and> (r = [] \<or> last r = CHR '']''))"

definition news_inv :: "(news \<Rightarrow> string) \<Rightarrow> news_state \<Rightarrow> bool" where
  "news_inv to_json s \<longleftrightarrow>
     (\<forall>lang. file_text_ok to_json (produced s) lang (old_text (cache_files s lang))) \<and>
     set (writing s) \<subseteq> produced s \<and> set (served s) \<subseteq> produced s"

lemma file_text_ok_mono: "file_text_ok to_json p lang text \<Longrightarrow> p \<subseteq> p' \<Longrightarrow> file_text_ok to_json p' lang text"
  by (auto simp: file_text_ok_def)

lemma last_drop_text: "drop n xs \<noteq> [] \<Longrightarrow> last (drop n xs) = last xs"
  by (metis append_take_drop_id last_appendR)

lemma overwrite_ok:
  assumes "news_json_ok to_json from_json" and "file_text_ok to_json p lang old" and "(lang, items) \<in> p"
  shows "file_text_ok to_json p lang (overwrite (to_json items) old)"
proof -
  have "old = [] \<or> last old = CHR '']''"
    using assms(1,2) by (auto simp: file_text_ok_def news_json_ok_def last_append split: if_splits)
  then have "drop n old = [] \<or> last (drop n old) = CHR '']''" for n
    by (metis last_drop_text drop_Nil)
  then show ?thesis using assms(3) unfolding file_text_ok_def overwrite_def by blast
qed

lemma cached_is_produced:
  assumes "news_json_ok to_json from_json" and "file_text_ok to_json p lang text" and "from_json text = Some items"
  shows "(lang, items) \<in> p"
proof -
  from assms(1) have "from_json [] = None" by (simp add: news_json_ok_def)
  with assms(2,3) obtain items' r where t: "text = to_json items' @ r" "(lang, items') \<in> p" "r = [] \<or> last r = CHR '']''"
    by (auto simp: file_text_ok_def)
  with assms(1,3) have "r = []" by (metis news_json_ok_def option.distinct(1))
  with t assms(1,3) show ?thesis by (simp add: news_json_ok_def)
qed

lemma fetch_news_cached:
  assumes "fetch_news from_json now lang file = News_Cached items refresh"
  shows "from_json (old_text file) = Some items"
  using assms by (auto simp: fetch_news_def Let_def old_text_def bind_eq_Some_conv split: if_splits option.splits)

lemma news_step_inv:
  assumes "news_json_ok to_json from_json" and "news_inv to_json s" and "news_step to_json from_json parse_date s t"
  shows "news_inv to_json t"
  using assms(3)
proof cases
  case (Answer_Cached now lang items refresh)
  then have "(lang, items) \<in> produced s"
    using assms(1,2) fetch_news_cached cached_is_produced unfolding news_inv_def by blast
  with Answer_Cached assms(2) show ?thesis by (simp add: news_inv_def)
next
  case (Fetched pre items lang now)
  then show ?thesis
    using assms(2) file_text_ok_mono [of to_json "produced s" _ _ "insert (lang, items) (produced s)"]
    by (auto simp: news_inv_def old_text_def file_text_ok_def [of _ _ _ "[]"])
next
  case (Written lang items now waited_for)
  then have "(lang, items) \<in> produced s" using assms(2) by (auto simp: news_inv_def)
  with Written assms(2) overwrite_ok [OF assms(1)] set_remove1_subset [of "(lang, items)" "writing s"] show ?thesis
    by (auto simp: news_inv_def old_text_def [of "Some _"])
next
  case (Write_Failed lang items)
  then show ?thesis using assms(2) set_remove1_subset [of "(lang, items)" "writing s"] by (auto simp: news_inv_def)
next
  case (Refresh_Over lang)
  then show ?thesis using assms(2) by (simp add: news_inv_def)
qed

text \<open>
  The invariant does not mention the reader of the files; so that it is one of the step relation it
  is stated under what the broker relies on.
\<close>

interpretation news_sys: invariant_system news_init "news_step to_json from_json parse_date"
  "\<lambda>s. news_json_ok to_json from_json \<longrightarrow> news_inv to_json s"
proof
  show "news_json_ok to_json from_json \<longrightarrow> news_inv to_json s" if "news_init s" for s
    using that by (simp add: news_init_def news_inv_def file_text_ok_def old_text_def)
next
  show "news_json_ok to_json from_json \<longrightarrow> news_inv to_json t"
    if "news_json_ok to_json from_json \<longrightarrow> news_inv to_json s" and "news_step to_json from_json parse_date s t" for s t
    using that news_step_inv by blast
qed

text \<open>
  C23: The news that the broker serves are genuine. However requests and refreshes of all languages
  interleave, though nothing keeps two refreshes from writing the same file at once and readers may
  find it empty or with the end of an older text, every answer is the complete result of one refresh
  for the language that was asked for.
\<close>

theorem news_served_genuine:
  assumes "news_json_ok to_json from_json" and "reachable news_init (news_step to_json from_json parse_date) s"
  shows "set (served s) \<subseteq> produced s \<and>
    (\<forall>now lang items refresh. fetch_news from_json now lang (cache_files s lang) = News_Cached items refresh \<longrightarrow>
       (lang, items) \<in> produced s)"
proof -
  have inv: "news_inv to_json s" using news_sys.reachable_inv [OF assms(2)] assms(1) by blast
  then have "set (served s) \<subseteq> produced s" by (simp add: news_inv_def)
  moreover have "(lang, items) \<in> produced s"
    if "fetch_news from_json now lang (cache_files s lang) = News_Cached items refresh" for now lang items refresh
    using inv fetch_news_cached [OF that] cached_is_produced [OF assms(1)] unfolding news_inv_def by blast
  ultimately show ?thesis by blast
qed

subsection \<open>An example of a coding\<close>

text \<open>
  Fields in hexadecimal and decimal with separators between them, in brackets: a coding that has
  what the broker relies on.
\<close>

definition hex_text :: "string \<Rightarrow> string" where
  "hex_text t = hex_encode (map (\<lambda>c. word_of_nat (of_char c)) t)"

definition unhex_text :: "string \<Rightarrow> string option" where
  "unhex_text h = map_option (map (\<lambda>b. char_of (unat b))) (hex_decode h)"

definition enc_item :: "BrokerNewsItem \<Rightarrow> string" where
  "enc_item i = hex_text (bw_title i) @ '','' @ nat_str (unat (bw_date_unix i)) @ '','' @ hex_text (bw_contents i)"

definition dec_item :: "string \<Rightarrow> BrokerNewsItem option" where
  "dec_item s =
     (case split_on CHR '','' s of
        [t, d, c] \<Rightarrow> Option.bind (unhex_text t) (\<lambda>t'. Option.bind (parse_uint 64 d) (\<lambda>d'.
          map_option (\<lambda>c'. \<lparr>bw_title = t', bw_date_unix = word_of_nat d', bw_contents = c'\<rparr>) (unhex_text c)))
      | _ \<Rightarrow> None)"

fun dec_items :: "string list \<Rightarrow> news option" where
  "dec_items [] = None"
| "dec_items [s] = (if s = [] then Some [] else None)"
| "dec_items (s # t # ss) = Option.bind (dec_item s) (\<lambda>i. map_option ((#) i) (dec_items (t # ss)))"

definition tiny_to_json :: "news \<Rightarrow> string" where
  "tiny_to_json items = ''['' @ concat (map (\<lambda>i. enc_item i @ '';'') items) @ '']''"

definition tiny_from_json :: "string \<Rightarrow> news option" where
  "tiny_from_json text =
     (if text = [] \<or> hd text \<noteq> CHR ''['' \<or> length text < 2 \<or> last text \<noteq> CHR '']'' \<or> CHR '']'' \<in> set (butlast (tl text)) then None
      else dec_items (split_on CHR '';'' (butlast (tl text))))"

lemma hex_text_chars: "c \<in> set (hex_text t) \<Longrightarrow> is_digit c \<or> 97 \<le> (of_char c :: nat) \<and> of_char c \<le> (102 :: nat)"
proof -
  have "is_digit (hex_digit n) \<or> 97 \<le> (of_char (hex_digit n) :: nat) \<and> of_char (hex_digit n) \<le> (102 :: nat)" if "n < 16" for n
    using that by (auto simp: hex_digit_def is_digit_def)
  moreover have "unat b div 16 < 16" for b :: byte using unat_byte_less [of b] by (simp add: div_less_iff_less_mult)
  then have "\<exists>n < 16. c = hex_digit n" if "c \<in> set (hex_text t)"
  proof -
    from that obtain b :: byte where "c = hex_digit (unat b div 16) \<or> c = hex_digit (unat b mod 16)"
      by (auto simp: hex_text_def hex_encode_def)
    with \<open>\<And>b :: byte. unat b div 16 < 16\<close> show ?thesis by (metis mod_less_divisor zero_less_numeral)
  qed
  ultimately show "c \<in> set (hex_text t) \<Longrightarrow> is_digit c \<or> 97 \<le> (of_char c :: nat) \<and> of_char c \<le> (102 :: nat)"
    by blast
qed

lemma hex_text_no:
  assumes "c \<in> {CHR '','', CHR '';'', CHR '']''}"
  shows "c \<notin> set (hex_text t)" "c \<notin> set (nat_str n)"
  using assms hex_text_chars [of c t] by (auto simp: is_digit_def)

lemma unhex_text_hex [simp]: "unhex_text (hex_text t) = Some t"
proof -
  have "(of_char c :: nat) < 256" for c by simp
  then have "unat (word_of_nat (of_char c) :: byte) = of_char c" for c by (simp add: unat_of_nat)
  then show ?thesis by (simp add: unhex_text_def hex_text_def comp_def)
qed

lemma dec_enc_item: "dec_item (enc_item i) = Some i"
proof -
  have "unat (bw_date_unix i) < 2 ^ 64" using unsigned_less [of "bw_date_unix i", where ?'a = nat] by simp
  then show ?thesis by (cases i) (simp add: dec_item_def enc_item_def hex_text_no)
qed

lemma enc_item_no: "CHR '';'' \<notin> set (enc_item i) \<and> CHR '']'' \<notin> set (enc_item i)"
  by (simp add: enc_item_def hex_text_no)

lemma dec_items_enc: "dec_items (split_on CHR '';'' (concat (map (\<lambda>i. enc_item i @ '';'') items))) = Some items"
proof (induction items)
  case (Cons i items)
  obtain t ts where "split_on CHR '';'' (concat (map (\<lambda>i. enc_item i @ '';'') items)) = t # ts"
    using Cons by (cases "split_on CHR '';'' (concat (map (\<lambda>i. enc_item i @ '';'') items))") auto
  with Cons show ?case by (simp add: enc_item_no dec_enc_item)
qed simp

lemma tiny_json_ok: "news_json_ok tiny_to_json tiny_from_json"
proof -
  have no: "CHR '']'' \<notin> set (concat (map (\<lambda>i. enc_item i @ '';'') items))" for items by (auto simp: enc_item_no)
  have "tiny_from_json (tiny_to_json items) = Some items" for items
    using no [of items] by (simp add: tiny_from_json_def tiny_to_json_def dec_items_enc butlast_append)
  moreover have "tiny_from_json (tiny_to_json items @ r) = None" if "r \<noteq> []" for items r
    using that by (simp add: tiny_from_json_def tiny_to_json_def butlast_append)
  moreover have "tiny_to_json items \<noteq> []" "last (tiny_to_json items) = CHR '']''" "tiny_from_json [] = None" for items
    by (simp_all add: tiny_to_json_def tiny_from_json_def)
  ultimately show ?thesis unfolding news_json_ok_def by blast
qed

theorem news_served_genuine_witness:
  "\<exists>s. reachable news_init (news_step tiny_to_json tiny_from_json (\<lambda>_. Some 0)) s \<and> produced s = {(''en'', [])} \<and>
     served s = [(''en'', [])] \<and> set (served s) \<subseteq> produced s"
proof -
  let ?step = "news_step tiny_to_json tiny_from_json (\<lambda>_. Some 0)"
  let ?s0 = "\<lparr>cache_files = \<lambda>_. None, bg = None, writing = [], produced = {}, served = []\<rparr>"
  let ?s1 = "?s0\<lparr>cache_files := (\<lambda>_. None)(''en'' \<mapsto> ([], 5)), writing := [(''en'', [])], produced := {(''en'', [])}\<rparr>"
  let ?s2 = "?s1\<lparr>cache_files := (\<lambda>_. None)(''en'' \<mapsto> (''[]'', 6)), writing := [], served := [(''en'', [])]\<rparr>"
  have "reachable news_init ?step ?s0" by (rule reachable_init) (simp add: news_init_def)
  moreover have "?step ?s0 ?s1"
    using news_step.Fetched [of "\<lambda>_. Some 0" "[]" "[]" ?s0 "''en''" tiny_to_json tiny_from_json 5] by (simp add: news_langs_def)
  moreover have "?step ?s1 ?s2"
    using news_step.Written [of "''en''" "[]" ?s1 tiny_to_json tiny_from_json "\<lambda>_. Some 0", where now = 6 and waited_for = True]
    by (simp add: overwrite_def old_text_def tiny_to_json_def)
  ultimately have r: "reachable news_init ?step ?s2" by (blast intro: reachable_step)
  with news_served_genuine [OF tiny_json_ok r] show ?thesis by (intro exI [of _ ?s2]) simp
qed

text \<open>
  One lock for all languages: while the refresh of one language runs, a request for the stale news
  of another starts none, although the comment speaks of the same language.
\<close>

lemma one_refresh_at_a_time:
  assumes "bg s = Some en" and "fetch_news from_json now lang (cache_files s lang) = News_Cached items True"
  shows "news_step to_json from_json parse_date s (s\<lparr>served := (lang, items) # served s\<rparr>)"
  using news_step.Answer_Cached [OF assms(2), of to_json parse_date] assms(1) by (cases s) simp

text \<open>An item with a date that is none aborts the broker.\<close>

lemma convert_news_panics_iff:
  "convert_news parse_date items = None \<longleftrightarrow> list_ex (\<lambda>item. parse_date (pre_date item) = None) items"
  by (induction items) (auto simp: date_to_unix_timestamp_def bind_eq_None_conv)

lemma convert_news_items:
  assumes "convert_news parse_date items = Some ns"
  shows "map bw_title ns = map pre_title items \<and> map bw_contents ns = map pre_contents items"
  using assms by (induction items arbitrary: ns) (auto simp: bind_eq_Some_conv)

section \<open>Availability of bridges\<close>

record AvailabilityData =
  ad_listen :: string
  ad_country :: string
  ad_asn :: string
  ad_success :: bool

record availability_row =
  av_listen :: string
  av_country :: string
  av_asn :: string
  av_successes :: rat
  av_failures :: rat
  av_last_update :: int

definition av_key :: "availability_row \<Rightarrow> string \<times> string \<times> string" where
  "av_key r = (av_listen r, av_country r, av_asn r)"

text \<open>
  \<open>upload_available\<close> in its transaction; \<open>decay\<close> is 2 to the number of hours since the last change of
  the row. The counter of the outcome is divided by it and increased by one, the other one is left
  as it is.
\<close>

definition add_report :: "(int \<Rightarrow> rat) \<Rightarrow> int \<Rightarrow> bool \<Rightarrow> availability_row \<Rightarrow> availability_row" where
  "add_report decay now success r =
     (let decay_factor = decay (now - av_last_update r)
      in if success then r\<lparr>av_successes := av_successes r / decay_factor + 1, av_last_update := now\<rparr>
         else r\<lparr>av_failures := av_failures r / decay_factor + 1, av_last_update := now\<rparr>)"

definition upload_available ::
    "(int \<Rightarrow> rat) \<Rightarrow> int \<Rightarrow> AvailabilityData \<Rightarrow> availability_row list \<Rightarrow> availability_row list" where
  "upload_available decay now d rows =
     (let key = (ad_listen d, ad_country d, ad_asn d)
      in if list_ex (\<lambda>r. av_key r = key) rows
         then map (\<lambda>r. if av_key r = key then add_report decay now (ad_success d) r else r) rows
         else rows @ [\<lparr>av_listen = ad_listen d, av_country = ad_country d, av_asn = ad_asn d,
                       av_successes = (if ad_success d then 1 else 0), av_failures = (if ad_success d then 0 else 1),
                       av_last_update = now\<rparr>])"

fun upload_all :: "(int \<Rightarrow> rat) \<Rightarrow> (int \<times> AvailabilityData) list \<Rightarrow> availability_row list \<Rightarrow> availability_row list" where
  "upload_all decay [] rows = rows"
| "upload_all decay ((now, d) # ds) rows = upload_all decay ds (upload_available decay now d rows)"

definition counts_ok :: "nat \<Rightarrow> availability_row \<Rightarrow> bool" where
  "counts_ok n r \<longleftrightarrow>
     0 \<le> av_successes r \<and> av_successes r \<le> of_nat n \<and> 0 \<le> av_failures r \<and> av_failures r \<le> of_nat n"

definition availability_ok :: "nat \<Rightarrow> availability_row list \<Rightarrow> bool" where
  "availability_ok n rows \<longleftrightarrow> distinct (map av_key rows) \<and> list_all (counts_ok n) rows"

lemma av_key_report [simp]: "av_key (add_report decay now s r) = av_key r"
  by (simp add: add_report_def av_key_def Let_def)

lemma shrink_bound: "1 \<le> c \<Longrightarrow> 0 \<le> a \<Longrightarrow> a \<le> m \<Longrightarrow> 0 \<le> a / c + 1 \<and> a / c + 1 \<le> 1 + (m :: rat)"
proof -
  assume c: "1 \<le> c" "0 \<le> a" "a \<le> m"
  then have "a * 1 \<le> a * c" by (intro mult_left_mono) simp_all
  with c have "a / c \<le> a" by (simp add: divide_le_eq)
  with c show ?thesis by simp
qed

lemma counts_ok_step:
  assumes "\<And>d. 1 \<le> decay d" and "counts_ok n r"
  shows "counts_ok (Suc n) r" and "counts_ok (Suc n) (add_report decay now s r)"
proof -
  show "counts_ok (Suc n) r" using assms(2) by (simp add: counts_ok_def)
  show "counts_ok (Suc n) (add_report decay now s r)"
    using assms(2) shrink_bound [OF assms(1) [of "now - av_last_update r"], of "av_successes r" "of_nat n"]
      shrink_bound [OF assms(1) [of "now - av_last_update r"], of "av_failures r" "of_nat n"]
    by (cases s) (simp_all add: counts_ok_def add_report_def Let_def)
qed

lemma upload_available_ok:
  assumes "\<And>d. 1 \<le> decay d" and "availability_ok n rows"
  shows "availability_ok (Suc n) (upload_available decay now d rows)"
proof -
  let ?key = "(ad_listen d, ad_country d, ad_asn d)"
  let ?f = "\<lambda>r. if av_key r = ?key then add_report decay now (ad_success d) r else r"
  have "map av_key (map ?f rows) = map av_key rows" by auto
  then have dist: "distinct (map av_key (map ?f rows))" using assms(2) unfolding availability_ok_def by metis
  have old: "list_all (counts_ok (Suc n)) rows" "list_all (counts_ok (Suc n)) (map ?f rows)"
    using assms(2) counts_ok_step [OF assms(1)] by (auto simp: availability_ok_def list_all_iff)
  show ?thesis
  proof (cases "list_ex (\<lambda>r. av_key r = ?key) rows")
    case True
    then have "upload_available decay now d rows = map ?f rows" by (simp add: upload_available_def)
    with dist old(2) show ?thesis unfolding availability_ok_def by metis
  next
    case False
    then have new: "?key \<notin> av_key ` set rows" by (auto simp: list_ex_iff)
    let ?row = "\<lparr>av_listen = ad_listen d, av_country = ad_country d, av_asn = ad_asn d,
        av_successes = (if ad_success d then 1 else 0), av_failures = (if ad_success d then 0 else 1), av_last_update = now\<rparr>"
    have "upload_available decay now d rows = rows @ [?row]" using False by (simp add: upload_available_def)
    moreover have "av_key ?row = ?key" "counts_ok (Suc n) ?row" by (simp_all add: av_key_def counts_ok_def)
    ultimately show ?thesis
      using assms(2) old(1) new by (simp add: availability_ok_def del: of_nat_Suc)
  qed
qed

text \<open>
  The reports about a bridge from one network share one row, and no counter goes below zero or
  above the number of reports, as long as the clock does not go back.
\<close>

lemma availability_bounded:
  assumes "\<And>d. 1 \<le> decay d"
  shows "availability_ok (length ds) (upload_all decay ds [])"
proof -
  have "availability_ok n rows \<Longrightarrow> availability_ok (n + length ds) (upload_all decay ds rows)" for n rows
  proof (induction ds arbitrary: n rows)
    case (Cons x ds)
    obtain now d where "x = (now, d)" by force
    with Cons.IH [OF upload_available_ok [OF assms Cons.prems, where now = now and d = d]] show ?case by simp
  qed simp
  from this [of 0 "[]"] show ?thesis by (simp add: availability_ok_def)
qed

text \<open>
  The decay that is meant is lost when the outcomes alternate: a report of the other kind moves the
  time of the last change forward, so that a success is as recent after it as before.
\<close>

lemma other_reports_stop_decay:
  assumes "decay 0 = 1"
  shows "av_successes (add_report decay t2 True (add_report decay t2 False (add_report decay t1 True r))) =
    av_successes (add_report decay t1 True r) + 1"
  using assms by (simp add: add_report_def Let_def)

section \<open>Statistics\<close>

text \<open>
  \<open>incr_stat\<close> and \<open>set_stat\<close> send a metric when a StatsD server is configured; an error of the send is
  unwrapped, None is that panic.
\<close>

definition incr_stat :: "(string \<Rightarrow> int \<Rightarrow> io_error + unit) option \<Rightarrow> string \<Rightarrow> int \<Rightarrow> unit option" where
  "incr_stat client stat val =
     (case client of None \<Rightarrow> Some () | Some count_fn \<Rightarrow> (case count_fn stat val of Inl _ \<Rightarrow> None | Inr _ \<Rightarrow> Some ()))"

definition set_stat :: "(string \<Rightarrow> rat \<Rightarrow> io_error + unit) option \<Rightarrow> string \<Rightarrow> rat \<Rightarrow> unit option" where
  "set_stat client stat val =
     (case client of None \<Rightarrow> Some () | Some gauge_fn \<Rightarrow> (case gauge_fn stat val of Inl _ \<Rightarrow> None | Inr _ \<Rightarrow> Some ()))"

text \<open>What the broker publishes about its tables; times are in seconds.\<close>

definition pool_counts :: "broker \<Rightarrow> (string \<times> nat) list" where
  "pool_counts st =
     map (\<lambda>p. (p, length (filter (\<lambda>r. bn_pool r = p) (bridges_new st)))) (remdups (map bn_pool (bridges_new st)))"

definition logins_within :: "nat \<Rightarrow> nat \<Rightarrow> broker \<Rightarrow> int list" where
  "logins_within now window st =
     filter (\<lambda>u. case last_login st u of None \<Rightarrow> False | Some t \<Rightarrow> now < t + window) (users st)"

definition daily_logins :: "nat \<Rightarrow> broker \<Rightarrow> nat" where
  "daily_logins now st = length (logins_within now 86400 st)"

definition weekly_logins :: "nat \<Rightarrow> broker \<Rightarrow> nat" where
  "weekly_logins now st = length (logins_within now 604800 st)"

definition daily_logins_new :: "nat \<Rightarrow> broker \<Rightarrow> nat" where
  "daily_logins_new now st = length (filter (\<lambda>(i, _). i \<in> set (logins_within now 86400 st)) (auth_secret st))"

definition plus_count :: "broker \<Rightarrow> nat" where
  "plus_count st = length (subscriptions st)"

text \<open>The counts per pool add up to the bridges, and who logged in today did so this week.\<close>

lemma sum_of_groups:
  "finite S \<Longrightarrow> f ` set xs \<subseteq> S \<Longrightarrow> (\<Sum>p \<in> S. length (filter (\<lambda>r. f r = p) xs)) = length xs"
proof (induction xs)
  case (Cons x xs)
  have "(\<Sum>p \<in> S. length (filter (\<lambda>r. f r = p) (x # xs))) =
      (\<Sum>p \<in> S. (if f x = p then 1 else 0) + length (filter (\<lambda>r. f r = p) xs))"
    by (intro sum.cong) simp_all
  also have "\<dots> = 1 + length xs"
    using Cons by (simp add: sum.distrib sum.delta)
  finally show ?case by simp
qed simp

lemma pool_counts_total: "sum_list (map snd (pool_counts st)) = length (bridges_new st)"
  using sum_of_groups [of "bn_pool ` set (bridges_new st)" bn_pool "bridges_new st"]
  by (simp add: pool_counts_def comp_def sum_list_distinct_conv_sum_set)

lemma daily_le_weekly: "daily_logins now st \<le> weekly_logins now st"
proof -
  have "length (filter P xs) \<le> length (filter Q xs)" if "\<And>x. P x \<Longrightarrow> Q x" for P Q and xs :: "int list"
    using that by (induction xs) (auto simp: le_SucI)
  then show ?thesis
    by (simp add: daily_logins_def weekly_logins_def logins_within_def split: option.splits)
qed

end
