(* ===== verification/Http_Proxy.thy ===== *)
theory Http_Proxy
  imports Exit_Policy
begin

text \<open>
  The HTTP proxy of the client (binaries/geph5-client/src/http_proxy): the target of a request
  from its URI or its Host header (address.rs, mod.rs), whether a connection stays open, the
  removal of hop-by-hop headers, and the dispatch of a request. The HTTP server and client and
  the parser of authorities are libraries: requests arrive parsed, and the answer of the relayed
  request is an argument. The parsers and printers of addresses of std::net are the fields of
  \<open>addr_syntax\<close>.
\<close>

section \<open>Targets\<close>

datatype Address = SocketAddress SocketAddr | DomainNameAddress string u16

record addr_syntax =
  parse_sock :: "string \<Rightarrow> SocketAddr option"
  parse_ip :: "string \<Rightarrow> IpAddr option"
  parse_v4 :: "string \<Rightarrow> u32 option"
  parse_v6 :: "string \<Rightarrow> u128 option"
  show_sock :: "SocketAddr \<Rightarrow> string"

record Authority =
  auth_str :: string
  auth_host :: string
  auth_port :: "u16 option"

record Uri =
  scheme :: "string option"
  authority :: "Authority option"
  path_and_query :: string

definition address_text :: "addr_syntax \<Rightarrow> Address \<Rightarrow> string" where
  "address_text sx a =
     (case a of
        SocketAddress addr \<Rightarrow> show_sock sx addr
      | DomainNameAddress addr port \<Rightarrow> addr @ '':'' @ nat_str (unat port))"

definition default_port :: "string option \<Rightarrow> u16 option" where
  "default_port sch =
     (case sch of
        None \<Rightarrow> Some 80
      | Some s \<Rightarrow> if s = ''http'' then Some 80 else if s = ''https'' then Some 443 else None)"

definition bracketed :: "string \<Rightarrow> bool" where
  "bracketed s \<longleftrightarrow> s \<noteq> [] \<and> hd s = CHR ''['' \<and> last s = CHR '']''"

definition trim_brackets :: "string \<Rightarrow> string" where
  "trim_brackets s =
     rev (dropWhile (\<lambda>c. c = CHR '']'') (rev (dropWhile (\<lambda>c. c = CHR ''['') s)))"

definition host_addr :: "addr_syntax \<Rightarrow> Uri \<Rightarrow> Address option" where
  "host_addr sx uri =
     (case authority uri of
        None \<Rightarrow> None
      | Some a \<Rightarrow>
        (case auth_port a of
           Some port \<Rightarrow>
             (case parse_sock sx (auth_str a) of
                Some saddr \<Rightarrow> Some (SocketAddress saddr)
              | None \<Rightarrow> Some (DomainNameAddress (auth_host a) port))
         | None \<Rightarrow>
             Option.bind (default_port (scheme uri)) (\<lambda>port.
               if bracketed (auth_str a) then
                 map_option (\<lambda>ip. SocketAddress \<lparr>sa_ip = ip, sa_port = port\<rparr>)
                   (parse_ip sx (trim_brackets (auth_str a)))
               else
                 (case parse_ip sx (auth_str a) of
                    Some ip \<Rightarrow> Some (SocketAddress \<lparr>sa_ip = ip, sa_port = port\<rparr>)
                  | None \<Rightarrow> Some (DomainNameAddress (auth_str a) port)))))"

text \<open>The target named by a Host header. \<open>&host_str[1..len - 1]\<close> panics on a lone bracket: None.\<close>

definition authority_addr :: "addr_syntax \<Rightarrow> string option \<Rightarrow> Authority \<Rightarrow> Address option option" where
  "authority_addr sx sch a =
     (case (case auth_port a of Some p \<Rightarrow> Some p | None \<Rightarrow> default_port sch) of
        None \<Rightarrow> Some None
      | Some port \<Rightarrow>
        (let host = auth_host a
         in if bracketed host then
              (if length host < 2 then None
               else Some (map_option (\<lambda>v6. SocketAddress \<lparr>sa_ip = V6 v6, sa_port = port\<rparr>)
                      (parse_v6 sx (butlast (tl host)))))
            else
              (case parse_v4 sx host of
                 Some v4 \<Rightarrow> Some (Some (SocketAddress \<lparr>sa_ip = V4 v4, sa_port = port\<rparr>))
               | None \<Rightarrow> Some (Some (DomainNameAddress host port)))))"

text \<open>A string that is bracketed has both brackets, so the slice does not panic.\<close>

lemma bracketed_length: "bracketed s \<Longrightarrow> 2 \<le> length s"
  by (cases s; cases "tl s") (auto simp: bracketed_def)

lemma authority_addr_total: "authority_addr sx sch a \<noteq> None"
  using bracketed_length [of "auth_host a"]
  by (auto simp: authority_addr_def Let_def split: option.splits)

section \<open>Headers\<close>

text \<open>
  A header map keeps names in lower case, as \<open>http\<close> does, and the values of each name in order.
  \<open>to_str\<close> fails on values that are not visible ASCII.
\<close>

type_synonym headers = "(string \<times> string) list"

definition ascii_lower :: "string \<Rightarrow> string" where
  "ascii_lower s = map (\<lambda>c. if 65 \<le> (of_char c :: nat) \<and> of_char c \<le> (90 :: nat) then char_of (of_char c + 32 :: nat) else c) s"

definition hdr_get_all :: "string \<Rightarrow> headers \<Rightarrow> string list" where
  "hdr_get_all name hs = map snd (filter (\<lambda>h. fst h = ascii_lower name) hs)"

definition hdr_remove :: "string \<Rightarrow> headers \<Rightarrow> headers" where
  "hdr_remove name hs = filter (\<lambda>h. fst h \<noteq> ascii_lower name) hs"

definition hdr_insert :: "string \<Rightarrow> string \<Rightarrow> headers \<Rightarrow> headers" where
  "hdr_insert name v hs = hdr_remove name hs @ [(ascii_lower name, v)]"

definition to_str :: "string \<Rightarrow> string option" where
  "to_str v =
     (if list_all (\<lambda>c. 32 \<le> (of_char c :: nat) \<and> of_char c < (127 :: nat) \<or> c = CHR 0x09) v then Some v else None)"

definition trim :: "string \<Rightarrow> string" where
  "trim s = (let sp = (\<lambda>c. c = CHR '' '' \<or> c = CHR 0x09) in rev (dropWhile sp (rev (dropWhile sp s))))"

definition eq_ignore_ascii_case :: "string \<Rightarrow> string \<Rightarrow> bool" where
  "eq_ignore_ascii_case a b \<longleftrightarrow> ascii_lower a = ascii_lower b"

datatype Version = HTTP_09 | HTTP_10 | HTTP_11 | HTTP_2 | HTTP_3

definition keep_alive_value :: "bool \<Rightarrow> string \<Rightarrow> bool" where
  "keep_alive_value ka v =
     (case to_str v of
        None \<Rightarrow> ka
      | Some s \<Rightarrow>
          if eq_ignore_ascii_case s ''close'' then False
          else if list_ex (\<lambda>part. eq_ignore_ascii_case (trim part) ''keep-alive'') (split_on CHR '','' s) then True
          else ka)"

text \<open>\<open>unimplemented!\<close> for other versions is a panic: None.\<close>

definition check_keep_alive :: "Version \<Rightarrow> headers \<Rightarrow> bool \<Rightarrow> bool option" where
  "check_keep_alive version hs check_proxy =
     map_option (\<lambda>ka0.
         let ka1 = (if check_proxy then foldl keep_alive_value ka0 (hdr_get_all ''Proxy-Connection'' hs) else ka0)
         in foldl keep_alive_value ka1 (hdr_get_all ''Connection'' hs))
       (case version of HTTP_10 \<Rightarrow> Some False | HTTP_11 \<Rightarrow> Some True | _ \<Rightarrow> None)"

definition named_headers :: "string list \<Rightarrow> string list" where
  "named_headers vs =
     concat (map (\<lambda>v. case to_str v of
         None \<Rightarrow> []
       | Some s \<Rightarrow>
           if eq_ignore_ascii_case s ''close'' then []
           else filter (\<lambda>h. \<not> eq_ignore_ascii_case h ''keep-alive'') (map trim (split_on CHR '','' s))) vs)"

definition HOP_BY_HOP_HEADERS :: "string list" where
  "HOP_BY_HOP_HEADERS =
     [''Keep-Alive'', ''Transfer-Encoding'', ''TE'', ''Connection'', ''Trailer'', ''Upgrade'',
      ''Proxy-Authorization'', ''Proxy-Authenticate'', ''Proxy-Connection'']"

definition clear_hop_headers :: "headers \<Rightarrow> headers" where
  "clear_hop_headers hs =
     (let extra_headers = named_headers (hdr_get_all ''Connection'' hs) @ named_headers (hdr_get_all ''Proxy-Connection'' hs)
      in fold hdr_remove HOP_BY_HOP_HEADERS (fold hdr_remove extra_headers hs))"

definition set_conn_keep_alive :: "Version \<Rightarrow> headers \<Rightarrow> bool \<Rightarrow> headers option" where
  "set_conn_keep_alive version hs keep_alive =
     (case version of
        HTTP_10 \<Rightarrow> Some (if keep_alive then hdr_insert ''Connection'' ''keep-alive'' hs else hs)
      | HTTP_11 \<Rightarrow> Some (if \<not> keep_alive then hdr_insert ''Connection'' ''close'' hs else hs)
      | _ \<Rightarrow> None)"

section \<open>Dispatch\<close>

record request =
  req_method :: string
  req_version :: Version
  req_uri :: Uri
  req_headers :: headers
  req_body :: "string + bytes"

record response =
  status :: nat
  res_version :: Version
  res_headers :: headers
  res_body :: bytes

datatype dispatched =
    Answer response
  | Tunnel Address
  | Relayed request response

definition make_bad_request :: response where
  "make_bad_request = \<lparr>status = 400, res_version = HTTP_11, res_headers = [], res_body = []\<rparr>"

text \<open>
  The host of a request with the URI that is sent on: from the URI, or, for a URI without
  authority, from the Host header. \<open>Some None\<close> is a bad request.
\<close>

definition request_host ::
    "addr_syntax \<Rightarrow> (string \<Rightarrow> Authority option) \<Rightarrow> request \<Rightarrow> (Address \<times> Uri) option option" where
  "request_host sx parse_authority req =
     (let uri = req_uri req
      in case host_addr sx uri of
           Some h \<Rightarrow> Some (Some (h, uri))
         | None \<Rightarrow>
           if authority uri \<noteq> None then Some None
           else (case hdr_get_all ''Host'' (req_headers req) of
                   [] \<Rightarrow> Some None
                 | hhost # _ \<Rightarrow>
                   (case Option.bind (to_str hhost) parse_authority of
                      None \<Rightarrow> Some None
                    | Some a \<Rightarrow>
                        map_option (map_option (\<lambda>host.
                            (host, uri\<lparr>scheme := Some (case scheme uri of None \<Rightarrow> ''http'' | Some s \<Rightarrow> s),
                                       authority := Some a\<rparr>)))
                          (authority_addr sx (scheme uri) a))))"

text \<open>
  \<open>send\<close> is the HTTP client that relays a request: it answers, or fails. A panic is None.
\<close>

definition relay_request ::
    "addr_syntax \<Rightarrow> (request \<Rightarrow> string + response) \<Rightarrow> Address \<Rightarrow> request \<Rightarrow> dispatched option" where
  "relay_request sx send host req =
     Option.bind (check_keep_alive (req_version req) (req_headers req) True) (\<lambda>conn_keep_alive.
     Option.bind (set_conn_keep_alive (req_version req) (clear_hop_headers (req_headers req)) conn_keep_alive) (\<lambda>hs.
       let req' = req\<lparr>req_headers := hs\<rparr>
       in case req_body req' of
            Inl _ \<Rightarrow> Some (Answer make_bad_request)
          | Inr _ \<Rightarrow>
            (case send req' of
               Inl err \<Rightarrow>
                 Some (Answer \<lparr>status = 500, res_version = HTTP_11, res_headers = [],
                   res_body = map (\<lambda>c. word_of_nat (of_char c)) (''Relay failed to '' @ address_text sx host)\<rparr>)
             | Inr res \<Rightarrow>
                 Option.bind (check_keep_alive (res_version res) (res_headers res) False) (\<lambda>res_ka.
                 Option.bind (set_conn_keep_alive (res_version res) (clear_hop_headers (res_headers res))
                     (conn_keep_alive \<and> res_ka)) (\<lambda>hs'.
                   Some (Relayed req' (res\<lparr>res_headers := hs'\<rparr>)))))))"

definition server_dispatch ::
    "addr_syntax \<Rightarrow> (string \<Rightarrow> Authority option) \<Rightarrow> (request \<Rightarrow> string + response) \<Rightarrow> request \<Rightarrow> dispatched option" where
  "server_dispatch sx parse_authority send req =
     Option.bind (request_host sx parse_authority req) (\<lambda>r.
       case r of
         None \<Rightarrow> Some (Answer make_bad_request)
       | Some (host, uri) \<Rightarrow>
           if req_method req = ''CONNECT'' then Some (Tunnel host)
           else relay_request sx send host (req\<lparr>req_uri := uri\<rparr>))"

text \<open>What the connection to a relayed request's server is opened to (http_client.rs).\<close>

definition connector_call :: "addr_syntax \<Rightarrow> Uri \<Rightarrow> io_error + string" where
  "connector_call sx dst =
     (case host_addr sx dst of
        None \<Rightarrow> Inl (IoError OtherKind ''URI must be a valid Address'')
      | Some addr \<Rightarrow> Inr (address_text sx addr))"

section \<open>What is sent on\<close>

definition hop_names :: "headers \<Rightarrow> string set" where
  "hop_names hs = ascii_lower ` set (HOP_BY_HOP_HEADERS @ named_headers (hdr_get_all ''Connection'' hs) @
     named_headers (hdr_get_all ''Proxy-Connection'' hs))"

definition end_to_end :: "headers \<Rightarrow> headers" where
  "end_to_end hs = filter (\<lambda>h. fst h \<notin> hop_names hs) hs"

definition connection_header :: "Version \<Rightarrow> bool \<Rightarrow> headers" where
  "connection_header version keep_alive =
     (if version = HTTP_10 \<and> keep_alive then [(''connection'', ''keep-alive'')]
      else if version = HTTP_11 \<and> \<not> keep_alive then [(''connection'', ''close'')] else [])"

lemma fold_hdr_remove: "fold hdr_remove names hs = filter (\<lambda>h. fst h \<notin> ascii_lower ` set names) hs"
  by (induction names arbitrary: hs) (auto simp: hdr_remove_def intro: filter_cong)

lemma clear_hop_headers_eq: "clear_hop_headers hs = end_to_end hs"
  by (auto simp: clear_hop_headers_def Let_def fold_hdr_remove end_to_end_def hop_names_def
      simp del: fold_simps intro!: filter_cong)

lemma lower_connection: "ascii_lower ''Connection'' = ''connection''"
  by code_simp

lemma no_connection_left: "hdr_remove ''Connection'' (end_to_end hs) = end_to_end hs"
proof -
  have "ascii_lower ''Connection'' \<in> hop_names hs"
    by (simp add: hop_names_def HOP_BY_HOP_HEADERS_def)
  then show ?thesis by (auto simp: hdr_remove_def end_to_end_def intro!: filter_cong)
qed

lemma set_conn_keep_alive_eq:
  "set_conn_keep_alive version (clear_hop_headers hs) ka = Some hs' \<Longrightarrow>
     hs' = end_to_end hs @ connection_header version ka"
  by (auto simp: set_conn_keep_alive_def clear_hop_headers_eq hdr_insert_def no_connection_left
      connection_header_def lower_connection split: Version.splits)


subsection \<open>The target of a relayed request\<close>

text \<open>
  The dispatcher finds the target of a request with a Host header with \<open>authority_addr\<close>, the
  connector with \<open>host_addr\<close> on the URI that was put together. What the two rely on of the parsers
  of std::net: an address is a v4 or a v6 address, a v6 address has no brackets, a socket address is
  an address, bracketed if v6, with a port.
\<close>

definition syntax_ok :: "addr_syntax \<Rightarrow> bool" where
  "syntax_ok sx \<longleftrightarrow>
     (\<forall>s. parse_ip sx s = (case parse_v4 sx s of Some a \<Rightarrow> Some (V4 a) | None \<Rightarrow> map_option V6 (parse_v6 sx s))) \<and>
     (\<forall>s a. parse_v6 sx s = Some a \<longrightarrow> CHR ''['' \<notin> set s \<and> CHR '']'' \<notin> set s \<and> s \<noteq> []) \<and>
     (\<forall>s a. parse_v6 sx s = Some a \<longrightarrow> parse_v4 sx s = None) \<and>
     (\<forall>h p. parse_sock sx (h @ '':'' @ nat_str (unat p)) =
        (if bracketed h then map_option (\<lambda>a. \<lparr>sa_ip = V6 a, sa_port = p\<rparr>) (parse_v6 sx (butlast (tl h)))
         else map_option (\<lambda>a. \<lparr>sa_ip = V4 a, sa_port = p\<rparr>) (parse_v4 sx h)))"

text \<open>An authority without user information, whose host is not a bare v6 address.\<close>

definition plain_authority :: "addr_syntax \<Rightarrow> Authority \<Rightarrow> bool" where
  "plain_authority sx a \<longleftrightarrow>
     auth_str a = auth_host a @ (case auth_port a of None \<Rightarrow> [] | Some p \<Rightarrow> '':'' @ nat_str (unat p)) \<and>
     parse_v6 sx (auth_host a) = None"

lemma trim_brackets_inner:
  assumes "bracketed s" and "CHR ''['' \<notin> set (butlast (tl s))" and "CHR '']'' \<notin> set (butlast (tl s))"
    and "butlast (tl s) \<noteq> []"
  shows "trim_brackets s = butlast (tl s)"
proof -
  obtain t where s: "s = CHR ''['' # t @ '']''"
    using assms(1) by (cases s; cases "tl s" rule: rev_cases) (auto simp: bracketed_def)
  then have "dropWhile (\<lambda>c. c = CHR ''['') s = t @ '']''"
    using assms(2,4) by (cases t) auto
  moreover have "dropWhile (\<lambda>c. c = CHR '']'') (rev t) = rev t"
    using assms(3,4) s by (cases "rev t") (auto simp: dropWhile_eq_self_iff)
  ultimately show ?thesis by (simp add: trim_brackets_def s)
qed

text \<open>
  For a request whose target comes from a plain Host header, the address that the dispatcher
  resolved is the address that the connection of the relayed request is opened to, although the
  two are computed by different functions from different inputs.
\<close>

theorem host_header_target:
  assumes "syntax_ok sx" and "host_addr sx (req_uri req) = None"
    and "request_host sx parse_authority req = Some (Some (host, uri))"
    and "list_all (\<lambda>v. case parse_authority v of None \<Rightarrow> True | Some a \<Rightarrow> plain_authority sx a)
      (hdr_get_all ''Host'' (req_headers req))"
  shows "connector_call sx uri = Inr (address_text sx host)"
proof -
  obtain v vs a where v: "hdr_get_all ''Host'' (req_headers req) = v # vs" "to_str v = Some v" "parse_authority v = Some a"
      and h: "authority_addr sx (scheme (req_uri req)) a = Some (Some host)"
      and u: "authority uri = Some a" "default_port (scheme uri) = default_port (scheme (req_uri req))"
    using assms(2,3)
    by (auto simp: request_host_def Let_def bind_eq_Some_conv to_str_def default_port_def
        split: option.splits list.splits if_splits)
  then have plain: "plain_authority sx a" using assms(4) by simp
  have ip: "parse_ip sx s = (case parse_v4 sx s of Some a \<Rightarrow> Some (V4 a) | None \<Rightarrow> map_option V6 (parse_v6 sx s))" for s
    using assms(1) by (simp add: syntax_ok_def)
  have "host_addr sx uri = Some host"
  proof (cases "auth_port a")
    case (Some p)
    then show ?thesis
      using h u plain assms(1) bracketed_length [of "auth_host a"]
      by (auto simp: host_addr_def authority_addr_def plain_authority_def syntax_ok_def Let_def
          split: if_splits option.splits)
  next
    case None
    show ?thesis
    proof (cases "bracketed (auth_host a)")
      case True
      then obtain port b where pb: "default_port (scheme uri) = Some port"
          "parse_v6 sx (butlast (tl (auth_host a))) = Some b" "host = SocketAddress \<lparr>sa_ip = V6 b, sa_port = port\<rparr>"
        using h u None bracketed_length [OF True]
        by (auto simp: authority_addr_def Let_def split: option.splits if_splits)
      then have "trim_brackets (auth_host a) = butlast (tl (auth_host a))"
        using assms(1) True by (intro trim_brackets_inner) (auto simp: syntax_ok_def)
      moreover have "parse_v4 sx (butlast (tl (auth_host a))) = None"
        using assms(1) pb(2) by (auto simp: syntax_ok_def)
      ultimately show ?thesis
        using u(1) None plain pb True by (simp add: host_addr_def plain_authority_def ip)
    next
      case False
      then show ?thesis
        using h u None plain
        by (auto simp: host_addr_def authority_addr_def plain_authority_def ip Let_def split: option.splits)
    qed
  qed
  then show ?thesis by (simp add: connector_call_def)
qed

text \<open>A small syntax with one v4 address, and a request for it by Host header.\<close>

definition tiny_v4 :: "string \<Rightarrow> u32 option" where
  "tiny_v4 s = (if s = ''1.2.3.4'' then Some 0x01020304 else None)"

definition tiny_syntax :: addr_syntax where
  "tiny_syntax =
     \<lparr>parse_sock = (\<lambda>s. Option.bind (rsplit_once CHR '':'' s) (\<lambda>(h, p). Option.bind (parse_u16 p) (\<lambda>port.
        map_option (\<lambda>a. \<lparr>sa_ip = V4 a, sa_port = port\<rparr>) (tiny_v4 h)))),
      parse_ip = (\<lambda>s. map_option V4 (tiny_v4 s)), parse_v4 = tiny_v4, parse_v6 = (\<lambda>_. None),
      show_sock = (\<lambda>a. ''1.2.3.4:'' @ nat_str (unat (sa_port a)))\<rparr>"

definition tiny_request :: request where
  "tiny_request =
     \<lparr>req_method = ''GET'', req_version = HTTP_11,
      req_uri = \<lparr>scheme = None, authority = None, path_and_query = ''/''\<rparr>,
      req_headers = [(''host'', ''1.2.3.4''), (''connection'', ''x-a, Keep-Alive''), (''x-a'', ''1''), (''x-b'', ''2''), (''te'', ''3'')],
      req_body = Inr []\<rparr>"

definition tiny_authority :: "string \<Rightarrow> Authority option" where
  "tiny_authority s = Some \<lparr>auth_str = s, auth_host = s, auth_port = None\<rparr>"

definition tiny_response :: response where
  "tiny_response = \<lparr>status = 200, res_version = HTTP_11, res_headers = [(''upgrade'', ''h2c''), (''x-c'', ''4'')], res_body = []\<rparr>"

lemma tiny_syntax_ok: "syntax_ok tiny_syntax"
proof -
  have "parse_u16 (nat_str (unat p)) = Some p" for p :: u16
  proof -
    have "unat p < 2 ^ 16" using unsigned_less [of p, where ?'a = nat] by simp
    then show ?thesis by (simp add: parse_u16_def)
  qed
  then show ?thesis
    by (simp add: syntax_ok_def tiny_syntax_def rsplit_once_last is_digit_def tiny_v4_def bracketed_def)
qed

lemma tiny_host_header: "hdr_get_all ''Host'' (req_headers tiny_request) = [''1.2.3.4'']"
  by code_simp

lemma tiny_host:
  "request_host tiny_syntax tiny_authority tiny_request = Some (Some (SocketAddress \<lparr>sa_ip = V4 0x01020304, sa_port = 80\<rparr>,
     \<lparr>scheme = Some ''http'', authority = Some \<lparr>auth_str = ''1.2.3.4'', auth_host = ''1.2.3.4'', auth_port = None\<rparr>, path_and_query = ''/''\<rparr>))"
proof -
  have t: "to_str ''1.2.3.4'' = Some ''1.2.3.4''" by code_simp
  show ?thesis
    by (simp only: request_host_def tiny_host_header t list.case bind.simps)
       (simp add: host_addr_def authority_addr_def tiny_request_def tiny_authority_def default_port_def
        bracketed_def tiny_syntax_def tiny_v4_def)
qed

theorem host_header_target_witness:
  "connector_call tiny_syntax
     \<lparr>scheme = Some ''http'', authority = Some \<lparr>auth_str = ''1.2.3.4'', auth_host = ''1.2.3.4'', auth_port = None\<rparr>, path_and_query = ''/''\<rparr>
   = Inr (''1.2.3.4:'' @ nat_str 80)"
  using host_header_target [OF tiny_syntax_ok _ tiny_host] tiny_host_header
  by (simp add: address_text_def tiny_authority_def plain_authority_def)
     (simp add: host_addr_def tiny_request_def tiny_syntax_def)


end
