(* ===== verification/Client_Conn.thy ===== *)
theory Client_Conn
  imports Http_Proxy Complex_Main "HOL-Library.Multiset"
begin

text \<open>
  Connections of the client (binaries/geph5-client/src): the DNS server that answers with fake
  addresses (spoof_dns.rs), the choice between a tunnel and a direct connection (\<open>open_conn\<close> in
  client_inner.rs, china/mod.rs), the targets of the SOCKS5 proxy (socks5.rs), the queue that hands
  connection requests to the sessions (\<open>proxy_loop\<close>), and the traffic statistics (traffcount.rs,
  stats.rs, taskpool.rs). The public suffix list, the lists of Chinese domains and networks, name
  resolution and the DNS packet format are parameters; random numbers are arguments.
\<close>

section \<open>Fake addresses\<close>

record fake_dns =
  forward_map :: "string \<rightharpoonup> u32"
  backward_map :: "u32 \<rightharpoonup> string"

definition fake_dns_backtranslate :: "fake_dns \<Rightarrow> u32 \<Rightarrow> string option" where
  "fake_dns_backtranslate ctx fake = backward_map ctx fake"

text \<open>\<open>gen_range(0..=!mask)\<close>, from a random number, in the block 240.0.0.0/4.\<close>

definition fake_ip :: "nat \<Rightarrow> u32" where
  "fake_ip r =
     (let base = 0xF0000000; mk = 0xF0000000; offset = word_of_nat (r mod (unat (NOT mk :: u32) + 1))
      in base OR offset)"

definition fake_dns_allocate :: "nat \<Rightarrow> string \<Rightarrow> fake_dns \<Rightarrow> u32 \<times> fake_dns" where
  "fake_dns_allocate r dns_name ctx =
     (case forward_map ctx dns_name of
        Some ip \<Rightarrow> (ip, ctx)
      | None \<Rightarrow>
          (fake_ip r, ctx\<lparr>backward_map := (backward_map ctx)(fake_ip r \<mapsto> dns_name),
                          forward_map := (forward_map ctx)(dns_name \<mapsto> fake_ip r)\<rparr>))"

text \<open>
  The answers to the questions of a packet, each with its name and whether it asks for an A
  record; \<open>draws\<close> has a random number for each question.
\<close>

fun fake_dns_respond :: "(nat \<times> string \<times> bool) list \<Rightarrow> fake_dns \<Rightarrow> (string \<times> u32) list \<times> fake_dns" where
  "fake_dns_respond [] ctx = ([], ctx)"
| "fake_dns_respond ((r, qname, is_a) # qs) ctx =
     (if is_a then
        (let (ip, ctx1) = fake_dns_allocate r qname ctx; (as, ctx2) = fake_dns_respond qs ctx1
         in ((qname, ip) # as, ctx2))
      else fake_dns_respond qs ctx)"

section \<open>Direct or tunnelled\<close>

record conn_env =
  addr_sx :: addr_syntax
  passthrough_china :: bool
  china_domains :: "string list"
  china_nets :: "(u32 \<times> nat) list"
  psl_domain :: "string \<Rightarrow> string option"
  psl_suffix_known :: "string \<Rightarrow> bool option"
  resolve :: "string \<Rightarrow> string + SocketAddr list"
  vpn_on :: bool

text \<open>The suffixes \<open>exploded[i..].join(".")\<close> of a dotted name.\<close>

fun join_dots :: "string list \<Rightarrow> string" where
  "join_dots [] = []"
| "join_dots [x] = x"
| "join_dots (x # y # ys) = x @ ''.'' @ join_dots (y # ys)"

fun dotted_suffixes :: "string list \<Rightarrow> string list" where
  "dotted_suffixes [] = []"
| "dotted_suffixes (x # xs) = join_dots (x # xs) # dotted_suffixes xs"

text \<open>
  \<open>get_lpm\<close> of the prefix set: whether a network of the set contains the /24 of the address.
\<close>

definition is_chinese_host :: "conn_env \<Rightarrow> string \<Rightarrow> bool" where
  "is_chinese_host env host =
     (case parse_v4 (addr_sx env) host of
        Some ipv4 \<Rightarrow> list_ex (\<lambda>(a, l). l \<le> 24 \<and> in_net ipv4 (a, l)) (china_nets env)
      | None \<Rightarrow>
        (case psl_domain env host of
           None \<Rightarrow> False
         | Some d \<Rightarrow> list_ex (\<lambda>c. c \<in> set (china_domains env)) (dotted_suffixes (split_on CHR ''.'' d))))"

definition whitelist_host :: "conn_env \<Rightarrow> string \<Rightarrow> bool" where
  "whitelist_host env host =
     (if host = [] \<or> CHR ''['' \<in> set host then False
      else if passthrough_china env \<and> is_chinese_host env host then True
      else case parse_ip (addr_sx env) host of
             Some (V4 v4) \<Rightarrow> is_private v4 \<or> is_loopback v4 \<or> is_link_local v4
           | Some (V6 v6) \<Rightarrow> v6 = 1
           | None \<Rightarrow> (case psl_suffix_known env host of None \<Rightarrow> False | Some known \<Rightarrow> \<not> known))"

text \<open>
  What \<open>open_conn\<close> does: dial addresses itself, after whitelisting them in the VPN, or ask a
  session for a stream with the given metadata.
\<close>

datatype opened = Direct "SocketAddr list" | Tunnelled string

definition real_dest :: "conn_env \<Rightarrow> fake_dns \<Rightarrow> string \<Rightarrow> string" where
  "real_dest env ctx dest_addr =
     (case parse_sock (addr_sx env) dest_addr of
        Some sock_addr \<Rightarrow>
          (case sa_ip sock_addr of
             V4 v4 \<Rightarrow>
               (case fake_dns_backtranslate ctx v4 of
                  Some orig \<Rightarrow> orig @ '':'' @ nat_str (unat (sa_port sock_addr))
                | None \<Rightarrow> dest_addr)
           | V6 _ \<Rightarrow> dest_addr)
      | None \<Rightarrow> dest_addr)"

definition open_conn :: "conn_env \<Rightarrow> fake_dns \<Rightarrow> string \<Rightarrow> string \<Rightarrow> (string + opened) \<times> IpAddr list" where
  "open_conn env ctx prot dest_addr =
     (let dest = real_dest env ctx dest_addr; tunnel = (Inr (Tunnelled (prot @ ''$'' @ dest)), [])
      in case rsplit_once CHR '':'' dest of
           None \<Rightarrow> tunnel
         | Some (dest_host, _) \<Rightarrow>
             if whitelist_host env dest_host then
               (case resolve env dest of
                  Inl e \<Rightarrow> (Inl e, [])
                | Inr addrs \<Rightarrow> (Inr (Direct addrs), if vpn_on env then map sa_ip addrs else []))
             else tunnel)"

text \<open>The destination of a SOCKS5 request.\<close>

datatype SocksV5Host = Socks_Domain string | Socks_Ipv4 byte byte byte byte | Socks_Ipv6 bytes

definition socks_target :: "SocksV5Host \<Rightarrow> u16 \<Rightarrow> string + string" where
  "socks_target host port =
     result_bind
       (case host of
          Socks_Domain name \<Rightarrow> Inr name
        | Socks_Ipv4 a b c d \<Rightarrow>
            Inr (nat_str (unat a) @ ''.'' @ nat_str (unat b) @ ''.'' @ nat_str (unat c) @ ''.'' @ nat_str (unat d))
        | Socks_Ipv6 _ \<Rightarrow> Inl ''IPv6 not supported'')
       (\<lambda>domain. Inr (domain @ '':'' @ nat_str (unat port)))"

subsection \<open>Names behind fake addresses\<close>

definition fake_ok :: "fake_dns \<Rightarrow> bool" where
  "fake_ok ctx \<longleftrightarrow> (\<forall>n ip. forward_map ctx n = Some ip \<longrightarrow>
     backward_map ctx ip = Some n \<and> 0xF0000000 \<le> unat ip)"

lemma fake_ip_range: "0xF0000000 \<le> unat (fake_ip r)"
proof -
  have "(0xF0000000 :: u32) \<le> fake_ip r"
    by (simp add: fake_ip_def Let_def le_word_or2)
  then show ?thesis by (simp add: word_le_nat_alt)
qed

text \<open>The random draws of the new names do not hit an address that is already in use.\<close>

fun fresh_draws :: "(nat \<times> string \<times> bool) list \<Rightarrow> fake_dns \<Rightarrow> bool" where
  "fresh_draws [] ctx = True"
| "fresh_draws ((r, qname, is_a) # qs) ctx =
     ((is_a \<and> forward_map ctx qname = None \<longrightarrow> backward_map ctx (fake_ip r) = None) \<and>
      fresh_draws qs (if is_a then snd (fake_dns_allocate r qname ctx) else ctx))"

lemma allocate_ok:
  assumes "fake_ok ctx" and "forward_map ctx n = None \<longrightarrow> backward_map ctx (fake_ip r) = None"
  shows "fake_ok (snd (fake_dns_allocate r n ctx)) \<and>
    forward_map (snd (fake_dns_allocate r n ctx)) n = Some (fst (fake_dns_allocate r n ctx)) \<and>
    (\<forall>m ip. forward_map ctx m = Some ip \<longrightarrow> forward_map (snd (fake_dns_allocate r n ctx)) m = Some ip)"
  using assms fake_ip_range [of r]
  by (auto simp: fake_dns_allocate_def fake_ok_def split: option.splits)

lemma respond_ok:
  assumes "fake_ok ctx" and "fresh_draws qs ctx" and "fake_dns_respond qs ctx = (as, ctx')"
  shows "fake_ok ctx' \<and> (\<forall>m ip. forward_map ctx m = Some ip \<longrightarrow> forward_map ctx' m = Some ip) \<and>
    (\<forall>(n, ip) \<in> set as. forward_map ctx' n = Some ip)"
  using assms
proof (induction qs ctx arbitrary: as ctx' rule: fake_dns_respond.induct)
  case (2 r n is_a qs ctx)
  show ?case
  proof (cases is_a)
    case True
    obtain ip ctx1 where a: "fake_dns_allocate r n ctx = (ip, ctx1)" by fastforce
    obtain as2 ctx2 where b: "fake_dns_respond qs ctx1 = (as2, ctx2)" by fastforce
    have "fake_ok ctx1 \<and> forward_map ctx1 n = Some ip \<and> (\<forall>m i. forward_map ctx m = Some i \<longrightarrow> forward_map ctx1 m = Some i)"
      using allocate_ok [OF "2.prems"(1), of n r] "2.prems"(2) True by (simp add: a)
    moreover from this have "fake_ok ctx2 \<and> (\<forall>m i. forward_map ctx1 m = Some i \<longrightarrow> forward_map ctx2 m = Some i) \<and>
        (\<forall>(n, ip) \<in> set as2. forward_map ctx2 n = Some ip)"
      using "2.IH"(1) [OF True a [symmetric] refl _ _ b] "2.prems"(2) True by (simp add: a)
    ultimately show ?thesis using "2.prems"(3) True by (auto simp: a b)
  qed (use 2 in auto)
qed simp

text \<open>
  C30: A connection that a program opens to the fake address of an answer reaches the name it asked
  for: as long as no draw hits an address in use, whatever else was asked before, in the same
  packet or after, the address translates back to the name, so that the session is asked for the
  name with the port - unless the name is one that the client connects to directly.
\<close>

theorem fake_dns_leads_to_name:
  assumes "fresh_draws (qs1 @ qs2) \<lparr>forward_map = Map.empty, backward_map = Map.empty\<rparr>"
    and "fake_dns_respond qs1 \<lparr>forward_map = Map.empty, backward_map = Map.empty\<rparr> = (as1, ctx1)"
    and "fake_dns_respond qs2 ctx1 = (as2, ctx2)" and "(n, ip) \<in> set (as1 @ as2)"
    and "parse_sock (addr_sx env) dest = Some \<lparr>sa_ip = V4 ip, sa_port = port\<rparr>" and "\<not> whitelist_host env n"
  shows "open_conn env ctx2 prot dest = (Inr (Tunnelled (prot @ ''$'' @ n @ '':'' @ nat_str (unat port))), [])"
proof -
  let ?ctx = "\<lparr>forward_map = Map.empty, backward_map = Map.empty\<rparr> :: fake_dns"
  have split: "fresh_draws (qs1 @ qs2) c \<longleftrightarrow> fresh_draws qs1 c \<and> fresh_draws qs2 (snd (fake_dns_respond qs1 c))" for c
    by (induction qs1 c rule: fresh_draws.induct) (auto simp: case_prod_unfold Let_def)
  have ok0: "fake_ok ?ctx" by (simp add: fake_ok_def)
  from respond_ok [OF ok0 _ assms(2)] have ok1: "fake_ok ctx1" "\<forall>(n, ip) \<in> set as1. forward_map ctx1 n = Some ip"
    using assms(1) by (simp_all add: split)
  from respond_ok [OF ok1(1) _ assms(3)] have "fake_ok ctx2" "\<forall>m ip. forward_map ctx1 m = Some ip \<longrightarrow> forward_map ctx2 m = Some ip"
      "\<forall>(n, ip) \<in> set as2. forward_map ctx2 n = Some ip"
    using assms(1,2) by (simp_all add: split)
  then have "backward_map ctx2 ip = Some n"
    using ok1(2) assms(4) by (auto simp: fake_ok_def)
  then have "real_dest env ctx2 dest = n @ '':'' @ nat_str (unat port)"
    by (simp add: real_dest_def assms(5) fake_dns_backtranslate_def)
  then show ?thesis using assms(6) by (simp add: open_conn_def is_digit_def)
qed

definition example_conn :: conn_env where
  "example_conn =
     \<lparr>addr_sx = tiny_syntax\<lparr>parse_sock := (\<lambda>s. if s = ''240.0.0.5:80'' then Some \<lparr>sa_ip = V4 (fake_ip 5), sa_port = 80\<rparr> else None)\<rparr>,
      passthrough_china = True, china_domains = [''b.cn''], china_nets = [(0x01020000, 16)],
      psl_domain = Some, psl_suffix_known = (\<lambda>_. Some True), resolve = (\<lambda>_. Inr []), vpn_on = True\<rparr>"

theorem fake_dns_leads_to_name_witness:
  "open_conn example_conn (snd (fake_dns_respond [(5, ''a.com'', True)] \<lparr>forward_map = Map.empty, backward_map = Map.empty\<rparr>))
     ''tcp'' ''240.0.0.5:80'' = (Inr (Tunnelled (''tcp'' @ ''$'' @ ''a.com'' @ '':'' @ nat_str 80)), [])"
proof -
  have w: "\<not> whitelist_host example_conn ''a.com''"
    by (simp add: whitelist_host_def is_chinese_host_def example_conn_def tiny_syntax_def tiny_v4_def)
  show ?thesis
    using fake_dns_leads_to_name [OF _ _ _ _ _ w, of "[(5, ''a.com'', True)]" "[]" _ _ _ _ "fake_ip 5" "''240.0.0.5:80''" 80 "''tcp''"]
    by (simp add: fake_dns_allocate_def) (simp add: example_conn_def)
qed

text \<open>Two names that draw the same address: the second takes over the first one's connections.\<close>

lemma fake_dns_collision:
  assumes "fake_ip r = fake_ip r'" and "m \<noteq> n"
  shows "let (as, ctx) = fake_dns_respond [(r, m, True), (r', n, True)] \<lparr>forward_map = Map.empty, backward_map = Map.empty\<rparr>
    in as = [(m, fake_ip r), (n, fake_ip r)] \<and> fake_dns_backtranslate ctx (fake_ip r) = Some n"
  using assms by (simp add: fake_dns_allocate_def fake_dns_backtranslate_def)

text \<open>
  Local destinations never go through the tunnel: a connection to a private, loopback or
  link-local address of IPv4, given as text, is made directly or fails, and when it is made every
  address that is dialed was put on the whitelist of the VPN first.
\<close>

theorem local_addresses_direct:
  assumes "rsplit_once CHR '':'' dest = Some (host, port)" and "real_dest env ctx dest = dest"
    and "host \<noteq> []" and "CHR ''['' \<notin> set host" and "parse_ip (addr_sx env) host = Some (V4 a)"
    and "is_private a \<or> is_loopback a \<or> is_link_local a" and "vpn_on env"
  shows "case open_conn env ctx prot dest of
      (Inl _, w) \<Rightarrow> w = []
    | (Inr (Tunnelled _), w) \<Rightarrow> False
    | (Inr (Direct addrs), w) \<Rightarrow> w = map sa_ip addrs"
  using assms by (simp add: open_conn_def whitelist_host_def split: sum.splits)

theorem local_addresses_direct_witness:
  "case open_conn (example_conn\<lparr>addr_sx := tiny_syntax\<lparr>parse_ip := (\<lambda>_. Some (V4 0x0A000001))\<rparr>\<rparr>)
      \<lparr>forward_map = Map.empty, backward_map = Map.empty\<rparr> ''tcp'' ''x:1'' of
      (Inl _, w) \<Rightarrow> w = []
    | (Inr (Tunnelled _), w) \<Rightarrow> False
    | (Inr (Direct addrs), w) \<Rightarrow> w = map sa_ip addrs"
  by (rule local_addresses_direct [of _ "''x''" "''1''" _ _ "0x0A000001"])
     (simp_all add: rsplit_once_def real_dest_def example_conn_def tiny_syntax_def is_private_def octet_def
       parse_u16_def parse_uint_def is_digit_def digits_value_def tiny_v4_def)

section \<open>Requests for streams\<close>

text \<open>
  \<open>CONN_REQ_CHAN\<close> and the sessions that serve it: the requests that wait, those that a session has
  taken and is opening, those answered with a stream of a session, those dropped with a session
  that died. Requests are numbered; \<open>issued\<close> lists all of them.
\<close>

record conn_chan =
  waiting :: "(nat \<times> string) list"
  in_flight :: "(nat \<times> nat \<times> string) multiset"
  answered :: "(nat \<times> nat \<times> string) multiset"
  dropped :: "(nat \<times> string) multiset"
  alive_sessions :: "nat set"
  issued :: "(nat \<times> string) list"

inductive conn_step :: "conn_chan \<Rightarrow> conn_chan \<Rightarrow> bool" where
  Issue: "conn_step s (s\<lparr>waiting := waiting s @ [(length (issued s), dest)], issued := issued s @ [(length (issued s), dest)]\<rparr>)"
| Session_Up: "conn_step s (s\<lparr>alive_sessions := insert i (alive_sessions s)\<rparr>)"
| Take: "i \<in> alive_sessions s \<Longrightarrow> waiting s = r # rs \<Longrightarrow>
    conn_step s (s\<lparr>waiting := rs, in_flight := add_mset (i, r) (in_flight s)\<rparr>)"
| Open_Ok: "(i, r) \<in># in_flight s \<Longrightarrow>
    conn_step s (s\<lparr>in_flight := in_flight s - {#(i, r)#}, answered := add_mset (i, r) (answered s)\<rparr>)"
| Hot_Potato: "(i, r) \<in># in_flight s \<Longrightarrow>
    conn_step s (s\<lparr>in_flight := in_flight s - {#(i, r)#}, waiting := waiting s @ [r]\<rparr>)"
| Session_Dies: "conn_step s
    (s\<lparr>alive_sessions := alive_sessions s - {i}, in_flight := filter_mset (\<lambda>x. fst x \<noteq> i) (in_flight s),
       dropped := dropped s + image_mset snd (filter_mset (\<lambda>x. fst x = i) (in_flight s))\<rparr>)"

definition conn_init :: "conn_chan \<Rightarrow> bool" where
  "conn_init s \<longleftrightarrow> waiting s = [] \<and> in_flight s = {#} \<and> answered s = {#} \<and> dropped s = {#} \<and> issued s = []"

definition conn_inv :: "conn_chan \<Rightarrow> bool" where
  "conn_inv s \<longleftrightarrow>
     mset (waiting s) + image_mset snd (in_flight s) + image_mset snd (answered s) + dropped s = mset (issued s) \<and>
     map fst (issued s) = [0..<length (issued s)]"

interpretation conn_sys: invariant_system conn_init conn_step conn_inv
proof
  show "conn_inv s" if "conn_init s" for s
    using that by (simp add: conn_init_def conn_inv_def)
next
  show "conn_inv t" if "conn_inv s" and "conn_step s t" for s t
    using that(2,1)
  proof cases
    case (Open_Ok i r)
    then show ?thesis
      using that(1) by (auto simp: conn_inv_def image_mset_Diff dest!: multi_member_split)
  next
    case (Hot_Potato i r)
    then show ?thesis
      using that(1) by (auto simp: conn_inv_def image_mset_Diff dest!: multi_member_split)
  next
    case (Session_Dies i)
    have "image_mset snd (filter_mset (\<lambda>x. fst x \<noteq> i) (in_flight s)) + image_mset snd (filter_mset (\<lambda>x. fst x = i) (in_flight s)) =
        image_mset snd (in_flight s)"
      by (metis (no_types, lifting) filter_mset_cong image_mset_union multiset_partition union_commute)
    then show ?thesis
      using that(1) Session_Dies by (simp add: conn_inv_def ac_simps)
  qed (auto simp: conn_inv_def)
qed


definition example_chan :: conn_chan where
  "example_chan =
     \<lparr>waiting = [(0, ''tcp$a:1'')], in_flight = {#}, answered = {#}, dropped = {#}, alive_sessions = {7},
      issued = [(0, ''tcp$a:1'')]\<rparr>"


section \<open>Statistics\<close>

subsection \<open>Traffic per second\<close>

text \<open>
  The f64 amounts are rationals here. Times are in milliseconds; a duration to an earlier instant
  is zero.
\<close>

record TraffCount =
  bins :: "rat list"
  window_start :: nat
  max_history_seconds :: nat

definition traff_with_history :: "nat \<Rightarrow> nat \<Rightarrow> TraffCount" where
  "traff_with_history now max_seconds = \<lparr>bins = [], window_start = now, max_history_seconds = max_seconds\<rparr>"

definition traff_new :: "nat \<Rightarrow> TraffCount" where
  "traff_new now = \<lparr>bins = [], window_start = now, max_history_seconds = 600\<rparr>"

definition push_bin :: "nat \<Rightarrow> rat list \<Rightarrow> rat list" where
  "push_bin limit bs = (if limit \<le> length bs then tl bs else bs) @ [0]"

definition ensure_bins_updated :: "nat \<Rightarrow> TraffCount \<Rightarrow> TraffCount" where
  "ensure_bins_updated now s =
     (let seconds_elapsed = (now - window_start s) div 1000
      in if seconds_elapsed = 0 \<and> bins s \<noteq> [] then s
         else if bins s = [] then s\<lparr>bins := [0]\<rparr>
         else s\<lparr>bins := (push_bin (max_history_seconds s) ^^ seconds_elapsed) (bins s),
                window_start := window_start s + seconds_elapsed * 1000\<rparr>)"

definition traff_incr :: "nat \<Rightarrow> rat \<Rightarrow> TraffCount \<Rightarrow> TraffCount" where
  "traff_incr now n s =
     (let s' = ensure_bins_updated now s
      in if bins s' \<noteq> [] then s'\<lparr>bins := butlast (bins s') @ [last (bins s') + n]\<rparr>
         else if 0 < n then s'\<lparr>bins := [n]\<rparr> else s')"

definition speed_history :: "TraffCount \<Rightarrow> rat list" where
  "speed_history s = bins s"

fun traff_run :: "(nat \<times> rat) list \<Rightarrow> TraffCount \<Rightarrow> TraffCount" where
  "traff_run [] s = s"
| "traff_run ((now, n) # es) s = traff_run es (traff_incr now n s)"

lemma push_bins_length:
  "bs \<noteq> [] \<Longrightarrow> length bs \<le> max 1 limit \<Longrightarrow>
     (push_bin limit ^^ k) bs \<noteq> [] \<and> length ((push_bin limit ^^ k) bs) \<le> max 1 limit"
  by (induction k) (auto simp: push_bin_def)

lemma push_bins_nonneg:
  "list_all (\<lambda>b. 0 \<le> b) bs \<Longrightarrow> list_all (\<lambda>b. 0 \<le> b) ((push_bin limit ^^ k) bs)"
proof -
  have "set (tl xs) \<subseteq> set xs" for xs :: "rat list" by (cases xs) auto
  then show "list_all (\<lambda>b. 0 \<le> b) bs \<Longrightarrow> list_all (\<lambda>b. 0 \<le> b) ((push_bin limit ^^ k) bs)"
    by (induction k) (auto simp: push_bin_def list_all_iff)
qed

lemma ensure_bins_shape:
  assumes "length (bins s) \<le> max 1 (max_history_seconds s)" and "list_all (\<lambda>b. 0 \<le> b) (bins s)"
  shows "bins (ensure_bins_updated now s) \<noteq> [] \<and>
    length (bins (ensure_bins_updated now s)) \<le> max 1 (max_history_seconds s) \<and>
    list_all (\<lambda>b. 0 \<le> b) (bins (ensure_bins_updated now s)) \<and>
    max_history_seconds (ensure_bins_updated now s) = max_history_seconds s"
  using assms push_bins_length [of "bins s" "max_history_seconds s"] push_bins_nonneg [of "bins s"]
  by (auto simp: ensure_bins_updated_def Let_def)

lemma traff_incr_shape:
  assumes "length (bins s) \<le> max 1 (max_history_seconds s)" and "list_all (\<lambda>b. 0 \<le> b) (bins s)" and "0 \<le> n"
  shows "bins (traff_incr now n s) \<noteq> [] \<and>
    length (bins (traff_incr now n s)) \<le> max 1 (max_history_seconds s) \<and>
    list_all (\<lambda>b. 0 \<le> b) (bins (traff_incr now n s)) \<and> n \<le> last (bins (traff_incr now n s)) \<and>
    max_history_seconds (traff_incr now n s) = max_history_seconds s"
proof -
  define b where "b = bins (ensure_bins_updated now s)"
  have b: "b \<noteq> []" "length b \<le> max 1 (max_history_seconds s)" "list_all (\<lambda>b. 0 \<le> b) b"
      "max_history_seconds (ensure_bins_updated now s) = max_history_seconds s"
    using ensure_bins_shape [OF assms(1,2)] by (simp_all add: b_def)
  then have "0 \<le> last b" by (simp add: list_all_iff)
  with b assms(3) show ?thesis
    by (auto simp: traff_incr_def Let_def list_all_iff simp flip: b_def dest: in_set_butlastD)
qed

text \<open>
  However long the client runs and whenever traffic comes, the history keeps at most the number
  of seconds it was made for (one at least), no entry is negative, and the amount that was counted
  last is part of the newest entry.
\<close>

theorem traffic_history_bounded:
  assumes "list_all (\<lambda>(now, n). 0 \<le> n) (es @ [(now, n)])"
  shows "length (speed_history (traff_run (es @ [(now, n)]) (traff_with_history start limit))) \<le> max 1 limit \<and>
    list_all (\<lambda>b. 0 \<le> b) (speed_history (traff_run (es @ [(now, n)]) (traff_with_history start limit))) \<and>
    n \<le> last (speed_history (traff_run (es @ [(now, n)]) (traff_with_history start limit)))"
proof -
  have run: "length (bins (traff_run es s)) \<le> max 1 (max_history_seconds s) \<and> list_all (\<lambda>b. 0 \<le> b) (bins (traff_run es s)) \<and>
      max_history_seconds (traff_run es s) = max_history_seconds s"
    if "length (bins s) \<le> max 1 (max_history_seconds s)" "list_all (\<lambda>b. 0 \<le> b) (bins s)" "list_all (\<lambda>(now, n). 0 \<le> n) es" for es s
    using that
  proof (induction es s rule: traff_run.induct)
    case (2 t m es s)
    then show ?case using traff_incr_shape [of s m t] by simp
  qed simp
  have "traff_run (es @ [(now, n)]) s = traff_incr now n (traff_run es s)" for s
    by (induction es s rule: traff_run.induct) simp_all
  then show ?thesis
    using run [of "traff_with_history start limit" es] assms
      traff_incr_shape [of "traff_run es (traff_with_history start limit)" n now]
    by (simp add: speed_history_def traff_with_history_def)
qed

theorem traffic_history_bounded_witness:
  "length (speed_history (traff_run ([(0, 100)] @ [(3000, 200)]) (traff_with_history 0 2))) \<le> max 1 2 \<and>
   200 \<le> last (speed_history (traff_run ([(0, 100)] @ [(3000, 200)]) (traff_with_history 0 2)))"
  using traffic_history_bounded [of "[(0, 100)]" 3000 200 0 2] by simp

text \<open>
  The history of the unit test: an amount, three seconds of silence and another amount leave two
  entries with a limit of two.
\<close>

lemma traffic_test_history:
  "speed_history (traff_run [(0, 100), (3000, 200)] (traff_with_history 0 2)) = [0, 200]"
proof -
  have "(f ^^ 3) x = f (f (f x))" for f :: "rat list \<Rightarrow> rat list" and x
    by (simp add: numeral_3_eq_3)
  then show ?thesis
    by (simp add: speed_history_def traff_with_history_def traff_incr_def ensure_bins_updated_def push_bin_def)
qed

subsection \<open>Counters and tasks\<close>

type_synonym num_stats = "string \<rightharpoonup> rat"

definition stat_set_num :: "string \<Rightarrow> rat \<Rightarrow> num_stats \<Rightarrow> num_stats" where
  "stat_set_num stat n s = s(stat \<mapsto> n)"

definition stat_get_num :: "string \<Rightarrow> num_stats \<Rightarrow> rat" where
  "stat_get_num stat s = (case s stat of None \<Rightarrow> 0 | Some v \<Rightarrow> v)"

definition stat_incr_num :: "string \<Rightarrow> rat \<Rightarrow> num_stats \<Rightarrow> num_stats" where
  "stat_incr_num stat n s = s(stat \<mapsto> stat_get_num stat s + n)"

lemma stat_incr_get:
  "stat_get_num k (stat_incr_num stat n s) = stat_get_num k s + (if k = stat then n else 0)"
  by (simp add: stat_get_num_def stat_incr_num_def)

definition add_task :: "nat \<Rightarrow> 'task \<Rightarrow> 'task list \<Rightarrow> 'task list" where
  "add_task task_limit task tasks = (if task_limit \<le> length tasks then tl tasks else tasks) @ [task]"

lemma add_task_bound: "length tasks \<le> max 1 task_limit \<Longrightarrow> length (add_task task_limit task tasks) \<le> max 1 task_limit"
  by (auto simp: add_task_def)

text \<open>
  \<open>litecopy\<close>: for each read its result and that of writing it, an error after so many bytes or
  none. The result is None while it waits for more.
\<close>

fun litecopy :: "((io_error + bytes) \<times> (nat \<times> io_error) option) list \<Rightarrow> nat \<Rightarrow> bytes \<times> (io_error + nat) option" where
  "litecopy [] n = ([], None)"
| "litecopy ((Inl e, _) # es) n = ([], Some (Inl e))"
| "litecopy ((Inr val, w) # es) n =
     (if val = [] then ([], Some (Inr n))
      else case w of
             Some (k, e) \<Rightarrow> (take k val, Some (Inl e))
           | None \<Rightarrow> (let (out, r) = litecopy es (n + length val) in (val @ out, r)))"

lemma litecopy_counts: "litecopy es n = (out, Some (Inr m)) \<Longrightarrow> m = n + length out"
  by (induction es n arbitrary: out rule: litecopy.induct)
     (auto simp: Let_def split: if_splits option.splits prod.splits)

end
