(* ===== verification/Client_Rpc.thy ===== *)
theory Client_Rpc
  imports Client_Conn Broker Dialers
begin

text \<open>
  Remote calls: JSON lines over a connection (libraries/nanorpc-sillad/src/lib.rs), the transports
  of the client to the broker (binaries/geph5-client/src/broker: race.rs, priority_race.rs), the
  dialer for several addresses (libraries/sillad/src/tcp.rs), the update manifest (updates.rs) and
  the control protocol of the client (control_prot.rs). The JSON coding, HTTP and the signature of
  the manifest are parameters; what a transport does is a \<open>dialing\<close>: when it returns, and what.
\<close>

section \<open>JSON lines\<close>

record ('q, 'r) jrpc =
  enc_req :: "'q \<Rightarrow> string"
  dec_req :: "string \<Rightarrow> 'q option"
  enc_resp :: "'r \<Rightarrow> string"
  dec_resp :: "string \<Rightarrow> 'r option"

definition read_line :: "string \<Rightarrow> string \<times> string" where
  "read_line s = (case split_once newline s of Some (l, rest) \<Rightarrow> (l, rest) | None \<Rightarrow> (s, []))"

definition line :: "string \<Rightarrow> string" where
  "line s = s @ [newline]"

lemma split_once_shorter: "split_once c s = Some (a, b) \<Longrightarrow> length b < length s"
  by (induction c s arbitrary: a rule: split_once.induct) (fastforce split: if_splits)+

text \<open>
  The task of a connection in \<open>rpc_serve\<close>: what it writes for the text the client sends before it
  closes, with a service that may change its state. A line that does not parse ends it; so does the
  empty line that is read at the end.
\<close>

function rpc_serve_conn :: "('q, 'r) jrpc \<Rightarrow> ('q \<Rightarrow> 's \<Rightarrow> 'r \<times> 's) \<Rightarrow> string \<Rightarrow> 's \<Rightarrow> string \<times> 's" where
  "rpc_serve_conn j respond input s =
     (if input = [] then ([], s)
      else case read_line input of (l, rest) \<Rightarrow>
        (case dec_req j l of
           None \<Rightarrow> ([], s)
         | Some req \<Rightarrow>
             let (resp, s1) = respond req s; (out, s2) = rpc_serve_conn j respond rest s1
             in (line (enc_resp j resp) @ out, s2)))"
  by pat_completeness auto
termination
  by (relation "measure (\<lambda>(j, respond, input, s). length input)")
     (auto simp: read_line_def split: option.splits dest: split_once_shorter)

declare rpc_serve_conn.simps [simp del]

text \<open>\<open>DialerTransport\<close>: the request it writes, and what it makes of the text that comes back.\<close>

definition call_raw_send :: "('q, 'r) jrpc \<Rightarrow> 'q \<Rightarrow> string" where
  "call_raw_send j req = line (enc_req j req)"

definition call_raw_recv :: "('q, 'r) jrpc \<Rightarrow> string \<Rightarrow> string + 'r" where
  "call_raw_recv j input = ok_or ''cannot parse'' (dec_resp j (fst (read_line input)))"

definition jrpc_ok :: "('q, 'r) jrpc \<Rightarrow> bool" where
  "jrpc_ok j \<longleftrightarrow>
     (\<forall>q. dec_req j (enc_req j q) = Some q \<and> newline \<notin> set (enc_req j q)) \<and>
     (\<forall>r. dec_resp j (enc_resp j r) = Some r \<and> newline \<notin> set (enc_resp j r))"

lemma read_line_line: "newline \<notin> set l \<Longrightarrow> read_line (line l @ rest) = (l, rest)"
  by (simp add: read_line_def line_def split_once_first)

fun serve_all :: "('q \<Rightarrow> 's \<Rightarrow> 'r \<times> 's) \<Rightarrow> 'q list \<Rightarrow> 's \<Rightarrow> 'r list \<times> 's" where
  "serve_all respond [] s = ([], s)"
| "serve_all respond (q # qs) s =
     (let (r, s1) = respond q s; (rs, s2) = serve_all respond qs s1 in (r # rs, s2))"

lemma rpc_serve_lines:
  assumes "jrpc_ok j"
  shows "rpc_serve_conn j respond (concat (map (call_raw_send j) qs)) s =
    (case serve_all respond qs s of (rs, s') \<Rightarrow> (concat (map (\<lambda>r. line (enc_resp j r)) rs), s'))"
proof (induction qs arbitrary: s)
  case (Cons q qs)
  have "read_line (call_raw_send j q @ rest) = (enc_req j q, rest)" for rest
    using assms by (simp add: call_raw_send_def read_line_line jrpc_ok_def)
  moreover have "call_raw_send j q \<noteq> []" by (simp add: call_raw_send_def line_def)
  moreover have "dec_req j (enc_req j q) = Some q" using assms by (simp add: jrpc_ok_def)
  ultimately show ?case
    using Cons by (subst rpc_serve_conn.simps) (simp add: Let_def case_prod_unfold)
qed (simp add: rpc_serve_conn.simps)

text \<open>
  Remote calls over a connection are answered in order: when the coding is sound and has no line
  breaks, a server that is sent any sequence of requests runs the service on exactly these requests
  one after the other and sends back one line for each, and the transport that sent the first of
  them gets the service's answer to it.
\<close>

theorem rpc_lines_answered:
  assumes "jrpc_ok j" and "serve_all respond (q # qs) s = (r # rs, s')"
  shows "rpc_serve_conn j respond (concat (map (call_raw_send j) (q # qs))) s =
      (concat (map (\<lambda>r. line (enc_resp j r)) (r # rs)), s') \<and>
    call_raw_recv j (fst (rpc_serve_conn j respond (concat (map (call_raw_send j) (q # qs))) s)) = Inr r"
  using rpc_serve_lines [OF assms(1), of respond "q # qs" s] assms
  by (simp add: call_raw_recv_def read_line_line jrpc_ok_def)

definition example_jrpc :: "(nat, nat) jrpc" where
  "example_jrpc =
     \<lparr>enc_req = nat_str, dec_req = (\<lambda>s. Some (digits_value s)),
      enc_resp = nat_str, dec_resp = (\<lambda>s. Some (digits_value s))\<rparr>"

theorem rpc_lines_answered_witness:
  "call_raw_recv example_jrpc (fst (rpc_serve_conn example_jrpc (\<lambda>q s. (q + s, s + 1))
     (concat (map (call_raw_send example_jrpc) [5, 6])) 10)) = Inr 15"
proof -
  have "jrpc_ok example_jrpc"
    by (simp add: jrpc_ok_def example_jrpc_def newline_def is_digit_def)
  then show ?thesis
    by (rule rpc_lines_answered [THEN conjunct2, of _ "\<lambda>q s. (q + s, s + 1)" 5 "[6]" 10 15 "[17]" 12]) simp
qed

section \<open>Transports\<close>

text \<open>
  A transport is what its calls do, for a request and the millisecond they start at. The errors of
  transports are I/O errors here.
\<close>

type_synonym ('q, 'r) transport = "'q \<Rightarrow> 'r dialing"

text \<open>A call returns, does not return, or panics.\<close>

datatype 'r called = Returned nat "io_error + 'r" | Blocked | Panicked

text \<open>
  \<open>RaceTransport\<close>: the choice that answered last is used again, without a timeout; without one all
  are called, each for at most ten seconds, and the first that answers is selected. Calls of the
  group that return at the same millisecond are taken in the order of the choices.
\<close>

definition timed_call :: "('q, 'r) transport \<Rightarrow> 'q \<Rightarrow> nat \<Rightarrow> nat \<times> (io_error + 'r)" where
  "timed_call c req t =
     (case c req t of
        Done i r \<Rightarrow> if i \<le> t + 10000 then (i, r) else (t + 10000, Inl (IoError TimedOut ''broker call timed out''))
      | Never \<Rightarrow> (t + 10000, Inl (IoError TimedOut ''broker call timed out'')))"

fun first_ok :: "(nat \<times> nat \<times> (io_error + 'r)) list \<Rightarrow> (nat \<times> io_error) option \<Rightarrow> 'r called \<times> nat option" where
  "first_ok [] None = (Panicked, None)"
| "first_ok [] (Some (t, e)) = (Returned t (Inl e), None)"
| "first_ok ((t, idx, Inr res) # cs) err = (Returned t (Inr res), Some idx)"
| "first_ok ((t, idx, Inl e) # cs) err = first_ok cs (Some (t, e))"

definition race_call :: "('q, 'r) transport list \<Rightarrow> 'q \<Rightarrow> nat \<Rightarrow> nat option \<Rightarrow> 'r called \<times> nat option" where
  "race_call choices req t selected =
     (case selected of
        Some idx \<Rightarrow>
          if length choices \<le> idx then (Panicked, selected)
          else (case (choices ! idx) req t of
                  Never \<Rightarrow> (Blocked, selected)
                | Done i r \<Rightarrow> (Returned i r, if isl r then None else selected))
      | None \<Rightarrow>
          first_ok (sort_key fst (map (\<lambda>idx. case timed_call (choices ! idx) req t of (i, r) \<Rightarrow> (i, idx, r))
            [0..<length choices])) None)"

text \<open>
  \<open>PriorityRaceTransport\<close>: the choices of a BTreeMap, each started after its key in milliseconds. The
  first answer wins; when all have failed, the error of the first choice is returned, and an empty
  map panics on the removal of that error.
\<close>

fun ok_answers :: "'r outcome list \<Rightarrow> (nat \<times> 'r) list" where
  "ok_answers [] = []"
| "ok_answers (Done i (Inr p) # os) = (i, p) # ok_answers os"
| "ok_answers (_ # os) = ok_answers os"

definition priority_call :: "(nat \<times> ('q, 'r) transport) list \<Rightarrow> 'q \<Rightarrow> nat \<Rightarrow> 'r called" where
  "priority_call choices req t =
     (let os = map (\<lambda>(d, c). c req (t + d)) choices
      in case sort_key fst (ok_answers os) of
           (i, p) # _ \<Rightarrow> Returned i (Inr p)
         | [] \<Rightarrow>
             if os = [] then Panicked
             else if Never \<in> set os then Blocked
             else Returned (Max (set (map (\<lambda>x. case x of Done i _ \<Rightarrow> i | Never \<Rightarrow> 0) os)))
                    (case hd os of Done _ r \<Rightarrow> r | Never \<Rightarrow> Inl (IoError OtherKind [])))"

text \<open>\<open>HappyEyeballsTcpDialer\<close>: a quarter of a second between the starts of two addresses.\<close>

definition happy_eyeballs :: "'p net \<Rightarrow> sock_addr list \<Rightarrow> 'p dialing" where
  "happy_eyeballs net addrs =
     (if addrs = [] then (\<lambda>t. Done t (Inl (IoError OtherKind ''no addresses given'')))
      else dial net (reduce RaceDialer (map (\<lambda>(idx, addr). DelayDialer (TcpDialer addr) (250 * idx)) (List.enumerate 0 addrs))))"

lemma first_ok_returns:
  "cs \<noteq> [] \<or> err \<noteq> None \<Longrightarrow> sorted (map fst cs) \<Longrightarrow>
     (\<exists>t idx res. first_ok cs err = (Returned t (Inr res), Some idx) \<and> (t, idx, Inr res) \<in> set cs \<and>
        (\<forall>(u, _, r) \<in> set cs. \<not> isl r \<longrightarrow> t \<le> u)) \<or>
     (\<exists>t e. first_ok cs err = (Returned t (Inl e), None) \<and> (\<forall>(_, _, r) \<in> set cs. isl r) \<and>
        (t \<in> fst ` set cs \<or> err = Some (t, e)))"
proof (induction cs err rule: first_ok.induct)
  case (4 t idx e cs err)
  then have "sorted (map fst cs)" by simp
  with "4.IH" consider u i res where "first_ok cs (Some (t, e)) = (Returned u (Inr res), Some i)" "(u, i, Inr res) \<in> set cs"
      "\<forall>(v, _, r) \<in> set cs. \<not> isl r \<longrightarrow> u \<le> v"
    | u e' where "first_ok cs (Some (t, e)) = (Returned u (Inl e'), None)" "\<forall>(_, _, r) \<in> set cs. isl r"
      "u \<in> fst ` set cs \<or> Some (t, e) = Some (u, e')"
    by blast
  then show ?case
  proof cases
    case 1
    then show ?thesis by (intro disjI1 exI [of _ u] exI [of _ i] exI [of _ res]) simp
  next
    case 2
    then show ?thesis by (intro disjI2 exI [of _ u] exI [of _ e']) auto
  qed
qed (auto simp: isl_def)

lemma timed_call_bound: "fst (timed_call c req t) \<le> t + 10000"
  by (simp add: timed_call_def split: outcome.splits)



text \<open>
  The selected transport always exists, so that indexing does not panic; but a call to it that does
  not return blocks, and the transport stays selected.
\<close>

lemma first_ok_selects: "first_ok cs err = (r, Some idx) \<Longrightarrow> idx \<in> (\<lambda>(_, i, _). i) ` set cs"
  by (induction cs err rule: first_ok.induct) (auto simp: image_iff)

lemma race_call_selected:
  assumes "race_call choices req t selected = (r, Some idx)" and "\<forall>i. selected = Some i \<longrightarrow> i < length choices"
  shows "idx < length choices"
  using assms
  by (auto simp: race_call_def case_prod_unfold image_image split: option.splits outcome.splits if_splits
      dest!: first_ok_selects)

lemma race_call_hangs:
  assumes "idx < length choices" and "(choices ! idx) req t = Never"
  shows "race_call choices req t (Some idx) = (Blocked, Some idx)"
  using assms by (simp add: race_call_def)

lemma race_call_no_choice: "race_call [] req t None = (Panicked, None)"
  by (simp add: race_call_def)

lemma happy_eyeballs_success:
  assumes "addrs \<noteq> []"
  shows "success (happy_eyeballs net addrs t) =
    (INF idx \<in> {..<length addrs}. success (net_tcp net (addrs ! idx) (t + 250 * idx)))"
proof -
  have "(\<lambda>(idx, addr). DelayDialer (TcpDialer addr) (250 * idx)) ` set (List.enumerate 0 addrs) =
      (\<lambda>idx. DelayDialer (TcpDialer (addrs ! idx)) (250 * idx)) ` {..<length addrs}"
    by (force simp: in_set_enumerate_eq image_iff)
  then show ?thesis
    using assms by (simp add: happy_eyeballs_def success_reduce_race image_image delay_dial_def)
qed

section \<open>Updates\<close>

text \<open>
  \<open>fetch\<close> downloads a file, \<open>verified\<close> checks a decoded minisign signature under the built-in key,
  \<open>yaml\<close> parses the manifest.
\<close>

record 'j update_env =
  fetch :: "string \<Rightarrow> string + bytes"
  decode_sig :: "bytes \<Rightarrow> bytes option"
  verified :: "bytes \<Rightarrow> bytes \<Rightarrow> bool"
  yaml :: "bytes \<Rightarrow> string + 'j"

definition get_update_manifest_inner :: "'j update_env \<Rightarrow> string \<Rightarrow> string + 'j" where
  "get_update_manifest_inner env base_url =
     result_bind (fetch env (base_url @ ''/metadata.yaml'')) (\<lambda>yaml_bytes.
     result_bind (fetch env (base_url @ ''/metadata.yaml.minisig'')) (\<lambda>signature_str.
     result_bind (ok_or ''Unable to decode the signature'' (decode_sig env signature_str)) (\<lambda>sig.
       if verified env yaml_bytes sig then yaml env yaml_bytes else Inl ''Signature verification failed'')))"

definition update_urls :: "string list" where
  "update_urls =
     [''https://f001.backblazeb2.com/file/geph4-dl/geph-releases'',
      ''https://sos-ch-dk-2.exo.io/utopia/geph-releases-new'']"

fun try_urls :: "'j update_env \<Rightarrow> string list \<Rightarrow> string + 'j \<times> string" where
  "try_urls env [] = Inl ''no urls worked for manifest''"
| "try_urls env (url # urls) =
     (case get_update_manifest_inner env url of
        Inr ret \<Rightarrow> Inr (ret, url)
      | Inl _ \<Rightarrow> try_urls env urls)"

definition get_update_manifest :: "'j update_env \<Rightarrow> string + 'j \<times> string" where
  "get_update_manifest env = try_urls env update_urls"

text \<open>
  A manifest that the client acts on was signed: whatever the download servers return, the
  manifest is parsed from bytes whose signature was verified under the built-in key, and it comes
  from one of the two known places.
\<close>

theorem manifest_signed:
  assumes "get_update_manifest env = Inr (m, url)"
  shows "url \<in> set update_urls \<and>
    (\<exists>raw sig_text sig. fetch env (url @ ''/metadata.yaml'') = Inr raw \<and>
      fetch env (url @ ''/metadata.yaml.minisig'') = Inr sig_text \<and>
      decode_sig env sig_text = Some sig \<and> verified env raw sig \<and> yaml env raw = Inr m)"
proof -
  have "try_urls env urls = Inr (m, url) \<Longrightarrow> url \<in> set urls \<and> get_update_manifest_inner env url = Inr m" for urls
    by (induction urls) (auto split: sum.splits)
  then have "url \<in> set update_urls" and "get_update_manifest_inner env url = Inr m"
    using assms by (auto simp: get_update_manifest_def)
  then show ?thesis
    by (auto simp: get_update_manifest_inner_def result_bind_Inr_iff split: if_splits)
qed

theorem manifest_signed_witness:
  "\<exists>raw sig_text sig. (\<lambda>_. Inr [1 :: byte]) (''https://f001.backblazeb2.com/file/geph4-dl/geph-releases'' @ ''/metadata.yaml'') =
      (Inr raw :: string + bytes) \<and> sig_text = [1 :: byte] \<and> Some sig_text = Some sig \<and> sig = raw \<and> raw = [1]"
  using manifest_signed [of "\<lparr>fetch = \<lambda>_. Inr [1], decode_sig = Some, verified = (=), yaml = Inr\<rparr>" "[1]"
      "''https://f001.backblazeb2.com/file/geph4-dl/geph-releases''"]
  by (simp add: get_update_manifest_def update_urls_def get_update_manifest_inner_def)

section \<open>The control protocol\<close>

text \<open>
  Handlers that ask the broker: \<open>reply\<close> is the result of the remote call, an error of the transport or
  the broker's answer. Errors become texts; \<open>show_auth\<close> is their Debug format.
\<close>

record ControlUserInfo =
  cu_user_id :: int
  cu_level :: AccountLevel
  cu_recurring :: bool
  cu_expiry :: "int option"

definition ask_broker :: "('e \<Rightarrow> string) \<Rightarrow> string + ('e + 'a) \<Rightarrow> string + 'a" where
  "ask_broker show_err reply = result_bind reply (\<lambda>r. map_sum show_err id r)"

definition check_secret :: "(AuthError \<Rightarrow> string) \<Rightarrow> string + (AuthError + UserInfo option) \<Rightarrow> string + bool" where
  "check_secret show_err reply = result_bind (ask_broker show_err reply) (\<lambda>res. Inr (res \<noteq> None))"

definition control_user_info ::
    "(AuthError \<Rightarrow> string) \<Rightarrow> string + (AuthError + UserInfo option) \<Rightarrow> string + ControlUserInfo" where
  "control_user_info show_err reply =
     result_bind (ask_broker show_err reply) (\<lambda>res.
     result_bind (ok_or ''no such user'' res) (\<lambda>u.
       Inr \<lparr>cu_user_id = user_id u,
            cu_level = (if plus_expires_unix u \<noteq> None then Plus else Free),
            cu_recurring = recurring u, cu_expiry = plus_expires_unix u\<rparr>))"

definition control_exit_list :: "string + (string + ExitList Signed) \<Rightarrow> string + ExitDescriptor list" where
  "control_exit_list reply =
     result_bind (ask_broker id reply) (\<lambda>resp. Inr (map snd (all_exits (signed_inner resp))))"

definition control_free_exit_list ::
    "(rat \<Rightarrow> rat) \<Rightarrow> string + (string + ExitList Signed) \<Rightarrow> string + ExitDescriptor list" where
  "control_free_exit_list powf_half reply =
     result_bind (ask_broker id reply) (\<lambda>resp.
       Inr (map (\<lambda>e. (snd e)\<lparr>load := powf_half (load (snd e))\<rparr>) (all_exits (signed_inner resp))))"

definition control_price_points :: "string + (string + (nat \<times> nat) list) \<Rightarrow> string + (nat \<times> rat) list" where
  "control_price_points reply =
     result_bind (ask_broker id reply) (\<lambda>ps. Inr (map (\<lambda>(a, b). (a, of_nat b / 100)) ps))"

definition stat_history :: "string \<Rightarrow> TraffCount \<Rightarrow> string + rat list" where
  "stat_history stat s = (if stat \<noteq> ''traffic'' then Inl (''bad: '' @ stat) else Inr (speed_history s))"

subsection \<open>Registration\<close>

text \<open>
  The slab of registrations, as a list: entries are never removed. The background task tries until
  the broker registers the account, always with the puzzle it got at the start. An attempt is what
  the solver reported and the result of the remote call.
\<close>

record RegistrationProgress =
  progress :: rat
  reg_secret :: "string option"

definition start_registration :: "string + string \<times> nat \<Rightarrow> RegistrationProgress list \<Rightarrow> (string + nat) \<times> RegistrationProgress list" where
  "start_registration puzzle regs =
     (case puzzle of
        Inl e \<Rightarrow> (Inl e, regs)
      | Inr _ \<Rightarrow> (Inr (length regs), regs @ [\<lparr>progress = 0, reg_secret = None\<rparr>]))"

fun registration_task ::
    "nat \<Rightarrow> (rat list \<times> (string + string)) list \<Rightarrow> RegistrationProgress list \<Rightarrow> RegistrationProgress list" where
  "registration_task idx [] regs = regs"
| "registration_task idx ((ps, reply) # attempts) regs =
     (let regs1 = fold (\<lambda>p rs. rs[idx := \<lparr>progress = p, reg_secret = None\<rparr>]) ps regs
      in case reply of
           Inl _ \<Rightarrow> registration_task idx attempts regs1
         | Inr secret \<Rightarrow> regs1[idx := \<lparr>progress = 1, reg_secret = Some secret\<rparr>])"

definition poll_registration :: "nat \<Rightarrow> RegistrationProgress list \<Rightarrow> string + RegistrationProgress" where
  "poll_registration idx regs =
     (if idx < length regs then Inr (regs ! idx) else Inl ''no such registration'')"

lemma fold_progress_length [simp]:
  "length (fold (\<lambda>p rs. rs[idx := \<lparr>progress = p, reg_secret = None\<rparr>]) ps regs) = length regs"
  by (induction ps arbitrary: regs) simp_all

lemma registration_succeeds:
  assumes "idx < length regs" and "list_all (\<lambda>(_, reply). isl reply) failed"
  shows "poll_registration idx (registration_task idx (failed @ (ps, Inr secret) # later) regs) =
    Inr \<lparr>progress = 1, reg_secret = Some secret\<rparr>"
  using assms
proof (induction failed arbitrary: regs)
  case Nil
  then show ?case by (simp add: poll_registration_def Let_def)
next
  case (Cons f failed)
  then obtain ps' e where "f = (ps', Inl e)" by (cases f) (auto simp: isl_def)
  with Cons show ?case by (simp add: Let_def)
qed

text \<open>The replies of a broker to a task that repeats its request, with other requests in between.\<close>

inductive retried :: "('h, 's) broker_env \<Rightarrow> string \<Rightarrow> broker \<Rightarrow> (string + string) list \<Rightarrow> bool" for env puzzle where
  No_More: "retried env puzzle st []"
| Others: "broker_step env st st' \<Longrightarrow> retried env puzzle st' rs \<Longrightarrow> retried env puzzle st rs"
| Retry: "register_user_secret env q now digits puzzle solution st = (r, st') \<Longrightarrow> retried env puzzle st' rs \<Longrightarrow>
    retried env puzzle st (r # rs)"

lemma used_puzzle_refused:
  assumes "puzzle \<in> set (used_puzzles st)"
  shows "\<exists>e. register_user_secret env q now digits puzzle solution st = (Inl e, st)"
  using assms by (auto simp: register_user_secret_def verify_puzzle_solution_def split: sum.splits)

text \<open>
  The broker marks a puzzle as used before it registers the account. When the reply is lost or the
  registration fails after that, every retry is refused, and the task never ends.
\<close>

lemma registration_stuck:
  assumes "retried env puzzle st rs" and "puzzle \<in> set (used_puzzles st)"
  shows "list_all isl rs"
  using assms
proof (induction rule: retried.induct)
  case (Others st st' rs)
  then show ?case using broker_step_used by blast
next
  case (Retry q now digits solution st r st' rs)
  then obtain e where "r = Inl e" "st' = st"
    using used_puzzle_refused [OF Retry.prems, of env q now digits solution] by auto
  then show ?case using Retry by simp
qed simp

end
