(* ===== verification/Client_Vpn.thy ===== *)
theory Client_Vpn
  imports Client_Conn "HOL-Library.Sublist"
begin

text \<open>
  The VPN mode of the client (binaries/geph5-client/src): the packet queues between the system and
  the IP stack (vpn.rs, the file descriptor tasks of client.rs, the C interface of lib.rs), what
  becomes of a captured stream (\<open>vpn_loop\<close> in vpn.rs), the packets of a captured UDP stream, and the
  routing exceptions and DNS proxy of the Linux version (vpn/linux.rs). The user-space IP stack
  itself (ipstack_geph) is the environment: it takes packets, hands over streams and returns
  packets.
\<close>

section \<open>Packet queues\<close>

text \<open>
  \<open>VPN_CAPTURE\<close> and \<open>VPN_INJECT\<close> are ArrayQueues of 100 packets, a push to a full one is refused; the
  channels to and from the stack are bounded by 100, a send to a full one waits. \<open>up_hand\<close> is the
  packet that the up loop has popped and is sending.
\<close>

record packet_queues =
  vpn_capture :: "bytes list"
  up_hand :: "bytes option"
  captured_ch :: "bytes list"
  injected_ch :: "bytes list"
  vpn_inject :: "bytes list"

definition array_push :: "'p \<Rightarrow> 'p list \<Rightarrow> 'p list" where
  "array_push p q = (if length q < 100 then q @ [p] else q)"

definition send_vpn_packet :: "bytes \<Rightarrow> 'z packet_queues_scheme \<Rightarrow> 'z packet_queues_scheme" where
  "send_vpn_packet bts s = s\<lparr>vpn_capture := array_push bts (vpn_capture s)\<rparr>"

text \<open>An operation that would have to wait is None.\<close>

definition recv_vpn_packet :: "'z packet_queues_scheme \<Rightarrow> (bytes \<times> 'z packet_queues_scheme) option" where
  "recv_vpn_packet s = (case vpn_inject s of [] \<Rightarrow> None | p # ps \<Rightarrow> Some (p, s\<lparr>vpn_inject := ps\<rparr>))"

definition up_pop :: "'z packet_queues_scheme \<Rightarrow> 'z packet_queues_scheme option" where
  "up_pop s =
     (case (up_hand s, vpn_capture s) of
        (None, p # ps) \<Rightarrow> Some (s\<lparr>vpn_capture := ps, up_hand := Some p\<rparr>)
      | _ \<Rightarrow> None)"

definition up_send :: "'z packet_queues_scheme \<Rightarrow> 'z packet_queues_scheme option" where
  "up_send s =
     (case up_hand s of
        Some p \<Rightarrow> if length (captured_ch s) < 100 then Some (s\<lparr>up_hand := None, captured_ch := captured_ch s @ [p]\<rparr>) else None
      | None \<Rightarrow> None)"

definition dn_shuffle :: "'z packet_queues_scheme \<Rightarrow> 'z packet_queues_scheme option" where
  "dn_shuffle s =
     (case injected_ch s of
        [] \<Rightarrow> None
      | p # ps \<Rightarrow> Some (s\<lparr>injected_ch := ps, vpn_inject := array_push p (vpn_inject s)\<rparr>))"

text \<open>
  A run of the queues with the IP stack, when the VPN mode is off: what was sent and received at
  either end so far, and how many packets were refused.
\<close>

record packet_run = packet_queues +
  sent_log :: "bytes list"
  captured_log :: "bytes list"
  injected_log :: "bytes list"
  received_log :: "bytes list"
  lost_up :: nat
  lost_dn :: nat

definition refused :: "'p list \<Rightarrow> nat" where
  "refused q = (if length q < 100 then 0 else 1)"

inductive packet_step :: "packet_run \<Rightarrow> packet_run \<Rightarrow> bool" where
  Send: "packet_step s ((send_vpn_packet p s)\<lparr>sent_log := sent_log s @ [p], lost_up := lost_up s + refused (vpn_capture s)\<rparr>)"
| Up_Pop: "up_pop s = Some t \<Longrightarrow> packet_step s t"
| Up_Send: "up_send s = Some t \<Longrightarrow> packet_step s t"
| Stack_Takes: "captured_ch s = p # ps \<Longrightarrow>
    packet_step s (s\<lparr>captured_ch := ps, captured_log := captured_log s @ [p]\<rparr>)"
| Stack_Returns: "length (injected_ch s) < 100 \<Longrightarrow>
    packet_step s (s\<lparr>injected_ch := injected_ch s @ [p], injected_log := injected_log s @ [p]\<rparr>)"
| Dn_Shuffle: "dn_shuffle s = Some t \<Longrightarrow>
    packet_step s (t\<lparr>lost_dn := lost_dn s + refused (vpn_inject s)\<rparr>)"
| Recv: "recv_vpn_packet s = Some (p, t) \<Longrightarrow> packet_step s (t\<lparr>received_log := received_log s @ [p]\<rparr>)"

definition packet_init :: "packet_run \<Rightarrow> bool" where
  "packet_init s \<longleftrightarrow>
     s = \<lparr>vpn_capture = [], up_hand = None, captured_ch = [], injected_ch = [], vpn_inject = [],
          sent_log = [], captured_log = [], injected_log = [], received_log = [], lost_up = 0, lost_dn = 0\<rparr>"

definition going_up :: "'z packet_queues_scheme \<Rightarrow> bytes list" where
  "going_up s = captured_ch s @ (case up_hand s of None \<Rightarrow> [] | Some p \<Rightarrow> [p]) @ vpn_capture s"

definition going_dn :: "'z packet_queues_scheme \<Rightarrow> bytes list" where
  "going_dn s = vpn_inject s @ injected_ch s"

definition packet_inv :: "packet_run \<Rightarrow> bool" where
  "packet_inv s \<longleftrightarrow>
     (length (vpn_capture s) \<le> 100 \<and> length (captured_ch s) \<le> 100 \<and>
      length (injected_ch s) \<le> 100 \<and> length (vpn_inject s) \<le> 100) \<and>
     subseq (captured_log s @ going_up s) (sent_log s) \<and>
     length (sent_log s) = length (captured_log s @ going_up s) + lost_up s \<and>
     subseq (received_log s @ going_dn s) (injected_log s) \<and>
     length (injected_log s) = length (received_log s @ going_dn s) + lost_dn s"

lemma subseq_drop_middle: "subseq (a @ b # c) l \<Longrightarrow> subseq (a @ c) l"
  by (rule subseq_order.order_trans [of _ "a @ b # c"]) (auto simp: subseq_append')

lemma array_push_bound: "length q \<le> 100 \<Longrightarrow> length (array_push p q) \<le> 100"
  by (simp add: array_push_def)

lemmas queue_ops = up_pop_def up_send_def dn_shuffle_def recv_vpn_packet_def send_vpn_packet_def
  going_up_def going_dn_def array_push_def refused_def

interpretation packets: invariant_system packet_init packet_step packet_inv
proof
  show "packet_inv s" if "packet_init s" for s
    using that by (simp add: packet_init_def packet_inv_def going_up_def going_dn_def)
next
  show "packet_inv t" if "packet_inv s" and "packet_step s t" for s t
    using that(2,1)
  proof cases
    case (Send p)
    have "subseq (captured_log s @ going_up s) (sent_log s @ [p])"
      using that(1) unfolding packet_inv_def by (blast intro: subseq_rev_drop_many)
    moreover have "subseq ((captured_log s @ going_up s) @ [p]) (sent_log s @ [p])"
      using that(1) by (intro list_emb_append_mono) (simp_all add: packet_inv_def)
    ultimately show ?thesis
      using Send that(1) by (auto simp: packet_inv_def queue_ops)
  next
    case (Stack_Returns p)
    have "subseq ((received_log s @ going_dn s) @ [p]) (injected_log s @ [p])"
      using that(1) by (intro list_emb_append_mono) (simp_all add: packet_inv_def)
    then show ?thesis
      using Stack_Returns that(1) by (auto simp: packet_inv_def queue_ops)
  next
    case (Dn_Shuffle u)
    then show ?thesis
      using that(1)
      by (auto simp: packet_inv_def queue_ops split: list.splits
        dest: subseq_drop_middle [of "received_log s @ vpn_inject s", simplified])
  qed (auto simp: packet_inv_def queue_ops split: list.splits option.splits if_splits)
qed

text \<open>
  C34: Packets keep their order between the system and the IP stack, in both directions and whatever
  the interleaving: what comes out is a subsequence of what went in, packets are lost only by a push
  to a queue that holds 100 of them, as many as were refused, and with none refused exactly the
  packets still on the way are missing. The memory for packets is bounded: no queue ever has more than 100.
\<close>

theorem vpn_packets_in_order:
  assumes "reachable packet_init packet_step s"
  shows "subseq (captured_log s) (sent_log s) \<and> subseq (received_log s) (injected_log s) \<and>
    length (sent_log s) = length (captured_log s) + length (going_up s) + lost_up s \<and>
    (lost_up s = 0 \<longrightarrow> sent_log s = captured_log s @ going_up s) \<and>
    (lost_dn s = 0 \<longrightarrow> injected_log s = received_log s @ going_dn s) \<and>
    length (going_up s) \<le> 201 \<and> length (going_dn s) \<le> 200"
proof -
  have inv: "packet_inv s" using assms by (rule packets.reachable_inv)
  have cut: "subseq a l" if "subseq (a @ b) l" for a b l :: "bytes list"
    by (rule subseq_order.order_trans [OF _ that]) (simp add: subseq_rev_drop_many)
  from inv have "subseq (captured_log s) (sent_log s)" "subseq (received_log s) (injected_log s)"
    unfolding packet_inv_def by (blast dest: cut)+
  moreover from inv have "lost_up s = 0 \<Longrightarrow> sent_log s = captured_log s @ going_up s"
    and "lost_dn s = 0 \<Longrightarrow> injected_log s = received_log s @ going_dn s"
    by (auto simp: packet_inv_def intro!: subseq_same_length [symmetric])
  ultimately show ?thesis
    using inv by (auto simp: packet_inv_def going_up_def going_dn_def split: option.splits)
qed

definition packet_start :: packet_run where
  "packet_start =
     \<lparr>vpn_capture = [], up_hand = None, captured_ch = [], injected_ch = [], vpn_inject = [],
      sent_log = [], captured_log = [], injected_log = [], received_log = [], lost_up = 0, lost_dn = 0\<rparr>"

theorem vpn_packets_in_order_witness:
  "reachable packet_init packet_step (packet_start\<lparr>up_hand := Some [7], sent_log := [[7]]\<rparr>) \<and>
   subseq [] [[7 :: byte]] \<and> sent_log (packet_start\<lparr>up_hand := Some [7], sent_log := [[7]]\<rparr>) = [] @ [[7]]"
proof -
  have "reachable packet_init packet_step packet_start"
    by (rule reachable_init) (simp add: packet_init_def packet_start_def)
  from reachable_step [OF this packet_step.Send [of _ "[7]"]]
  have "reachable packet_init packet_step (packet_start\<lparr>vpn_capture := [[7]], sent_log := [[7]]\<rparr>)"
    by (simp add: packet_start_def queue_ops)
  then have r: "reachable packet_init packet_step (packet_start\<lparr>up_hand := Some [7], sent_log := [[7]]\<rparr>)"
    by (rule reachable_step) (rule packet_step.Up_Pop, simp add: packet_start_def queue_ops)
  show ?thesis
    using vpn_packets_in_order [OF r] r by (simp add: packet_start_def going_up_def)
qed

subsection \<open>The ends of the queues\<close>

text \<open>
  With a file descriptor (\<open>vpn_fd\<close>) the client reads and writes packets itself. Each entry is the
  result of one read into 65535 bytes; the flag says that the task has ended.
\<close>

fun fd_read_task :: "(io_error + bytes) list \<Rightarrow> 'z packet_queues_scheme \<Rightarrow> 'z packet_queues_scheme \<times> bool" where
  "fd_read_task [] s = (s, False)"
| "fd_read_task (Inl e # rs) s = (s, True)"
| "fd_read_task (Inr bs # rs) s = (if bs = [] then (s, True) else fd_read_task rs (send_vpn_packet bs s))"

text \<open>For each packet the results of writing it in full and of flushing.\<close>

fun fd_write_task ::
    "((io_error + unit) \<times> (io_error + unit)) list \<Rightarrow> 'z packet_queues_scheme \<Rightarrow> bytes list \<times> 'z packet_queues_scheme \<times> bool" where
  "fd_write_task [] s = ([], s, False)"
| "fd_write_task ((w, f) # ws) s =
     (case recv_vpn_packet s of
        None \<Rightarrow> ([], s, False)
      | Some (packet, s') \<Rightarrow>
          (case (w, f) of
             (Inl _, _) \<Rightarrow> ([], s', True)
           | (Inr _, Inl _) \<Rightarrow> ([packet], s', True)
           | (Inr _, Inr _) \<Rightarrow> (let (ps, t, e) = fd_write_task ws s' in (packet # ps, t, e))))"

text \<open>What the descriptor is given back are the packets of the queue in order, without gaps.\<close>

lemma fd_write_prefix:
  "fd_write_task ws s = (ps, t, ended) \<Longrightarrow>
     \<exists>lost. vpn_inject s = ps @ lost @ vpn_inject t \<and> length lost \<le> (if ended then 1 else 0)"
proof (induction ws s arbitrary: ps t ended rule: fd_write_task.induct)
  case (2 w f ws s)
  show ?case
  proof (cases "vpn_inject s")
    case Nil
    then show ?thesis using 2(2) by (simp add: recv_vpn_packet_def)
  next
    case (Cons p qs)
    then have r: "recv_vpn_packet s = Some (p, s\<lparr>vpn_inject := qs\<rparr>)" by (simp add: recv_vpn_packet_def)
    obtain ps' t' e' where rest: "fd_write_task ws (s\<lparr>vpn_inject := qs\<rparr>) = (ps', t', e')" by (metis prod_cases3)
    from 2(2) consider "ps = []" "t = s\<lparr>vpn_inject := qs\<rparr>" "ended" | "ps = [p]" "t = s\<lparr>vpn_inject := qs\<rparr>" "ended"
      | u v where "w = Inr u" "f = Inr v" "ps = p # ps'" "t = t'" "ended = e'"
      by (cases w; cases f) (auto simp: r rest)
    then show ?thesis
      using "2.IH" [OF r refl refl _ _ rest] Cons by cases auto
  qed
qed simp

text \<open>
  The C interface: the return code and the caller's buffer afterwards. The buffer has \<open>out_buflen\<close>
  bytes.
\<close>

definition slice_write_all :: "bytes \<Rightarrow> bytes \<Rightarrow> bytes option" where
  "slice_write_all sl out = (if length out \<le> length sl then Some (out @ drop (length out) sl) else None)"

definition fill_buffer :: "bytes \<Rightarrow> bytes \<Rightarrow> int \<times> bytes" where
  "fill_buffer buffer out =
     (if length out < length buffer then
        (case slice_write_all buffer out of None \<Rightarrow> (- 4, buffer) | Some b \<Rightarrow> (int (length out), b))
      else (- 3, buffer))"

text \<open>\<open>CLIENT\<close> is set once; a text that is no configuration panics. A second start changes nothing.\<close>

definition start_client :: "(string \<Rightarrow> 'cfg option) \<Rightarrow> string \<Rightarrow> 'cfg option \<Rightarrow> (int \<times> 'cfg option) option" where
  "start_client from_json cfg_str client =
     map_option (\<lambda>cfg. (0, Some (case client of None \<Rightarrow> cfg | Some running \<Rightarrow> running))) (from_json cfg_str)"

text \<open>
  A request in JSON is answered by the control service; \<open>respond\<close> gives the text of the answer.
  The C string ends with a zero byte, and a zero byte inside the answer panics.
\<close>

definition daemon_rpc ::
    "(string \<Rightarrow> 'req option) \<Rightarrow> ('cfg \<Rightarrow> 'req \<Rightarrow> bytes) \<Rightarrow> string \<Rightarrow> bytes \<Rightarrow> 'cfg option \<Rightarrow> (int \<times> bytes) option" where
  "daemon_rpc parse_req respond req_str out_buf client =
     Option.bind (parse_req req_str) (\<lambda>jrpc.
       case client of
         None \<Rightarrow> Some (- 1, out_buf)
       | Some c \<Rightarrow>
           (let response = respond c jrpc
            in if 0 \<in> set response then None else Some (fill_buffer out_buf (response @ [0]))))"

definition send_pkt :: "bytes \<Rightarrow> 'cfg option \<Rightarrow> packet_queues \<Rightarrow> int \<times> packet_queues" where
  "send_pkt pkt client s = (case client of None \<Rightarrow> (- 1, s) | Some _ \<Rightarrow> (0, send_vpn_packet pkt s))"

text \<open>None while there is no packet.\<close>

definition recv_pkt :: "bytes \<Rightarrow> 'cfg option \<Rightarrow> packet_queues \<Rightarrow> ((int \<times> bytes) \<times> packet_queues) option" where
  "recv_pkt out_buf client s =
     (case client of
        None \<Rightarrow> Some ((- 1, out_buf), s)
      | Some _ \<Rightarrow> map_option (\<lambda>(pkt, s'). (fill_buffer out_buf pkt, s')) (recv_vpn_packet s))"

lemma fill_buffer_spec:
  "fst (fill_buffer buffer out) = (if length out < length buffer then int (length out) else - 3) \<and>
   length (snd (fill_buffer buffer out)) = length buffer \<and>
   (length out < length buffer \<longrightarrow> take (length out) (snd (fill_buffer buffer out)) = out)"
  by (simp add: fill_buffer_def slice_write_all_def)

text \<open>
  Through the C interface: a packet from the stack reaches the caller whole when the buffer is
  longer than it; a buffer of just its size is refused, and the packet is gone.
\<close>

lemma recv_pkt_spec:
  assumes "vpn_inject s = p # ps"
  shows "recv_pkt buf (Some c) s =
    Some (if length p < length buf then (int (length p), p @ drop (length p) buf) else (- 3, buf), s\<lparr>vpn_inject := ps\<rparr>)"
  using assms by (simp add: recv_pkt_def recv_vpn_packet_def fill_buffer_def slice_write_all_def)

text \<open>
  Packets over standard input and output (\<open>run_stdio_vpn\<close> of bin/geph5-client.rs), with lengths of 16
  bits, most significant byte first. The reading thread ends without an error when the input ends
  before or inside a length, with one when it ends inside a packet.
\<close>

fun stdio_reader :: "nat \<Rightarrow> bytes \<Rightarrow> 'z packet_queues_scheme \<Rightarrow> (io_error + unit) \<times> 'z packet_queues_scheme" where
  "stdio_reader 0 inp s = (Inr (), s)"
| "stdio_reader (Suc fuel) inp s =
     (case read_exact 2 inp of
        Inl e \<Rightarrow> (if kind e = UnexpectedEof then (Inr (), s) else (Inl e, s))
      | Inr (length_buf, rest) \<Rightarrow>
          (case read_exact (of_be_bytes length_buf) rest of
             Inl e \<Rightarrow> (Inl e, s)
           | Inr (packet_buf, rest') \<Rightarrow> stdio_reader fuel rest' (send_vpn_packet packet_buf s)))"

definition stdio_read_all :: "bytes \<Rightarrow> 'z packet_queues_scheme \<Rightarrow> (io_error + unit) \<times> 'z packet_queues_scheme" where
  "stdio_read_all inp = stdio_reader (Suc (length inp)) inp"

definition stdio_frame :: "bytes \<Rightarrow> bytes" where
  "stdio_frame packet = be_bytes 2 (min (length packet) 65535) @ packet"

text \<open>Every packet takes two bytes at least, so fuel above the length of the input is never used up.\<close>

lemma stdio_reader_fuel:
  "length inp < n \<Longrightarrow> length inp < m \<Longrightarrow> stdio_reader n inp s = stdio_reader m inp s"
proof (induction n arbitrary: m inp s)
  case (Suc n)
  then obtain m' where m: "m = Suc m'" by (cases m) auto
  show ?case
  proof (cases "length inp < 2")
    case True
    then show ?thesis by (simp add: m)
  next
    case False
    define len where "len = of_be_bytes (take 2 inp)"
    have r: "read_exact 2 inp = Inr (take 2 inp, drop 2 inp)" using False by (simp add: read_exact_def)
    have "stdio_reader n (drop len (drop 2 inp)) t = stdio_reader m' (drop len (drop 2 inp)) t" for t :: "'a packet_queues_scheme"
      using Suc.prems False m by (intro Suc.IH) auto
    then show ?thesis
      by (simp add: m r read_exact_def del: drop_drop flip: len_def)
  qed
qed simp

lemma stdio_reader_frames:
  assumes "list_all (\<lambda>p. length p < 2 ^ 16) packets" and "length packets \<le> n"
  shows "stdio_reader (Suc n) (concat (map stdio_frame packets)) s = (Inr (), fold send_vpn_packet packets s)"
  using assms
proof (induction packets arbitrary: s n)
  case Nil
  then show ?case by (simp add: eof_error_def)
next
  case (Cons p ps)
  then obtain k where "n = Suc k" "length ps \<le> k" by (cases n) auto
  moreover have "of_be_bytes (be_bytes 2 (length p)) = length p" "min (length p) 65535 = length p"
    using Cons.prems by (simp_all add: codec_simps)
  ultimately show ?case using Cons by (simp add: stdio_frame_def)
qed

text \<open>
  A program that runs the client and speaks the format of the client's own output gets its packets
  into the queue unchanged and in order, whatever their number.
\<close>

lemma stdio_roundtrip:
  assumes "list_all (\<lambda>p. length p < 2 ^ 16) packets"
  shows "stdio_read_all (concat (map stdio_frame packets)) s = (Inr (), fold send_vpn_packet packets s)"
proof -
  have "length packets \<le> length (concat (map stdio_frame packets))"
    by (induction packets) (auto simp: stdio_frame_def)
  then show ?thesis using stdio_reader_frames [OF assms] by (simp add: stdio_read_all_def)
qed

text \<open>A packet that is too long for the length field is written whole after a length of 65535.\<close>

lemma stdio_frame_long:
  "65535 < length p \<Longrightarrow> \<exists>extra. extra \<noteq> [] \<and> stdio_frame p = be_bytes 2 65535 @ take 65535 p @ extra"
  by (rule exI [of _ "drop 65535 p"]) (simp add: stdio_frame_def)

section \<open>Captured streams\<close>

text \<open>
  What the IP stack hands over: streams with the address of their peer. Each becomes a task that
  opens a connection and copies, or that answers DNS questions with fake addresses; with a limit
  the tasks go to the pool, whose oldest task a new one pushes out.
\<close>

datatype IpStackStream = Tcp_Stream SocketAddr | Udp_Stream SocketAddr | UnknownTransport | UnknownNetwork

datatype vpn_task = Copy_Tcp string | Answer_Dns | Copy_Udp string

record vpn_config =
  cfg_spoof_dns :: bool
  cfg_task_limit :: "nat option"

definition resolver_addr :: SocketAddr where
  "resolver_addr = \<lparr>sa_ip = V4 0x01010101, sa_port = 53\<rparr>"

fun vpn_task_of :: "addr_syntax \<Rightarrow> vpn_config \<Rightarrow> IpStackStream \<Rightarrow> vpn_task option" where
  "vpn_task_of sx cfg (Tcp_Stream peer_addr) = Some (Copy_Tcp (show_sock sx peer_addr))"
| "vpn_task_of sx cfg (Udp_Stream peer) =
     (let peer_addr = (if sa_port peer = 53 then resolver_addr else peer)
      in if sa_port peer_addr = 53 \<and> cfg_spoof_dns cfg then Some Answer_Dns
         else Some (Copy_Udp (show_sock sx peer_addr)))"
| "vpn_task_of sx cfg UnknownTransport = None"
| "vpn_task_of sx cfg UnknownNetwork = None"

text \<open>The tasks of the pool and the detached ones.\<close>

definition vpn_accept ::
    "addr_syntax \<Rightarrow> vpn_config \<Rightarrow> IpStackStream \<Rightarrow> vpn_task list \<times> vpn_task list \<Rightarrow> vpn_task list \<times> vpn_task list" where
  "vpn_accept sx cfg captured ts =
     (case vpn_task_of sx cfg captured of
        None \<Rightarrow> ts
      | Some task \<Rightarrow>
          (case cfg_task_limit cfg of
             Some limit \<Rightarrow> (add_task limit task (fst ts), snd ts)
           | None \<Rightarrow> (fst ts, snd ts @ [task])))"

fun vpn_task_open :: "conn_env \<Rightarrow> fake_dns \<Rightarrow> vpn_task \<Rightarrow> ((string + opened) \<times> IpAddr list) option" where
  "vpn_task_open env ctx (Copy_Tcp addr) = Some (open_conn env ctx ''tcp'' addr)"
| "vpn_task_open env ctx (Copy_Udp addr) = Some (open_conn env ctx ''udp'' addr)"
| "vpn_task_open env ctx Answer_Dns = None"

lemma vpn_tasks_bounded:
  assumes "cfg_task_limit cfg = Some limit"
  shows "length (fst (fold (vpn_accept sx cfg) streams ([], []))) \<le> max 1 limit \<and>
    snd (fold (vpn_accept sx cfg) streams ([], [])) = []"
proof -
  have step: "length (fst (vpn_accept sx cfg c ts)) \<le> max 1 limit \<and> snd (vpn_accept sx cfg c ts) = []"
    if "length (fst ts) \<le> max 1 limit \<and> snd ts = []" for c ts
    using that assms add_task_bound by (auto simp: vpn_accept_def split: option.splits)
  have "length (fst ts) \<le> max 1 limit \<and> snd ts = [] \<Longrightarrow>
      length (fst (fold (vpn_accept sx cfg) streams ts)) \<le> max 1 limit \<and> snd (fold (vpn_accept sx cfg) streams ts) = []" for ts
  proof (induction streams arbitrary: ts)
    case (Cons c cs)
    from Cons.IH [OF step [OF Cons.prems]] show ?case by simp
  qed simp
  then show ?thesis by simp
qed

subsection \<open>UDP packets\<close>

text \<open>What the up loop writes for a packet, and what the down loop reads for one.\<close>

definition vpn_up_packet :: "bytes \<Rightarrow> bytes" where
  "vpn_up_packet to_up = u16_le (word_of_nat (length to_up)) @ to_up"

definition vpn_dn_packet :: "bytes \<Rightarrow> io_error + bytes \<times> bytes" where
  "vpn_dn_packet read_tunneled =
     result_bind (read_exact 2 read_tunneled) (\<lambda>(len_buf, rest). read_exact (unat (u16_of_le len_buf)) rest)"

lemma vpn_udp_same: "vpn_up_packet = udp_frame" "vpn_dn_packet = udp_read"
  by (rule ext, simp add: vpn_up_packet_def vpn_dn_packet_def udp_frame_def udp_read_def)+

interpretation vpn_udp: stream_codec vpn_up_packet vpn_dn_packet "\<lambda>p. length p < 2 ^ 16"
  unfolding vpn_udp_same by (rule udp_codec.stream_codec_axioms)

text \<open>
  A destination that \<open>open_conn\<close> leaves as it is and does not connect to directly. \<open>show_parse_ok\<close> is
  what the code relies on of std::net: an address that is printed is parsed as itself.
\<close>

definition goes_through :: "conn_env \<Rightarrow> fake_dns \<Rightarrow> string \<Rightarrow> bool" where
  "goes_through env ctx dest \<longleftrightarrow>
     real_dest env ctx dest = dest \<and>
     (case rsplit_once CHR '':'' dest of None \<Rightarrow> True | Some (host, _) \<Rightarrow> \<not> whitelist_host env host)"

definition show_parse_ok :: "addr_syntax \<Rightarrow> SocketAddr \<Rightarrow> bool" where
  "show_parse_ok sx a \<longleftrightarrow> parse_sock sx (show_sock sx a) = Some a"

lemma goes_through_open:
  "goes_through env ctx dest \<Longrightarrow> open_conn env ctx prot dest = (Inr (Tunnelled (prot @ ''$'' @ dest)), [])"
  by (auto simp: goes_through_def open_conn_def Let_def split: option.splits)

lemma stream_target_prefix: "stream_target (''udp'' @ ''$'' @ dest) = (''udp'', dest)"
  by (simp add: stream_target_def)

lemma exit_udp_action:
  assumes "parse_sockaddr denv dest = Some addr" and "proxy_allowed whitelist addr is_free"
  shows "proxy_stream denv whitelist now f (''udp'' @ ''$'' @ dest) is_free cache = (choose_action ''udp'' [addr], cache)"
  using assms unfolding proxy_stream_def stream_target_prefix by (simp add: dns_resolve_def)

text \<open>
  C32: A UDP stream captured on the client's machine ends at its peer. When the exit parses addresses
  as the client does and allows the peer, a stream to an IPv4 peer that is neither a name server nor
  QUIC makes the exit open a UDP socket to this very peer; the exit reads from the tunnel the packets
  of the stream, one datagram each, and the stream receives the datagrams that the exit got, each cut
  to 8190 bytes, in order.
\<close>

theorem vpn_udp_reaches_peer:
  assumes "sa_ip peer = V4 a" and "sa_port peer \<noteq> 53" and "sa_port peer \<noteq> 443"
    and "parse_sockaddr denv = parse_sock sx" and "show_parse_ok sx peer"
    and "goes_through env ctx (show_sock sx peer)" and "proxy_allowed whitelist peer is_free"
    and "list_all (\<lambda>p. length p < 2 ^ 16) packets"
  shows "\<exists>task meta. vpn_task_of sx cfg (Udp_Stream peer) = Some task \<and>
    vpn_task_open env ctx task = Some (Inr (Tunnelled meta), []) \<and>
    fst (proxy_stream denv whitelist now f meta is_free cache) = Inr (Proxy_Udp peer) \<and>
    read_many udp_read (length packets) (concat (map vpn_up_packet packets) @ rest) = Inr (packets, rest) \<and>
    read_many vpn_dn_packet (length datagrams) (concat (map udp_down datagrams) @ rest) =
      Inr (map (take 8190) datagrams, rest)"
proof -
  have dn: "concat (map udp_down datagrams) = concat (map vpn_up_packet (map (take 8190) datagrams))"
    by (simp add: udp_down_def [abs_def] comp_def vpn_udp_same)
  have "fst (proxy_stream denv whitelist now f (''udp'' @ ''$'' @ show_sock sx peer) is_free cache) = Inr (Proxy_Udp peer)"
    using exit_udp_action [of denv "show_sock sx peer" peer whitelist is_free now f cache] assms
    by (simp add: show_parse_ok_def choose_action_def is_ipv4_def)
  moreover have "\<forall>p \<in> set (map (take 8190) datagrams). length p < 2 ^ 16" by auto
  then have "read_many vpn_dn_packet (length datagrams) (concat (map udp_down datagrams) @ rest) =
      Inr (map (take 8190) datagrams, rest)"
    using vpn_udp.read_many_encoded [of "map (take 8190) datagrams" rest] unfolding dn by simp
  moreover have "read_many udp_read (length packets) (concat (map vpn_up_packet packets) @ rest) = Inr (packets, rest)"
    using udp_codec.read_many_encoded [of packets rest] assms(8) by (simp add: vpn_udp_same list_all_iff)
  ultimately show ?thesis
    using assms(2) goes_through_open [OF assms(6), of "''udp''"] by (simp add: Let_def)
qed

definition peer_syntax :: addr_syntax where
  "peer_syntax = tiny_syntax\<lparr>parse_sock := (\<lambda>s. if s = ''p:9'' then Some \<lparr>sa_ip = V4 0x01010101, sa_port = 9\<rparr>
     else if s = ''r:53'' then Some resolver_addr else None),
     show_sock := (\<lambda>a. if sa_port a = 9 then ''p:9'' else ''r:53'')\<rparr>"

lemma peer_goes_through:
  assumes "dest = ''p:9'' \<or> dest = ''r:53''"
  shows "goes_through (example_conn\<lparr>addr_sx := peer_syntax\<rparr>) \<lparr>forward_map = Map.empty, backward_map = Map.empty\<rparr> dest"
  using assms
  by (auto simp: goes_through_def real_dest_def peer_syntax_def tiny_syntax_def example_conn_def fake_dns_backtranslate_def
      resolver_addr_def rsplit_once_def whitelist_host_def is_chinese_host_def tiny_v4_def)

lemma one_allowed: "is_globally_routable (V4 0x01010101)"
  by (simp add: is_globally_routable_def v4_table blocked_v4_def in_net_iff)

theorem vpn_udp_reaches_peer_witness:
  "\<exists>task meta. vpn_task_of peer_syntax \<lparr>cfg_spoof_dns = True, cfg_task_limit = None\<rparr>
       (Udp_Stream \<lparr>sa_ip = V4 0x01010101, sa_port = 9\<rparr>) = Some task \<and>
    vpn_task_open (example_conn\<lparr>addr_sx := peer_syntax\<rparr>) \<lparr>forward_map = Map.empty, backward_map = Map.empty\<rparr> task =
      Some (Inr (Tunnelled meta), []) \<and>
    fst (proxy_stream (example_dns\<lparr>parse_sockaddr := parse_sock peer_syntax\<rparr>) [9] 0 \<lparr>nsfw = False, ads = False\<rparr> meta True Map.empty) =
      Inr (Proxy_Udp \<lparr>sa_ip = V4 0x01010101, sa_port = 9\<rparr>) \<and>
    read_many udp_read (length [[1 :: byte], []]) (concat (map vpn_up_packet [[1], []]) @ [7]) = Inr ([[1], []], [7]) \<and>
    read_many vpn_dn_packet (length [[2 :: byte]]) (concat (map udp_down [[2]]) @ [7]) = Inr (map (take 8190) [[2]], [7])"
  by (rule vpn_udp_reaches_peer)
     (use one_allowed peer_goes_through in \<open>simp_all add: show_parse_ok_def peer_syntax_def proxy_allowed_def\<close>)

section \<open>The Linux version\<close>

text \<open>
  \<open>WHITELIST\<close>: an address that is put in adds a rule to the routing policy of the kernel, which
  dropping the entry deletes. The kernel keeps rules that are added twice; deleting removes one.
\<close>

record linux_routes =
  whitelist_entries :: "IpAddr list"
  kernel_rules :: "IpAddr list"

definition vpn_whitelist :: "IpAddr \<Rightarrow> linux_routes \<Rightarrow> linux_routes" where
  "vpn_whitelist addr s =
     (if addr \<in> set (whitelist_entries s) then s
      else s\<lparr>whitelist_entries := addr # whitelist_entries s, kernel_rules := addr # kernel_rules s\<rparr>)"

definition teardown_whitelist :: "linux_routes \<Rightarrow> linux_routes" where
  "teardown_whitelist s = s\<lparr>whitelist_entries := [], kernel_rules := fold remove1 (whitelist_entries s) (kernel_rules s)\<rparr>"

definition routes_inv :: "IpAddr multiset \<Rightarrow> linux_routes \<Rightarrow> bool" where
  "routes_inv foreign s \<longleftrightarrow> distinct (whitelist_entries s) \<and> mset (kernel_rules s) = foreign + mset (whitelist_entries s)"

lemma vpn_whitelist_inv: "routes_inv foreign s \<Longrightarrow> routes_inv foreign (vpn_whitelist addr s)"
  by (auto simp: routes_inv_def vpn_whitelist_def)

lemma mset_fold_remove1: "mset (fold remove1 xs ys) = mset ys - mset xs"
  by (induction xs arbitrary: ys) (simp_all add: diff_diff_add_mset)

text \<open>
  Whatever addresses the client exempts from the VPN, however often, each has exactly one rule in
  the kernel as long as the VPN runs, and taking the VPN down leaves the rules that were there before.
\<close>

theorem whitelist_rules_balanced:
  "let s = fold vpn_whitelist addrs \<lparr>whitelist_entries = [], kernel_rules = rules\<rparr>
   in set (whitelist_entries s) = set addrs \<and>
      mset (kernel_rules s) = mset rules + mset_set (set addrs) \<and>
      mset (kernel_rules (teardown_whitelist s)) = mset rules"
proof -
  define s where "s = fold vpn_whitelist addrs \<lparr>whitelist_entries = [], kernel_rules = rules\<rparr>"
  have "routes_inv (mset rules) t \<Longrightarrow> routes_inv (mset rules) (fold vpn_whitelist addrs t)" for t
    by (induction addrs arbitrary: t) (simp_all add: vpn_whitelist_inv)
  then have inv: "routes_inv (mset rules) s" by (simp add: s_def routes_inv_def)
  have "set (whitelist_entries (fold vpn_whitelist addrs t)) = set addrs \<union> set (whitelist_entries t)" for t
    by (induction addrs arbitrary: t) (auto simp: vpn_whitelist_def)
  then have e: "set (whitelist_entries s) = set addrs" by (simp add: s_def)
  with inv have "mset (whitelist_entries s) = mset_set (set addrs)"
    by (metis routes_inv_def mset_set_set)
  with inv e show ?thesis
    by (simp add: routes_inv_def teardown_whitelist_def mset_fold_remove1 Let_def flip: s_def)
qed

text \<open>
  The DNS proxy on the loopback interface: a question is answered with fake addresses, or sent
  over a stream of its own, of whose bytes one answer is read.
\<close>

datatype dns_proxy_task = Fake_Answer | Ask_Tunnel "string + opened" bytes

definition dns_proxy_request :: "vpn_config \<Rightarrow> conn_env \<Rightarrow> fake_dns \<Rightarrow> bytes \<Rightarrow> dns_proxy_task" where
  "dns_proxy_request cfg env ctx buf =
     (if cfg_spoof_dns cfg then Fake_Answer
      else Ask_Tunnel (fst (open_conn env ctx ''udp'' ''1.1.1.1:53'')) (u16_le (word_of_nat (length buf)) @ buf))"

definition dns_proxy_reply :: "bytes \<Rightarrow> io_error + bytes" where
  "dns_proxy_reply conn =
     result_bind (read_exact 2 conn) (\<lambda>(len_buf, rest).
       result_bind (read_exact (unat (u16_of_le len_buf)) rest) (\<lambda>(buf, _). Inr buf))"

text \<open>
  \<open>proxy_dns\<close> of the exit (proxy.rs): every question of the stream is a task of its own; \<open>order\<close> has
  the indices of the questions in the order in which their tasks get the lock to write.
\<close>

definition proxy_dns :: "dns_env \<Rightarrow> FilterOptions \<Rightarrow> nat list \<Rightarrow> bytes list \<Rightarrow> bytes" where
  "proxy_dns denv f order packets =
     concat (map (\<lambda>i. case raw_dns_respond denv (packets ! i) f of
        Inl _ \<Rightarrow> []
      | Inr response \<Rightarrow> u16_le (word_of_nat (length response)) @ response) order)"

text \<open>
  Name resolution through the tunnel: a question that the DNS proxy of the client receives arrives
  at the exit unchanged, which answers it itself, after the filters of the user, whatever server the
  question was meant for; the answer reaches the proxy unchanged. The same exit action results from
  UDP packets to port 53 of any peer that are captured.
\<close>

theorem dns_question_answered:
  assumes "\<not> cfg_spoof_dns cfg" and "goes_through env ctx ''1.1.1.1:53''"
    and "parse_sockaddr denv ''1.1.1.1:53'' = Some resolver_addr" and "show_sock sx resolver_addr = ''1.1.1.1:53''"
    and "\<not> is_free \<or> 53 \<in> set whitelist" and "length question < 2 ^ 16"
    and "raw_dns_respond denv question f = Inr response" and "length response < 2 ^ 16"
  shows "\<exists>meta up. dns_proxy_request cfg env ctx question = Ask_Tunnel (Inr (Tunnelled meta)) up \<and>
    fst (proxy_stream denv whitelist now f meta is_free cache) = Inr Proxy_Dns \<and>
    udp_read up = Inr (question, []) \<and>
    dns_proxy_reply (proxy_dns denv f [0] [question]) = Inr response \<and>
    (sa_port peer = 53 \<longrightarrow> vpn_task_of sx cfg (Udp_Stream peer) = Some (Copy_Udp (show_sock sx resolver_addr)) \<and>
       vpn_task_open env ctx (Copy_Udp (show_sock sx resolver_addr)) = Some (Inr (Tunnelled meta), []))"
proof -
  let ?dest = "''1.1.1.1:53''"
  have allowed: "proxy_allowed whitelist resolver_addr is_free"
    using assms(5) one_allowed by (simp add: proxy_allowed_def resolver_addr_def)
  have act: "fst (proxy_stream denv whitelist now f (''udp'' @ ''$'' @ ?dest) is_free cache) = Inr Proxy_Dns"
    using exit_udp_action [OF assms(3) allowed] by (simp add: choose_action_def is_ipv4_def resolver_addr_def)
  have req: "dns_proxy_request cfg env ctx question = Ask_Tunnel (Inr (Tunnelled (''udp'' @ ''$'' @ ?dest))) (udp_frame question)"
    using assms(1) goes_through_open [OF assms(2), of "''udp''"] by (simp add: dns_proxy_request_def udp_frame_def)
  have q: "udp_read (udp_frame question) = Inr (question, [])"
    using udp_codec.rd_enc [OF assms(6), of "[]"] by simp
  have "dns_proxy_reply (udp_frame response) = Inr response"
    using udp_codec.rd_enc [OF assms(8), of "[]"]
    by (auto simp: udp_read_def dns_proxy_reply_def result_bind_Inr_iff split: sum.splits)
  moreover have "proxy_dns denv f [0] [question] = udp_frame response"
    using assms(7) by (simp add: proxy_dns_def udp_frame_def)
  moreover have "sa_port peer = 53 \<longrightarrow> vpn_task_of sx cfg (Udp_Stream peer) = Some (Copy_Udp (show_sock sx resolver_addr))"
    using assms(1) by (simp add: Let_def)
  moreover have "vpn_task_open env ctx (Copy_Udp (show_sock sx resolver_addr)) = Some (Inr (Tunnelled (''udp'' @ ''$'' @ ?dest)), [])"
    using goes_through_open [OF assms(2), of "''udp''"] by (simp add: assms(4))
  ultimately show ?thesis using req act q by auto
qed

theorem dns_question_answered_witness:
  "\<exists>meta up. dns_proxy_request \<lparr>cfg_spoof_dns = False, cfg_task_limit = None\<rparr> (example_conn\<lparr>addr_sx := peer_syntax\<rparr>)
      \<lparr>forward_map = Map.empty, backward_map = Map.empty\<rparr> [1, 2] = Ask_Tunnel (Inr (Tunnelled meta)) up \<and>
    fst (proxy_stream (example_dns\<lparr>parse_sockaddr := (\<lambda>_. Some resolver_addr)\<rparr>) [53] 0 \<lparr>nsfw = True, ads = False\<rparr> meta True Map.empty) =
      Inr Proxy_Dns \<and>
    udp_read up = Inr ([1, 2], []) \<and>
    dns_proxy_reply (proxy_dns (example_dns\<lparr>parse_sockaddr := (\<lambda>_. Some resolver_addr)\<rparr>) \<lparr>nsfw = True, ads = False\<rparr> [0] [[1, 2]]) =
      Inr [1, 2]"
proof -
  let ?ctx = "\<lparr>forward_map = Map.empty, backward_map = Map.empty\<rparr> :: fake_dns"
  have "goes_through (example_conn\<lparr>addr_sx := peer_syntax\<rparr>) ?ctx ''1.1.1.1:53''"
    by (simp add: goes_through_def real_dest_def peer_syntax_def tiny_syntax_def example_conn_def
        rsplit_once_def whitelist_host_def is_chinese_host_def tiny_v4_def)
  from dns_question_answered [OF _ this, of "\<lparr>cfg_spoof_dns = False, cfg_task_limit = None\<rparr>"
      "example_dns\<lparr>parse_sockaddr := (\<lambda>_. Some resolver_addr)\<rparr>" "peer_syntax\<lparr>show_sock := (\<lambda>_. ''1.1.1.1:53'')\<rparr>"
      True "[53]" "[1, 2]" "\<lparr>nsfw = True, ads = False\<rparr>" "[1, 2]" 0 Map.empty resolver_addr]
  show ?thesis by (auto simp: example_dns_def raw_dns_respond_def)
qed

text \<open>On one stream the answers come in the order in which their tasks finish, each of them whole.\<close>

lemma proxy_dns_answers:
  assumes "list_all (\<lambda>i. \<exists>r. raw_dns_respond denv (packets ! i) f = Inr r \<and> length r < 2 ^ 16) order"
  shows "read_many vpn_dn_packet (length order) (proxy_dns denv f order packets) =
    Inr (map (\<lambda>i. projr (raw_dns_respond denv (packets ! i) f)) order, [])"
proof -
  let ?rs = "map (\<lambda>i. projr (raw_dns_respond denv (packets ! i) f)) order"
  have "proxy_dns denv f order packets = concat (map vpn_up_packet ?rs)"
    using assms by (induction order) (auto simp: proxy_dns_def vpn_up_packet_def)
  moreover have "\<forall>r \<in> set ?rs. length r < 2 ^ 16"
    using assms by (auto simp: list_all_iff)
  ultimately show ?thesis using vpn_udp.read_many_encoded [of ?rs "[]"] by simp
qed

end
