(* ===== verification/Client_App.thy ===== *)
theory Client_App
  imports Client_Dialer Client_Rpc Client_Vpn Client_Auth
begin

text \<open>
  The client as a whole (binaries/geph5-client/src): waiting for values of the store (database.rs)
  and for tokens (auth.rs), the configuration and the loops that run (client.rs), the sessions and
  the state they report (client_inner.rs), the transports that a configuration describes (broker.rs),
  the remaining handlers of the control protocol (control_prot.rs) and the server of the proxy
  configuration file (pac.rs).
\<close>

section \<open>Waiting for the store\<close>

text \<open>
  \<open>db_read_or_wait\<close> registers a listener, then reads, then waits for a notification. A writer first
  changes the table and then notifies every listener that is registered at that moment, so other
  tasks may run between the two; \<open>unnotified\<close> counts the writers that are in between.
\<close>

datatype 'v waiter = W_Start | W_Listen bool | W_Await bool | W_Done 'v

record ('i, 'v) waiting_store =
  ws_db :: "'v kv"
  ws_unnotified :: nat
  ws_waiters :: "'i \<Rightarrow> 'v waiter"

fun notified :: "'v waiter \<Rightarrow> 'v waiter" where
  "notified (W_Listen _) = W_Listen True"
| "notified (W_Await _) = W_Await True"
| "notified w = w"

inductive wait_step :: "('i \<Rightarrow> string) \<Rightarrow> ('i, 'v) waiting_store \<Rightarrow> ('i, 'v) waiting_store \<Rightarrow> bool" for key where
  Listen: "ws_waiters s i = W_Start \<Longrightarrow> wait_step key s (s\<lparr>ws_waiters := (ws_waiters s)(i := W_Listen False)\<rparr>)"
| Read: "ws_waiters s i = W_Listen n \<Longrightarrow>
    wait_step key s (s\<lparr>ws_waiters := (ws_waiters s)(i :=
      case db_read (key i) (ws_db s) of Some v \<Rightarrow> W_Done v | None \<Rightarrow> W_Await n)\<rparr>)"
| Wake: "ws_waiters s i = W_Await True \<Longrightarrow> wait_step key s (s\<lparr>ws_waiters := (ws_waiters s)(i := W_Start)\<rparr>)"
| Write: "wait_step key s (s\<lparr>ws_db := db_write k v (ws_db s), ws_unnotified := ws_unnotified s + 1\<rparr>)"
| Remove: "wait_step key s (s\<lparr>ws_db := db_remove k (ws_db s), ws_unnotified := ws_unnotified s + 1\<rparr>)"
| Notify: "0 < ws_unnotified s \<Longrightarrow>
    wait_step key s (s\<lparr>ws_unnotified := ws_unnotified s - 1, ws_waiters := notified \<circ> ws_waiters s\<rparr>)"

inductive_cases wait_stepE: "wait_step key s t"

definition wait_init :: "('i, 'v) waiting_store \<Rightarrow> bool" where
  "wait_init s \<longleftrightarrow> ws_unnotified s = 0 \<and> (\<forall>i. ws_waiters s i = W_Start)"

definition wait_inv :: "('i \<Rightarrow> string) \<Rightarrow> ('i, 'v) waiting_store \<Rightarrow> bool" where
  "wait_inv key s \<longleftrightarrow>
     (\<forall>i. ws_waiters s i = W_Await False \<longrightarrow> db_read (key i) (ws_db s) \<noteq> None \<longrightarrow> 0 < ws_unnotified s)"

lemma notified_not_asleep [simp]: "notified w \<noteq> W_Await False"
  by (cases w) simp_all

interpretation waiters: invariant_system wait_init "wait_step key" "wait_inv key" for key :: "'i \<Rightarrow> string"
proof
  show "wait_inv key s" if "wait_init s" for s :: "('i, 'v) waiting_store"
    using that by (simp add: wait_init_def wait_inv_def)
next
  show "wait_inv key t" if "wait_inv key s" and "wait_step key s t" for s t :: "('i, 'v) waiting_store"
    using that(2,1) by cases (auto simp: wait_inv_def split: option.splits if_splits)
qed

text \<open>From any place in its loop a waiter that has been notified comes to read the value.\<close>

lemma awake_waiter_reads:
  assumes "ws_waiters s i = W_Start \<or> (\<exists>n. ws_waiters s i = W_Listen n) \<or> ws_waiters s i = W_Await True"
    and "db_read (key i) (ws_db s) = Some v"
  shows "\<exists>t. (wait_step key)\<^sup>*\<^sup>* s t \<and> ws_waiters t i = W_Done v"
proof -
  have listen: "\<exists>t. (wait_step key)\<^sup>*\<^sup>* s t \<and> ws_waiters t i = W_Done v"
    if "ws_waiters s i = W_Listen n" "db_read (key i) (ws_db s) = Some v" for s n
  proof -
    have "wait_step key s (s\<lparr>ws_waiters := (ws_waiters s)(i := W_Done v)\<rparr>)"
      using wait_step.Read [OF that(1), of key] that(2) by simp
    then show ?thesis by (auto intro!: exI [of _ "s\<lparr>ws_waiters := (ws_waiters s)(i := W_Done v)\<rparr>"])
  qed
  have start: "\<exists>t. (wait_step key)\<^sup>*\<^sup>* s t \<and> ws_waiters t i = W_Done v"
    if "ws_waiters s i = W_Start" "db_read (key i) (ws_db s) = Some v" for s
    using listen [of "s\<lparr>ws_waiters := (ws_waiters s)(i := W_Listen False)\<rparr>" False] wait_step.Listen [OF that(1), of key] that(2)
    by (auto intro: converse_rtranclp_into_rtranclp)
  show ?thesis
    using assms(1)
  proof (elim disjE exE)
    assume "ws_waiters s i = W_Await True"
    then show ?thesis
      using start [of "s\<lparr>ws_waiters := (ws_waiters s)(i := W_Start)\<rparr>"] wait_step.Wake [of s i key] assms(2)
      by (auto intro: converse_rtranclp_into_rtranclp)
  qed (use listen start assms(2) in blast)+
qed

text \<open>
  C16: No wake-up is lost. However writers and waiters of the store interleave, also between a change
  and its notification, a waiter whose value is there never sleeps unless a notification is still to
  come; so once the writers are done it can go on, and it then returns the value.
\<close>

theorem db_wait_no_lost_wakeup:
  assumes "reachable wait_init (wait_step key) s" and "db_read (key i) (ws_db s) = Some v"
    and "ws_unnotified s = 0"
  shows "ws_waiters s i \<noteq> W_Await False \<and>
    ((\<exists>v'. ws_waiters s i = W_Done v') \<or> (\<exists>t. (wait_step key)\<^sup>*\<^sup>* s t \<and> ws_waiters t i = W_Done v))"
proof -
  have "wait_inv key s" using assms(1) by (rule waiters.reachable_inv)
  then have "ws_waiters s i \<noteq> W_Await False" using assms(2,3) by (auto simp: wait_inv_def)
  moreover from this have "(\<exists>v'. ws_waiters s i = W_Done v') \<or>
      (ws_waiters s i = W_Start \<or> (\<exists>n. ws_waiters s i = W_Listen n) \<or> ws_waiters s i = W_Await True)"
    by (cases "ws_waiters s i") auto
  then have "(\<exists>v'. ws_waiters s i = W_Done v') \<or> (\<exists>t. (wait_step key)\<^sup>*\<^sup>* s t \<and> ws_waiters t i = W_Done v)"
    using awake_waiter_reads [of s i key v] assms(2) by blast
  ultimately show ?thesis ..
qed

theorem db_wait_no_lost_wakeup_witness:
  "\<exists>s :: (nat, nat) waiting_store. reachable wait_init (wait_step (\<lambda>_. ''k'')) s \<and> ws_waiters s 0 = W_Await True \<and>
     (\<exists>t. (wait_step (\<lambda>_. ''k''))\<^sup>*\<^sup>* s t \<and> ws_waiters t 0 = W_Done 5)"
proof -
  let ?key = "\<lambda>_ :: nat. ''k''"
  let ?s0 = "\<lparr>ws_db = Map.empty, ws_unnotified = 0, ws_waiters = \<lambda>_. W_Start\<rparr> :: (nat, nat) waiting_store"
  let ?s1 = "?s0\<lparr>ws_waiters := (\<lambda>_. W_Start)(0 := W_Listen False)\<rparr>"
  let ?s2 = "?s0\<lparr>ws_waiters := (\<lambda>_. W_Start)(0 := W_Await False)\<rparr>"
  let ?s3 = "?s2\<lparr>ws_db := db_write ''k'' 5 Map.empty, ws_unnotified := 1\<rparr>"
  let ?s4 = "?s3\<lparr>ws_unnotified := 0, ws_waiters := notified \<circ> (\<lambda>_. W_Start)(0 := W_Await False)\<rparr>"
  have "reachable wait_init (wait_step ?key) ?s0" by (rule reachable_init) (simp add: wait_init_def)
  moreover have "wait_step ?key ?s0 ?s1" using wait_step.Listen [of ?s0 0 ?key] by simp
  moreover have "wait_step ?key ?s1 ?s2" using wait_step.Read [of ?s1 0 False ?key] by (simp add: db_read_def)
  moreover have "wait_step ?key ?s2 ?s3" using wait_step.Write [of ?key ?s2 "''k''" 5] by simp
  moreover have "wait_step ?key ?s3 ?s4" using wait_step.Notify [of ?s3 ?key] by simp
  ultimately have r: "reachable wait_init (wait_step ?key) ?s4" by (blast intro: reachable_step)
  have w: "ws_waiters ?s4 0 = W_Await True" by simp
  have "db_read ''k'' (ws_db ?s4) = Some 5" "ws_unnotified ?s4 = 0" by simp_all
  from db_wait_no_lost_wakeup [OF r this] w have "\<exists>t. (wait_step ?key)\<^sup>*\<^sup>* ?s4 t \<and> ws_waiters t 0 = W_Done 5"
    by (metis waiter.distinct(11))
  with r w show ?thesis by blast
qed

section \<open>Tokens\<close>

text \<open>
  \<open>get_auth_token\<close>: the token of the store, else one from the broker, which is stored. \<open>to_bytes\<close> and
  \<open>from_bytes\<close> code texts as values of the store; \<open>call\<close> is the broker's method, an error of the
  transport or the answer.
\<close>

definition client_auth_token ::
    "(string \<Rightarrow> 'v) \<Rightarrow> ('v \<Rightarrow> string) \<Rightarrow> ('b \<Rightarrow> (string + (AuthError + string)) \<times> 'b) option \<Rightarrow> 'v kv \<Rightarrow> 'b
       \<Rightarrow> (string + string) \<times> 'v kv \<times> 'b" where
  "client_auth_token to_bytes from_bytes call db b =
     (case db_read ''auth_token'' db of
        Some token \<Rightarrow> (Inr (from_bytes token), db, b)
      | None \<Rightarrow>
          (case call of
             None \<Rightarrow> (Inl ''broker information not provided, so cannot use any broker-dependent functionality'', db, b)
           | Some f \<Rightarrow>
               (case f b of
                  (Inl e, b') \<Rightarrow> (Inl e, db, b')
                | (Inr (Inl e), b') \<Rightarrow> (Inl (auth_error_text e), db, b')
                | (Inr (Inr token), b') \<Rightarrow> (Inr token, db_write ''auth_token'' (to_bytes token) db, b'))))"

text \<open>
  A login is asked for once: after a token was obtained, every later call returns the same token
  without the broker, as long as nothing else is written under its key.
\<close>

lemma client_auth_token_once:
  assumes "client_auth_token to_bytes from_bytes call db b = (Inr token, db', b')"
    and "\<And>t. from_bytes (to_bytes t) = t"
  shows "client_auth_token to_bytes from_bytes call' db' b'' = (Inr token, db', b'')"
  using assms by (auto simp: client_auth_token_def split: option.splits sum.splits prod.splits)

text \<open>
  \<open>get_connect_token\<close>: waits until the first refresh has looked at the account, then for the token of
  the epoch; None while it waits.
\<close>

definition client_connect_token ::
    "('h, 's, 'v) auth_env \<Rightarrow> bool \<Rightarrow> u16 \<Rightarrow> 'v kv \<Rightarrow> (string + 'h conn_token) option" where
  "client_connect_token env account_status_checked ep db =
     (if \<not> account_status_checked \<or> db_read (conn_key ep) db = None then None
      else Some (get_conn_token_inner env ep db))"

text \<open>The seconds until the next refresh; \<open>rnd\<close> is the random number.\<close>

definition auth_delay :: "string + unit \<Rightarrow> nat \<Rightarrow> nat" where
  "auth_delay refreshed rnd = (if isl refreshed then 10 else 400 + rnd mod 400)"

fun auth_loop ::
    "('h, 's, 'v) auth_env \<Rightarrow> ('h, 'b) token_rpc \<Rightarrow> (nat \<Rightarrow> u16) \<Rightarrow> (u16 \<Rightarrow> bytes) \<Rightarrow> (u16 \<Rightarrow> AccountLevel \<Rightarrow> nat)
       \<Rightarrow> nat list \<Rightarrow> nat \<Rightarrow> 'v kv \<times> 'b \<Rightarrow> (nat \<times> 'v kv \<times> 'b) option" where
  "auth_loop env rpc epoch_at token rnd [] now s = Some (now, s)"
| "auth_loop env rpc epoch_at token rnd (r # rs) now s =
     (case refresh_conn_token env rpc (epoch_at now) token rnd s of
        None \<Rightarrow> None
      | Some (res, s') \<Rightarrow> auth_loop env rpc epoch_at token rnd rs (now + auth_delay res r) s')"

lemma auth_delay_bounds: "10 \<le> auth_delay r rnd \<and> auth_delay r rnd < 800"
  by (simp add: auth_delay_def)

text \<open>\<open>n\<close> rounds of the loop take between ten seconds and 800 seconds each.\<close>

lemma auth_loop_time:
  "auth_loop env rpc epoch_at token rnd rs now s = Some (now', s') \<Longrightarrow>
     now + 10 * length rs \<le> now' \<and> now' \<le> now + 800 * length rs"
proof (induction rs arbitrary: now s)
  case (Cons r rs)
  then obtain res s1 where "refresh_conn_token env rpc (epoch_at now) token rnd s = Some (res, s1)"
      "auth_loop env rpc epoch_at token rnd rs (now + auth_delay res r) s1 = Some (now', s')"
    by (auto split: option.splits prod.splits)
  with Cons.IH auth_delay_bounds [of res r] show ?case by fastforce
qed simp

section \<open>The loops of the client\<close>

text \<open>The configuration, with the types of its exit constraint, broker source and credentials left open.\<close>

record ('x, 'src, 'cred) client_config =
  cc_socks5_listen :: "SocketAddr option"
  cc_http_proxy_listen :: "SocketAddr option"
  cc_pac_listen :: "SocketAddr option"
  cc_control_listen :: "SocketAddr option"
  cc_exit_constraint :: 'x
  cc_bridge_mode :: BridgeMode
  cc_cache :: "string option"
  cc_broker :: "'src option"
  cc_broker_keys :: "(string \<times> string \<times> string) option"
  cc_vpn :: bool
  cc_vpn_fd :: "int option"
  cc_spoof_dns :: bool
  cc_passthrough_china :: bool
  cc_dry_run :: bool
  cc_credentials :: 'cred
  cc_task_limit :: "nat option"

definition inert :: "('x, 'src, 'cred) client_config \<Rightarrow> ('x, 'src, 'cred) client_config" where
  "inert cfg = cfg\<lparr>cc_dry_run := True, cc_socks5_listen := None, cc_http_proxy_listen := None,
     cc_pac_listen := None, cc_control_listen := None\<rparr>"

datatype client_loop = Socks5_Loop | Vpn_Loop | Http_Proxy_Serve | Auth_Loop | Rpc_Serve | Pac_Serve

definition client_loops :: "('x, 'src, 'cred) client_config \<Rightarrow> client_loop list" where
  "client_loops cfg =
     (if cc_dry_run cfg then [Rpc_Serve]
      else [Socks5_Loop, Vpn_Loop, Http_Proxy_Serve, Auth_Loop, Rpc_Serve, Pac_Serve])"

text \<open>The loops that wait forever for want of an address to listen on or of a broker.\<close>

fun loop_pending :: "('x, 'src, 'cred) client_config \<Rightarrow> client_loop \<Rightarrow> bool" where
  "loop_pending cfg Socks5_Loop = (cc_socks5_listen cfg = None)"
| "loop_pending cfg Vpn_Loop = False"
| "loop_pending cfg Http_Proxy_Serve = (cc_http_proxy_listen cfg = None)"
| "loop_pending cfg Auth_Loop = (cc_broker cfg = None)"
| "loop_pending cfg Rpc_Serve = (cc_control_listen cfg = None)"
| "loop_pending cfg Pac_Serve = (cc_pac_listen cfg = None)"

text \<open>
  \<open>ends\<close> tells when a loop ends, if it does, and how. The race of the loops ends with the first of
  them; of two that end in the same millisecond the source takes either, the model the earlier in
  the list.
\<close>

definition client_main ::
    "('x, 'src, 'cred) client_config \<Rightarrow> (client_loop \<Rightarrow> (nat \<times> (string + unit)) option) \<Rightarrow> (nat \<times> (string + unit)) option" where
  "client_main cfg ends =
     (case sort_key fst (List.map_filter (\<lambda>l. if loop_pending cfg l then None else ends l) (client_loops cfg)) of
        [] \<Rightarrow> None
      | r # _ \<Rightarrow> Some r)"

definition check_dead :: "nat \<Rightarrow> (nat \<times> (string + unit)) option \<Rightarrow> string + unit" where
  "check_dead now task =
     (case task of
        Some (t, val) \<Rightarrow> if t \<le> now then val else Inr ()
      | None \<Rightarrow> Inr ())"

lemma sort_key_hd:
  assumes "sort_key f xs = y # ys"
  shows "y \<in> set xs \<and> (\<forall>x \<in> set xs. f y \<le> f x)"
proof -
  have "set xs = set (y # ys)" by (metis assms set_sort)
  moreover have "sorted (map f (y # ys))" by (metis assms sorted_sort_key)
  ultimately show ?thesis by auto
qed

lemma map_filter_set: "set (List.map_filter f xs) = {y. \<exists>x \<in> set xs. f x = Some y}"
  by (auto simp: List.map_filter_def image_iff) (metis option.sel)

text \<open>
  An inert client neither listens nor ends, whatever the loops would do. Any other client is
  reported dead exactly when the first of its loops that are not idle has ended with an error.
\<close>

lemma inert_never_dead: "check_dead now (client_main (inert cfg) ends) = Inr ()"
  by (simp add: client_main_def client_loops_def inert_def check_dead_def)

lemma client_main_first:
  assumes "client_main cfg ends = Some (t, r)"
  shows "\<exists>l \<in> set (client_loops cfg). \<not> loop_pending cfg l \<and> ends l = Some (t, r) \<and>
    (\<forall>l' \<in> set (client_loops cfg). \<not> loop_pending cfg l' \<longrightarrow> (\<forall>u r'. ends l' = Some (u, r') \<longrightarrow> t \<le> u))"
proof -
  let ?xs = "List.map_filter (\<lambda>l. if loop_pending cfg l then None else ends l) (client_loops cfg)"
  from assms obtain ys where "sort_key fst ?xs = (t, r) # ys"
    by (auto simp: client_main_def split: list.splits)
  then have "(t, r) \<in> set ?xs" "\<forall>x \<in> set ?xs. t \<le> fst x" using sort_key_hd by fastforce+
  then show ?thesis unfolding map_filter_set by (fastforce split: if_splits)
qed

section \<open>Sessions and what they report\<close>

record ConnectedInfo =
  ci_protocol :: string
  ci_bridge :: string
  ci_exit :: ExitDescriptor

datatype ConnInfo = Disconnected | Connecting | Connected ConnectedInfo

text \<open>
  The three session threads of \<open>client_inner\<close>: each waits, dials and authenticates, or serves streams;
  all report in one place. \<open>is_sock\<close> tells whether the address of the pipe is a socket address.
\<close>

datatype session_thread = Pausing | Connecting_Exit | Serving ConnectedInfo

record sessions =
  conn_info :: ConnInfo
  sess :: "nat \<Rightarrow> session_thread"

definition CONCURRENCY :: nat where
  "CONCURRENCY = 3"

inductive session_step :: "(string \<Rightarrow> bool) \<Rightarrow> sessions \<Rightarrow> sessions \<Rightarrow> bool" for is_sock where
  Begin: "i < CONCURRENCY \<Longrightarrow> sess s i = Pausing \<Longrightarrow>
    session_step is_sock s (s\<lparr>conn_info := Connecting, sess := (sess s)(i := Connecting_Exit)\<rparr>)"
| Dial_Failed: "sess s i = Connecting_Exit \<Longrightarrow> session_step is_sock s (s\<lparr>sess := (sess s)(i := Pausing)\<rparr>)"
| Dialed: "sess s i = Connecting_Exit \<Longrightarrow> is_sock (ci_bridge c) \<Longrightarrow>
    session_step is_sock s (s\<lparr>conn_info := Connected c, sess := (sess s)(i := Serving c)\<rparr>)"
| No_Address: "sess s i = Connecting_Exit \<Longrightarrow> \<not> is_sock (ci_bridge c) \<Longrightarrow>
    session_step is_sock s (s\<lparr>conn_info := Connected c, sess := (sess s)(i := Pausing)\<rparr>)"
| Session_Over: "sess s i = Serving c \<Longrightarrow> session_step is_sock s (s\<lparr>sess := (sess s)(i := Pausing)\<rparr>)"

definition session_init :: "sessions \<Rightarrow> bool" where
  "session_init s \<longleftrightarrow> conn_info s = Connecting \<and> (\<forall>i. sess s i = Pausing)"

definition session_inv :: "sessions \<Rightarrow> bool" where
  "session_inv s \<longleftrightarrow> conn_info s \<noteq> Disconnected \<and> (\<forall>i \<ge> CONCURRENCY. sess s i = Pausing)"

interpretation session_sys: invariant_system session_init "session_step is_sock" session_inv for is_sock
proof
  show "session_inv s" if "session_init s" for s
    using that by (simp add: session_init_def session_inv_def)
next
  show "session_inv t" if "session_inv s" and "session_step is_sock s t" for s t
    using that(2,1) by cases (auto simp: session_inv_def)
qed

text \<open>
  At most three sessions run and a started client never says that it is disconnected. What it
  does say need not be so: it may report a connection when every session is over, and connecting
  when two of three serve.
\<close>

lemma reported_connection_may_be_over:
  "\<exists>s. reachable session_init (session_step is_sock) s \<and> conn_info s = Connected c \<and> (\<forall>i. sess s i = Pausing)"
proof -
  let ?s0 = "\<lparr>conn_info = Connecting, sess = \<lambda>_. Pausing\<rparr>"
  let ?s1 = "\<lparr>conn_info = Connecting, sess = (\<lambda>_. Pausing)(0 := Connecting_Exit)\<rparr>"
  let ?s2 = "\<lparr>conn_info = Connected c, sess = (\<lambda>_. Pausing)(0 := Serving c)\<rparr>"
  let ?s3 = "\<lparr>conn_info = Connected c, sess = \<lambda>_. Pausing\<rparr>"
  have r0: "reachable session_init (session_step is_sock) ?s0" by (rule reachable_init) (simp add: session_init_def)
  have r1: "reachable session_init (session_step is_sock) ?s1"
    using reachable_step [OF r0 session_step.Begin [of 0]] by (simp add: CONCURRENCY_def)
  show ?thesis
  proof (cases "is_sock (ci_bridge c)")
    case True
    have "reachable session_init (session_step is_sock) ?s2"
      using reachable_step [OF r1 session_step.Dialed [of _ 0 is_sock c]] True by simp
    from reachable_step [OF this session_step.Session_Over [of _ 0 c]]
    have "reachable session_init (session_step is_sock) ?s3" by (simp add: fun_upd_idem)
    then show ?thesis by (intro exI [of _ ?s3]) simp
  next
    case False
    have "reachable session_init (session_step is_sock) ?s3"
      using reachable_step [OF r1 session_step.No_Address [of _ 0 is_sock c]] False by (simp add: fun_upd_idem)
    then show ?thesis by (intro exI [of _ ?s3]) simp
  qed
qed

section \<open>News\<close>

text \<open>
  Values of serde_json. Indexing a value by a missing key gives null; indexing an object (the map
  itself) by a missing key panics.
\<close>

datatype json = JNull | JBool bool | JNum rat | JStr string | JArr "json list" | JObj "(string \<times> json) list"

definition json_index :: "json \<Rightarrow> string \<Rightarrow> json" where
  "json_index j k = (case j of JObj m \<Rightarrow> (case map_of m k of Some v \<Rightarrow> v | None \<Rightarrow> JNull) | _ \<Rightarrow> JNull)"

fun as_str :: "json \<Rightarrow> string option" where
  "as_str (JStr s) = Some s" | "as_str _ = None"

fun as_array :: "json \<Rightarrow> json list option" where
  "as_array (JArr a) = Some a" | "as_array _ = None"

fun as_object :: "json \<Rightarrow> (string \<times> json) list option" where
  "as_object (JObj m) = Some m" | "as_object _ = None"

fun as_bool :: "json \<Rightarrow> bool option" where
  "as_bool (JBool b) = Some b" | "as_bool _ = None"

lemma json_as_iff [simp]:
  "as_str j = Some s \<longleftrightarrow> j = JStr s" "as_array j = Some a \<longleftrightarrow> j = JArr a"
  "as_object j = Some m \<longleftrightarrow> j = JObj m" "as_bool j = Some b \<longleftrightarrow> j = JBool b"
  by (cases j; auto)+

record NewsItem =
  ni_title :: string
  ni_date_unix :: u64
  ni_contents :: string
  ni_important :: bool

text \<open>\<open>parse_date\<close> is chrono's: the seconds after the epoch of a date, which may be negative.\<close>

definition news_item :: "(string \<Rightarrow> int option) \<Rightarrow> string \<Rightarrow> json \<Rightarrow> (string + NewsItem) option" where
  "news_item parse_date lang item =
     (let important = (case as_bool (json_index item ''important'') of Some b \<Rightarrow> b | None \<Rightarrow> False)
      in case as_str (json_index item ''date'') of
           None \<Rightarrow> Some (Inl ''No or invalid 'date' field in news item'')
         | Some date_str \<Rightarrow>
         (case parse_date date_str of
            None \<Rightarrow> Some (Inl (''Invalid date format: '' @ date_str))
          | Some timestamp \<Rightarrow>
         (case as_object (json_index item lang) of
            None \<Rightarrow> Some (Inl (''No localized data for language '' @ lang))
          | Some localized \<Rightarrow>
         (case map_of localized ''title'' of
            None \<Rightarrow> None
          | Some title_value \<Rightarrow>
         (case as_str title_value of
            None \<Rightarrow> Some (Inl ''Missing 'title' in localized news data'')
          | Some title \<Rightarrow>
         (case map_of localized ''contents'' of
            None \<Rightarrow> None
          | Some contents_value \<Rightarrow>
         (case as_str contents_value of
            None \<Rightarrow> Some (Inl ''Missing 'contents' in localized news data'')
          | Some contents \<Rightarrow>
              Some (Inr \<lparr>ni_title = title, ni_date_unix = word_of_int timestamp, ni_contents = contents,
                         ni_important = important\<rparr>))))))))"

fun news_items :: "(string \<Rightarrow> int option) \<Rightarrow> string \<Rightarrow> json list \<Rightarrow> (string + NewsItem list) option" where
  "news_items parse_date lang [] = Some (Inr [])"
| "news_items parse_date lang (item # items) =
     (case news_item parse_date lang item of
        None \<Rightarrow> None
      | Some (Inl e) \<Rightarrow> Some (Inl e)
      | Some (Inr n) \<Rightarrow> map_option (map_sum id (\<lambda>ns. n # ns)) (news_items parse_date lang items))"

definition latest_news :: "json update_env \<Rightarrow> (string \<Rightarrow> int option) \<Rightarrow> string \<Rightarrow> (string + NewsItem list) option" where
  "latest_news env parse_date lang =
     (case get_update_manifest env of
        Inl e \<Rightarrow> Some (Inl e)
      | Inr (manifest, _) \<Rightarrow>
          (case as_array (json_index manifest ''news'') of
             None \<Rightarrow> Some (Inl ''No news array'')
           | Some news \<Rightarrow> news_items parse_date lang news))"

text \<open>The type of a news item for a language, and its reading.\<close>

definition news_typed :: "(string \<Rightarrow> int option) \<Rightarrow> string \<Rightarrow> json \<Rightarrow> bool" where
  "news_typed parse_date lang item \<longleftrightarrow>
     (\<exists>date ts obj title contents. json_index item ''date'' = JStr date \<and> parse_date date = Some ts \<and>
        json_index item lang = JObj obj \<and> map_of obj ''title'' = Some (JStr title) \<and>
        map_of obj ''contents'' = Some (JStr contents))"

text \<open>The items that abort the client: the texts of the language lack a key.\<close>

definition news_incomplete :: "(string \<Rightarrow> int option) \<Rightarrow> string \<Rightarrow> json \<Rightarrow> bool" where
  "news_incomplete parse_date lang item \<longleftrightarrow>
     (\<exists>date ts obj. json_index item ''date'' = JStr date \<and> parse_date date = Some ts \<and>
        json_index item lang = JObj obj \<and>
        (map_of obj ''title'' = None \<or> (\<exists>t. map_of obj ''title'' = Some (JStr t)) \<and> map_of obj ''contents'' = None))"

lemma news_item_ok_iff: "(\<exists>n. news_item parse_date lang item = Some (Inr n)) \<longleftrightarrow> news_typed parse_date lang item"
  by (auto simp: news_item_def news_typed_def Let_def split: option.splits)

lemma news_item_panic_iff: "news_item parse_date lang item = None \<longleftrightarrow> news_incomplete parse_date lang item"
  by (auto simp: news_item_def news_incomplete_def Let_def split: option.splits)

lemma news_items_ok_iff:
  "news_items parse_date lang items = Some (Inr out) \<longleftrightarrow>
     list_all2 (\<lambda>item n. news_item parse_date lang item = Some (Inr n)) items out"
proof (induction items arbitrary: out)
  case (Cons item items)
  show ?case
    by (cases out; cases "news_item parse_date lang item") (auto simp: Cons map_sum_Inr_iff split: sum.splits)
qed auto

lemma first_bad_Cons:
  "(\<exists>pre x post. y # ys = pre @ x # post \<and> list_all P pre \<and> Q x) \<longleftrightarrow>
     Q y \<or> P y \<and> (\<exists>pre x post. ys = pre @ x # post \<and> list_all P pre \<and> Q x)" (is "?l \<longleftrightarrow> ?r")
proof
  assume ?l
  then obtain pre x post where "y # ys = pre @ x # post" "list_all P pre" "Q x" by blast
  then show ?r by (cases pre) auto
next
  assume ?r
  then consider "Q y" | pre x post where "P y" "ys = pre @ x # post" "list_all P pre" "Q x" by blast
  then show ?l
  proof cases
    case 1
    then show ?thesis by (intro exI [of _ "[]"] exI [of _ y] exI [of _ ys]) simp
  next
    case 2
    then show ?thesis by (intro exI [of _ "y # pre"] exI [of _ x] exI [of _ post]) simp
  qed
qed

lemma news_items_panic_iff:
  "news_items parse_date lang items = None \<longleftrightarrow>
     (\<exists>pre item post. items = pre @ item # post \<and> list_all (news_typed parse_date lang) pre \<and> news_incomplete parse_date lang item)"
proof (induction items)
  case (Cons item items)
  show ?case
    using news_item_ok_iff [of parse_date lang item] news_item_panic_iff [of parse_date lang item]
    unfolding first_bad_Cons Cons.IH [symmetric] by (auto split: option.splits sum.splits)
qed simp

text \<open>What is shown for an item of this type.\<close>

definition text_at :: "json \<Rightarrow> string \<Rightarrow> string" where
  "text_at j k = (case json_index j k of JStr s \<Rightarrow> s | _ \<Rightarrow> [])"

definition news_reading :: "(string \<Rightarrow> int option) \<Rightarrow> string \<Rightarrow> json \<Rightarrow> NewsItem" where
  "news_reading parse_date lang item =
     \<lparr>ni_title = text_at (json_index item lang) ''title'', ni_date_unix = word_of_int (the (parse_date (text_at item ''date''))),
      ni_contents = text_at (json_index item lang) ''contents'', ni_important = (json_index item ''important'' = JBool True)\<rparr>"

lemma news_item_reading:
  "news_item parse_date lang item = Some (Inr n) \<longleftrightarrow> news_typed parse_date lang item \<and> n = news_reading parse_date lang item"
proof -
  have imp: "(case as_bool j of None \<Rightarrow> False | Some b \<Rightarrow> b) \<longleftrightarrow> j = JBool True" for j
    by (cases j) auto
  have "n = news_reading parse_date lang item" if "news_item parse_date lang item = Some (Inr n)" for n
    using that
    by (auto simp: news_item_def news_reading_def text_at_def json_index_def [of "JObj _"] imp Let_def split: option.splits)
  then show ?thesis using news_item_ok_iff [of parse_date lang item] by blast
qed

text \<open>
  C39: The news that the client shows, as a question of types. With a verified manifest whose news is
  an array, the handler succeeds exactly if every item has the type the language asks for, and then
  gives what each item says, in order; and it aborts the process exactly if the first item that is not
  of this type has an object for the language that lacks its title, or has a title and lacks its
  contents.
\<close>

theorem latest_news_typed:
  assumes "get_update_manifest env = Inr (manifest, url)" and "json_index manifest ''news'' = JArr news"
  shows "(latest_news env parse_date lang = Some (Inr out) \<longleftrightarrow>
       list_all (news_typed parse_date lang) news \<and> out = map (news_reading parse_date lang) news) \<and>
    (latest_news env parse_date lang = None \<longleftrightarrow>
       (\<exists>pre item post. news = pre @ item # post \<and> list_all (news_typed parse_date lang) pre \<and>
          news_incomplete parse_date lang item))"
proof -
  have "list_all2 (\<lambda>item n. P item \<and> n = f item) xs ys \<longleftrightarrow> list_all P xs \<and> ys = map f xs"
    for P :: "json \<Rightarrow> bool" and f :: "json \<Rightarrow> NewsItem" and xs ys
    by (induction xs arbitrary: ys) (auto simp: list_all2_Cons1)
  moreover have "latest_news env parse_date lang = news_items parse_date lang news"
    using assms by (simp add: latest_news_def)
  ultimately show ?thesis
    using news_items_ok_iff [of parse_date lang news out] news_items_panic_iff [of parse_date lang news]
    by (simp add: news_item_reading)
qed

definition example_manifest :: json where
  "example_manifest = JObj [(''news'', JArr [JObj [(''date'', JStr ''2024-01-01''),
     (''en'', JObj [(''title'', JStr ''a''), (''contents'', JStr ''b'')]), (''fr'', JObj [])]])]"

definition example_update :: "json update_env" where
  "example_update = \<lparr>fetch = \<lambda>_. Inr [1], decode_sig = Some, verified = (=), yaml = (\<lambda>_. Inr example_manifest)\<rparr>"

theorem latest_news_typed_witness:
  "latest_news example_update (\<lambda>_. Some 5) ''en'' =
     Some (Inr [\<lparr>ni_title = ''a'', ni_date_unix = 5, ni_contents = ''b'', ni_important = False\<rparr>]) \<and>
   latest_news example_update (\<lambda>_. Some 5) ''fr'' = None"
proof -
  let ?item = "JObj [(''date'', JStr ''2024-01-01''), (''en'', JObj [(''title'', JStr ''a''), (''contents'', JStr ''b'')]), (''fr'', JObj [])]"
  have m: "get_update_manifest example_update = Inr (example_manifest, ''https://f001.backblazeb2.com/file/geph4-dl/geph-releases'')"
    by (simp add: get_update_manifest_def update_urls_def get_update_manifest_inner_def example_update_def)
  have n: "json_index example_manifest ''news'' = JArr [?item]"
    by (simp add: json_index_def example_manifest_def)
  have "news_typed (\<lambda>_. Some 5) ''en'' ?item" by (simp add: news_typed_def json_index_def)
  moreover have "news_reading (\<lambda>_. Some 5) ''en'' ?item = \<lparr>ni_title = ''a'', ni_date_unix = 5, ni_contents = ''b'', ni_important = False\<rparr>"
    by (simp add: news_reading_def text_at_def json_index_def)
  moreover have "news_incomplete (\<lambda>_. Some 5) ''fr'' ?item" by (simp add: news_incomplete_def json_index_def)
  then have "\<exists>pre item post. [?item] = pre @ item # post \<and> list_all (news_typed (\<lambda>_. Some 5) ''fr'') pre \<and>
      news_incomplete (\<lambda>_. Some 5) ''fr'' item"
    by (intro exI [of _ "[]"] exI [of _ ?item]) simp
  ultimately show ?thesis
    using latest_news_typed [OF m n, of "\<lambda>_. Some 5" "''en''" "[\<lparr>ni_title = ''a'', ni_date_unix = 5, ni_contents = ''b'', ni_important = False\<rparr>]"]
      latest_news_typed [OF m n, of "\<lambda>_. Some 5" "''fr''"]
    by simp
qed

section \<open>The other handlers\<close>

text \<open>
  Handlers that pass a call on to the broker: without a broker in the configuration they fail;
  \<open>call\<close> is the method of the broker's client, with an error of the transport or the answer.
\<close>

definition broker_client :: "('x, 'src, 'cred) client_config \<Rightarrow> string + 'src" where
  "broker_client cfg =
     ok_or ''broker information not provided, so cannot use any broker-dependent functionality'' (cc_broker cfg)"

definition pass_on :: "('e \<Rightarrow> string) \<Rightarrow> ('x, 'src, 'cred) client_config \<Rightarrow> ('src \<Rightarrow> string + ('e + 'a)) \<Rightarrow> string + 'a" where
  "pass_on show_err cfg call = result_bind (broker_client cfg) (\<lambda>client. ask_broker show_err (call client))"

definition convert_legacy_account ::
    "('e \<Rightarrow> string) \<Rightarrow> ('x, 'src, 'cred) client_config \<Rightarrow> ('src \<Rightarrow> Credential \<Rightarrow> string + ('e + string)) \<Rightarrow> string \<Rightarrow> string \<Rightarrow> string + string" where
  "convert_legacy_account show_err cfg upgrade user pass =
     pass_on show_err cfg (\<lambda>client. upgrade client (LegacyUsernamePassword user pass))"

definition control_get_free_voucher ::
    "('e \<Rightarrow> string) \<Rightarrow> ('x, 'src, 'cred) client_config \<Rightarrow> ('src \<Rightarrow> string \<Rightarrow> string + ('e + 'w option)) \<Rightarrow> string \<Rightarrow> string + 'w option" where
  "control_get_free_voucher show_err cfg get_voucher secret = pass_on show_err cfg (\<lambda>client. get_voucher client secret)"

definition control_redeem_voucher ::
    "('e \<Rightarrow> string) \<Rightarrow> ('x, 'src, 'cred) client_config \<Rightarrow> ('src \<Rightarrow> string \<Rightarrow> string \<Rightarrow> string + ('e + int)) \<Rightarrow> string \<Rightarrow> string \<Rightarrow> string + int" where
  "control_redeem_voucher show_err cfg redeem secret voucher = pass_on show_err cfg (\<lambda>client. redeem client secret voucher)"

definition control_payment_methods ::
    "('e \<Rightarrow> string) \<Rightarrow> ('x, 'src, 'cred) client_config \<Rightarrow> ('src \<Rightarrow> string + ('e + string list)) \<Rightarrow> string + string list" where
  "control_payment_methods show_err cfg methods = pass_on show_err cfg methods"

definition control_create_payment ::
    "('e \<Rightarrow> string) \<Rightarrow> ('x, 'src, 'cred) client_config \<Rightarrow> ('src \<Rightarrow> string \<Rightarrow> u32 \<Rightarrow> string \<Rightarrow> string + ('e + string)) \<Rightarrow> string \<Rightarrow> u32 \<Rightarrow> string \<Rightarrow> string + string" where
  "control_create_payment show_err cfg create secret days method =
     pass_on show_err cfg (\<lambda>client. create client secret days method)"

definition export_debug_pack ::
    "('e \<Rightarrow> string) \<Rightarrow> ('x, 'src, 'cred) client_config \<Rightarrow> ('src \<Rightarrow> string option \<Rightarrow> string \<Rightarrow> string + ('e + unit)) \<Rightarrow> string option \<Rightarrow> string \<Rightarrow> string + unit" where
  "export_debug_pack show_err cfg upload email contents = pass_on show_err cfg (\<lambda>client. upload client email contents)"

lemma pass_on_Inr_iff:
  "pass_on show_err cfg call = Inr a \<longleftrightarrow> (\<exists>src. cc_broker cfg = Some src \<and> call src = Inr (Inr a))"
  by (auto simp: pass_on_def broker_client_def ask_broker_def result_bind_Inr_iff map_sum_Inr_iff)

text \<open>\<open>Client::user_info\<close>: the token first, then the account, which must exist.\<close>

definition client_user_info :: "string + string \<Rightarrow> (string \<Rightarrow> string + (AuthError + UserInfo option)) \<Rightarrow> string + UserInfo" where
  "client_user_info auth_token user_of =
     result_bind auth_token (\<lambda>token.
     result_bind (ask_broker auth_error_text (user_of token)) (\<lambda>r. ok_or ''no such user'' r))"

definition recent_logs :: "string \<Rightarrow> string list" where
  "recent_logs json_logs = split_on newline json_logs"

text \<open>The log lines that are written, each with a line break, come back as they are, and an empty line.\<close>

lemma recent_logs_lines:
  "\<forall>l \<in> set ls. newline \<notin> set l \<Longrightarrow> recent_logs (concat (map line ls)) = ls @ [[]]"
  by (induction ls) (simp_all add: recent_logs_def line_def)

text \<open>
  The server of the proxy configuration: the text names the address of the HTTP proxy, and without
  one answering a request panics.
\<close>

definition serve_pac :: "(SocketAddr \<Rightarrow> string) \<Rightarrow> ('x, 'src, 'cred) client_config \<Rightarrow> string option" where
  "serve_pac show_addr cfg =
     map_option (\<lambda>pac_addr. ''function FindProxyForURL(url, host){return 'PROXY '' @ show_addr pac_addr @ '';}'')
       (cc_http_proxy_listen cfg)"

text \<open>
  Requests on standard input: \<open>None\<close> is the abort at the first line that is no request.
\<close>

fun stdio_rpc :: "('q, 'r) jrpc \<Rightarrow> ('q \<Rightarrow> 's \<Rightarrow> 'r \<times> 's) \<Rightarrow> string list \<Rightarrow> 's \<Rightarrow> (string \<times> 's) option" where
  "stdio_rpc j respond [] s = Some ([], s)"
| "stdio_rpc j respond (l # ls) s =
     (case dec_req j l of
        None \<Rightarrow> None
      | Some req \<Rightarrow>
          (let (resp, s1) = respond req s
           in map_option (\<lambda>(out, s2). (line (enc_resp j resp) @ out, s2)) (stdio_rpc j respond ls s1)))"

text \<open>On requests that parse it behaves as the server of a connection does.\<close>

lemma stdio_rpc_as_connection:
  assumes "jrpc_ok j"
  shows "stdio_rpc j respond (map (enc_req j) qs) s =
    Some (rpc_serve_conn j respond (concat (map (call_raw_send j) qs)) s)"
proof -
  have "stdio_rpc j respond (map (enc_req j) qs) s =
      Some (case serve_all respond qs s of (rs, s') \<Rightarrow> (concat (map (\<lambda>r. line (enc_resp j r)) rs), s'))"
    using assms by (induction qs arbitrary: s) (simp_all add: jrpc_ok_def case_prod_unfold Let_def)
  then show ?thesis by (simp add: rpc_serve_lines [OF assms])
qed

section \<open>The transports of a configuration\<close>

datatype BrokerSource =
    Direct_Url string
  | Fronted string string
  | DirectTcp SocketAddr
  | AwsLambda string string string string
  | Race "BrokerSource list"
  | PriorityRace "(nat \<times> BrokerSource) list"

text \<open>
  The transport that a source describes, as it is before its first call; \<open>leaf\<close> gives the transports
  over HTTP, TCP and AWS. A race starts without a selection; a call that panics or blocks never
  returns.
\<close>

definition returned :: "'r called \<Rightarrow> 'r outcome" where
  "returned c = (case c of Returned t r \<Rightarrow> Done t r | _ \<Rightarrow> Never)"

fun rpc_transport :: "(BrokerSource \<Rightarrow> ('q, 'r) transport) \<Rightarrow> BrokerSource \<Rightarrow> ('q, 'r) transport" where
  "rpc_transport leaf (Race race_between) =
     (\<lambda>req t. returned (fst (race_call (map (\<lambda>bs. rpc_transport leaf bs) race_between) req t None)))"
| "rpc_transport leaf (PriorityRace inner) =
     (\<lambda>req t. returned (priority_call (map (\<lambda>(k, v). (k, rpc_transport leaf v)) inner) req t))"
| "rpc_transport leaf src = leaf src"

fun leaves :: "BrokerSource \<Rightarrow> BrokerSource set" where
  "leaves (Race bs) = (\<Union>b \<in> set bs. leaves b)"
| "leaves (PriorityRace inner) = (\<Union>x \<in> set inner. leaves (snd x))"
| "leaves src = {src}"

lemma first_ok_answer: "fst (first_ok cs err) = Returned t (Inr r) \<Longrightarrow> \<exists>idx. (t, idx, Inr r) \<in> set cs"
  by (induction cs err rule: first_ok.induct) auto

lemma race_call_answer:
  assumes "fst (race_call choices req t None) = Returned i (Inr r)"
  shows "\<exists>c \<in> set choices. c req t = Done i (Inr r)"
proof -
  from assms obtain idx where "idx < length choices" "timed_call (choices ! idx) req t = (i, Inr r)"
    by (auto simp: race_call_def case_prod_unfold dest!: first_ok_answer)
  then have "(choices ! idx) req t = Done i (Inr r)"
    by (auto simp: timed_call_def split: outcome.splits if_splits)
  then show ?thesis using \<open>idx < length choices\<close> nth_mem by blast
qed

lemma ok_answers_set: "(i, p) \<in> set (ok_answers os) \<longleftrightarrow> Done i (Inr p) \<in> set os"
  by (induction os rule: ok_answers.induct) auto

lemma priority_call_answer:
  assumes "priority_call choices req t = Returned i (Inr r)"
  shows "\<exists>d c. (d, c) \<in> set choices \<and> c req (t + d) = Done i (Inr r)"
proof -
  define os where "os = map (\<lambda>(d, c). c req (t + d)) choices"
  have "Done i (Inr r) \<in> set os"
  proof (cases "sort_key fst (ok_answers os)")
    case Nil
    then have "ok_answers os = []" by (metis set_empty set_sort)
    then have "Done u (Inr x) \<notin> set os" for u x by (metis empty_iff list.set(1) ok_answers_set)
    with assms Nil show ?thesis
      by (cases os) (auto simp: priority_call_def Let_def simp flip: os_def split: if_splits outcome.splits)
  next
    case (Cons y ys)
    then have "y = (i, r)" using assms by (cases y) (auto simp: priority_call_def Let_def simp flip: os_def)
    then have "(i, r) \<in> set (ok_answers os)" using Cons sort_key_hd by fastforce
    then show ?thesis by (simp add: ok_answers_set)
  qed
  then show ?thesis by (force simp: os_def)
qed

text \<open>
  However sources are nested, an answer that the client takes for the broker's is the answer of one
  of the transports of its configuration to this very request, started no earlier than the call.
\<close>

lemma rpc_transport_answers:
  assumes "rpc_transport leaf src req t = Done i (Inr r)"
  shows "\<exists>l \<in> leaves src. \<exists>u \<ge> t. leaf l req u = Done i (Inr r)"
  using assms
proof (induction src arbitrary: t)
  case (Race bs)
  then obtain b where "b \<in> set bs" "rpc_transport leaf b req t = Done i (Inr r)"
    by (auto simp: returned_def split: called.splits dest!: race_call_answer)
  with Race.IH [of b t] show ?case by auto
next
  case (PriorityRace inner)
  then obtain d b where "(d, b) \<in> set inner" "rpc_transport leaf b req (t + d) = Done i (Inr r)"
    by (auto simp: returned_def split: called.splits dest!: priority_call_answer)
  with PriorityRace.IH [of "(d, b)" b "t + d"] obtain l u where "l \<in> leaves b" "t + d \<le> u" "leaf l req u = Done i (Inr r)"
    by auto
  with \<open>(d, b) \<in> set inner\<close> show ?case
    by (intro bexI [of _ l] exI [of _ u]) (auto intro: bexI [of _ "(d, b)"])
qed auto

end
