(* ===== verification/Gui.thy ===== *)
theory Gui
  imports Client_App
begin

text \<open>
  The logic under the graphical interface (binaries/geph5-client-gui/src): preferences in files with
  a cache in front (prefs.rs), cells that are kept in them (store_cell.rs), values that are refreshed
  in the background (refresh_cell.rs), the time series behind the traffic plot (timeseries.rs), the
  configuration that is made of the settings (settings.rs), logging in and out (tabs/login.rs,
  tabs/settings.rs) and the proxy settings of the desktop (pac/linux.rs). Drawing is left out.
\<close>

section \<open>Preferences\<close>

text \<open>
  The files of the preference directory and the cache, whose entries may be evicted at any time. An
  error of reading is None and is not cached.
\<close>

record prefs =
  pref_files :: "string \<rightharpoonup> string"
  pref_cache :: "string \<rightharpoonup> string"

definition pref_read :: "string \<Rightarrow> prefs \<Rightarrow> string option \<times> prefs" where
  "pref_read key p =
     (case pref_cache p key of
        Some v \<Rightarrow> (Some v, p)
      | None \<Rightarrow>
          (case pref_files p key of
             Some contents \<Rightarrow> (Some contents, p\<lparr>pref_cache := (pref_cache p)(key \<mapsto> contents)\<rparr>)
           | None \<Rightarrow> (None, p)))"

text \<open>\<open>write_ok\<close> is whether the file can be written; if not, it is left as it is.\<close>

definition pref_write :: "bool \<Rightarrow> string \<Rightarrow> string \<Rightarrow> prefs \<Rightarrow> bool \<times> prefs" where
  "pref_write write_ok key val p =
     (case pref_read key p of (existing, p1) \<Rightarrow>
        if existing = Some val then (True, p1)
        else let p2 = p1\<lparr>pref_cache := (pref_cache p1)(key := None)\<rparr>
             in if write_ok then (True, p2\<lparr>pref_files := (pref_files p2)(key \<mapsto> val)\<rparr>) else (False, p2))"

definition pref_evict :: "string \<Rightarrow> prefs \<Rightarrow> prefs" where
  "pref_evict key p = p\<lparr>pref_cache := (pref_cache p)(key := None)\<rparr>"

text \<open>The contract: the cache never differs from the files, and the operations are those of a map.\<close>

locale kv_file =
  fixes rd :: "'k \<Rightarrow> 'p \<Rightarrow> 'v option \<times> 'p"
    and wr :: "'k \<Rightarrow> 'v \<Rightarrow> 'p \<Rightarrow> bool \<times> 'p"
    and forget :: "'k \<Rightarrow> 'p \<Rightarrow> 'p"
    and contents :: "'p \<Rightarrow> 'k \<rightharpoonup> 'v"
    and coherent :: "'p \<Rightarrow> bool"
  assumes read_spec: "coherent p \<Longrightarrow> rd k p = (r, p') \<Longrightarrow> r = contents p k \<and> contents p' = contents p \<and> coherent p'"
    and write_spec: "coherent p \<Longrightarrow> wr k v p = (True, p') \<Longrightarrow> contents p' = (contents p)(k \<mapsto> v) \<and> coherent p'"
    and write_failed: "coherent p \<Longrightarrow> wr k v p = (False, p') \<Longrightarrow> contents p' = contents p \<and> coherent p'"
    and forget_spec: "coherent p \<Longrightarrow> contents (forget k p) = contents p \<and> coherent (forget k p)"
begin

text \<open>What a sequence of writes, with evictions in between, leaves is what was written last.\<close>

lemma write_coherent:
  assumes "coherent p"
  shows "coherent (snd (wr k v p))"
proof -
  obtain ok p' where w: "wr k v p = (ok, p')" by force
  then show ?thesis using write_spec [OF assms] write_failed [OF assms] by (cases ok) auto
qed

lemma read_after_write:
  assumes "coherent p" and "wr k v p = (True, p')"
  shows "fst (rd k' p') = (if k' = k then Some v else contents p k')"
  using write_spec [OF assms] read_spec [of p' k'] by (cases "rd k' p'") auto

end

definition prefs_coherent :: "prefs \<Rightarrow> bool" where
  "prefs_coherent p \<longleftrightarrow> (\<forall>k v. pref_cache p k = Some v \<longrightarrow> pref_files p k = Some v)"

lemma pref_read_spec:
  assumes "prefs_coherent p" and "pref_read k p = (r, p')"
  shows "r = pref_files p k \<and> pref_files p' = pref_files p \<and> prefs_coherent p'"
proof (cases "pref_cache p k")
  case (Some v)
  with assms(1) have "pref_files p k = Some v" by (simp add: prefs_coherent_def)
  with Some assms show ?thesis by (simp add: pref_read_def)
next
  case None
  then show ?thesis using assms by (auto simp: pref_read_def prefs_coherent_def split: option.splits if_splits)
qed

lemma pref_write_spec:
  assumes "prefs_coherent p" and "pref_write w k v p = (ok, p')"
  shows "pref_files p' = (if ok then (pref_files p)(k \<mapsto> v) else pref_files p) \<and> prefs_coherent p' \<and> (w \<longrightarrow> ok)"
proof -
  obtain r p1 where r: "pref_read k p = (r, p1)" by force
  with pref_read_spec [OF assms(1)] have p1: "r = pref_files p k" "pref_files p1 = pref_files p" "prefs_coherent p1"
    by auto
  show ?thesis
  proof (cases "r = Some v")
    case True
    with assms(2) r p1 show ?thesis by (auto simp: pref_write_def fun_upd_idem)
  next
    case False
    with assms(2) r p1 show ?thesis
      by (cases w) (auto simp: pref_write_def prefs_coherent_def Let_def split: if_splits)
  qed
qed

interpretation prefs: kv_file pref_read "pref_write True" pref_evict pref_files prefs_coherent
proof
  show "r = pref_files p k \<and> pref_files p' = pref_files p \<and> prefs_coherent p'"
    if "prefs_coherent p" "pref_read k p = (r, p')" for p k r p'
    using that by (rule pref_read_spec)
  show "pref_files p' = (pref_files p)(k \<mapsto> v) \<and> prefs_coherent p'"
    if "prefs_coherent p" "pref_write True k v p = (True, p')" for p k v p'
    using pref_write_spec [OF that] by simp
  show "pref_files p' = pref_files p \<and> prefs_coherent p'"
    if "prefs_coherent p" "pref_write True k v p = (False, p')" for p k v p'
    using pref_write_spec [OF that] by simp
  show "pref_files (pref_evict k p) = pref_files p \<and> prefs_coherent (pref_evict k p)" if "prefs_coherent p" for p k
    using that by (simp add: pref_evict_def prefs_coherent_def)
qed

section \<open>Cells\<close>

text \<open>
  \<open>StoreCell\<close>: \<open>on_set\<close> writes the JSON of the value under the cell's key and ignores errors. A cell of
  the interface is its key and its value; \<open>cells\<close> are those that exist in this run of the program.
\<close>

record 'v gui_state =
  gui_prefs :: prefs
  cells :: "string \<rightharpoonup> 'v"

record 'v cell_json =
  cell_to_json :: "'v \<Rightarrow> string"
  cell_from_json :: "string \<Rightarrow> 'v option"

text \<open>\<open>new_persistent\<close>, run when the cell is first used: the stored value if it parses, else the default.\<close>

definition new_persistent :: "'v cell_json \<Rightarrow> string \<Rightarrow> 'v \<Rightarrow> 'v gui_state \<Rightarrow> 'v gui_state" where
  "new_persistent j key default_val g =
     (case pref_read key (gui_prefs g) of (res, p) \<Rightarrow>
        let val = Option.bind res (cell_from_json j)
        in g\<lparr>gui_prefs := p, cells := (cells g)(key \<mapsto> (case val of Some v \<Rightarrow> v | None \<Rightarrow> default_val))\<rparr>)"

definition use_cell :: "'v cell_json \<Rightarrow> (string \<Rightarrow> 'v) \<Rightarrow> string \<Rightarrow> 'v gui_state \<Rightarrow> 'v gui_state" where
  "use_cell j default_of key g = (case cells g key of Some _ \<Rightarrow> g | None \<Rightarrow> new_persistent j key (default_of key) g)"

definition cell_get :: "'v cell_json \<Rightarrow> (string \<Rightarrow> 'v) \<Rightarrow> string \<Rightarrow> 'v gui_state \<Rightarrow> 'v \<times> 'v gui_state" where
  "cell_get j default_of key g = (let g1 = use_cell j default_of key g in (the (cells g1 key), g1))"

definition cell_modify :: "'v cell_json \<Rightarrow> (string \<Rightarrow> 'v) \<Rightarrow> bool \<Rightarrow> string \<Rightarrow> ('v \<Rightarrow> 'v) \<Rightarrow> 'v gui_state \<Rightarrow> 'v gui_state" where
  "cell_modify j default_of write_ok key clos g =
     (let g1 = use_cell j default_of key g; v = clos (the (cells g1 key))
      in g1\<lparr>cells := (cells g1)(key \<mapsto> v), gui_prefs := snd (pref_write write_ok key (cell_to_json j v) (gui_prefs g1))\<rparr>)"

text \<open>\<open>set\<close> writes the new value and returns the old one.\<close>

definition cell_set :: "'v cell_json \<Rightarrow> (string \<Rightarrow> 'v) \<Rightarrow> bool \<Rightarrow> string \<Rightarrow> 'v \<Rightarrow> 'v gui_state \<Rightarrow> 'v \<times> 'v gui_state" where
  "cell_set j default_of write_ok key val g =
     (fst (cell_get j default_of key g), cell_modify j default_of write_ok key (\<lambda>_. val) g)"

text \<open>A new start of the program: the cells and the cache are gone, the files stay.\<close>

definition restart :: "'v gui_state \<Rightarrow> 'v gui_state" where
  "restart g = \<lparr>gui_prefs = \<lparr>pref_files = pref_files (gui_prefs g), pref_cache = Map.empty\<rparr>, cells = Map.empty\<rparr>"

datatype 'v gui_op = Gui_Get string | Gui_Modify string "'v \<Rightarrow> 'v" | Gui_Evict string | Gui_Restart

fun gui_run :: "'v cell_json \<Rightarrow> (string \<Rightarrow> 'v) \<Rightarrow> 'v gui_op list \<Rightarrow> 'v gui_state \<Rightarrow> 'v gui_state" where
  "gui_run j d [] g = g"
| "gui_run j d (Gui_Get k # ops) g = gui_run j d ops (snd (cell_get j d k g))"
| "gui_run j d (Gui_Modify k f # ops) g = gui_run j d ops (cell_modify j d True k f g)"
| "gui_run j d (Gui_Evict k # ops) g = gui_run j d ops (g\<lparr>gui_prefs := pref_evict k (gui_prefs g)\<rparr>)"
| "gui_run j d (Gui_Restart # ops) g = gui_run j d ops (restart g)"

text \<open>The specification: a total map of settings that only modifications change.\<close>

fun settings_spec :: "'v gui_op list \<Rightarrow> (string \<Rightarrow> 'v) \<Rightarrow> string \<Rightarrow> 'v" where
  "settings_spec [] m = m"
| "settings_spec (Gui_Modify k f # ops) m = settings_spec ops (m(k := f (m k)))"
| "settings_spec (Gui_Get k # ops) m = settings_spec ops m"
| "settings_spec (Gui_Evict k # ops) m = settings_spec ops m"
| "settings_spec (Gui_Restart # ops) m = settings_spec ops m"

text \<open>
  The setting of a key: the value of its cell, if it exists in this run, else what the file gives,
  else the default.
\<close>

definition stored :: "'v cell_json \<Rightarrow> (string \<Rightarrow> 'v) \<Rightarrow> prefs \<Rightarrow> string \<Rightarrow> 'v" where
  "stored j d p k = (case Option.bind (pref_files p k) (cell_from_json j) of Some v \<Rightarrow> v | None \<Rightarrow> d k)"

definition setting :: "'v cell_json \<Rightarrow> (string \<Rightarrow> 'v) \<Rightarrow> 'v gui_state \<Rightarrow> string \<Rightarrow> 'v" where
  "setting j d g k = (case cells g k of Some v \<Rightarrow> v | None \<Rightarrow> stored j d (gui_prefs g) k)"

definition gui_ok :: "'v cell_json \<Rightarrow> (string \<Rightarrow> 'v) \<Rightarrow> 'v gui_state \<Rightarrow> bool" where
  "gui_ok j d g \<longleftrightarrow> prefs_coherent (gui_prefs g) \<and>
     (\<forall>k v. cells g k = Some v \<longrightarrow> v = stored j d (gui_prefs g) k)"

lemma use_cell_spec:
  assumes "gui_ok j d g"
  shows "gui_ok j d (use_cell j d k g) \<and> setting j d (use_cell j d k g) = setting j d g \<and>
    cells (use_cell j d k g) k = Some (setting j d g k)"
proof (cases "cells g k")
  case (Some v)
  then show ?thesis using assms by (simp add: use_cell_def setting_def)
next
  case None
  obtain r p where r: "pref_read k (gui_prefs g) = (r, p)" by force
  with assms pref_read_spec have p: "r = pref_files (gui_prefs g) k" "pref_files p = pref_files (gui_prefs g)" "prefs_coherent p"
    by (auto simp: gui_ok_def)
  then have "stored j d p = stored j d (gui_prefs g)" by (simp add: stored_def fun_eq_iff)
  moreover have "use_cell j d k g = g\<lparr>gui_prefs := p, cells := (cells g)(k \<mapsto> stored j d (gui_prefs g) k)\<rparr>"
    using None r p(1) by (simp add: use_cell_def new_persistent_def stored_def)
  ultimately show ?thesis
    using None p(3) assms by (auto simp: gui_ok_def setting_def fun_eq_iff split: option.splits)
qed

lemma cell_modify_spec:
  assumes "gui_ok j d g" and "\<And>v. cell_from_json j (cell_to_json j v) = Some v"
  shows "gui_ok j d (cell_modify j d True k f g) \<and>
    setting j d (cell_modify j d True k f g) = (setting j d g)(k := f (setting j d g k))"
proof -
  define g1 where "g1 = use_cell j d k g"
  define v where "v = f (setting j d g k)"
  have g1: "gui_ok j d g1" "setting j d g1 = setting j d g" "cells g1 k = Some (setting j d g k)"
    using use_cell_spec [OF assms(1), of k] by (simp_all add: g1_def)
  obtain ok p where w: "pref_write True k (cell_to_json j v) (gui_prefs g1) = (ok, p)" by force
  with pref_write_spec [OF _ w] g1(1) have p: "pref_files p = (pref_files (gui_prefs g1))(k \<mapsto> cell_to_json j v)" "prefs_coherent p"
    by (auto simp: gui_ok_def)
  have m: "cell_modify j d True k f g = g1\<lparr>cells := (cells g1)(k \<mapsto> v), gui_prefs := p\<rparr>"
    using g1(3) w by (simp add: cell_modify_def v_def flip: g1_def)
  have "gui_ok j d (cell_modify j d True k f g)"
    using g1(1) p assms(2) by (simp add: m gui_ok_def stored_def)
  moreover have "setting j d (cell_modify j d True k f g) = (setting j d g1)(k := v)"
    using p by (auto simp: m setting_def stored_def fun_eq_iff split: option.splits)
  ultimately show ?thesis by (simp add: g1(2) v_def)
qed

lemma restart_spec: "gui_ok j d g \<Longrightarrow> gui_ok j d (restart g) \<and> setting j d (restart g) = setting j d g"
  by (auto simp: gui_ok_def restart_def setting_def stored_def prefs_coherent_def fun_eq_iff split: option.splits)

text \<open>
  C36: Settings persist. Whatever sequence of reads, changes, cache evictions and restarts of the
  program, the setting of every key is what the changes made of it, each applied once and in order,
  starting from what the files held or from the defaults - as long as the files can be written and
  JSON reads what it wrote.
\<close>

theorem settings_persist:
  assumes "\<And>v. cell_from_json j (cell_to_json j v) = Some v" and "gui_ok j d g"
  shows "setting j d (gui_run j d ops g) = settings_spec ops (setting j d g)"
  using assms(2)
proof (induction ops arbitrary: g)
  case (Cons op ops)
  show ?case
  proof (cases op)
    case (Gui_Get k)
    then show ?thesis using Cons use_cell_spec [OF Cons.prems, of k] by (simp add: cell_get_def Let_def)
  next
    case (Gui_Modify k f)
    then show ?thesis using Cons cell_modify_spec [OF Cons.prems assms(1), of k f] by (simp add: fun_upd_def)
  next
    case (Gui_Evict k)
    have "gui_ok j d (g\<lparr>gui_prefs := pref_evict k (gui_prefs g)\<rparr>)"
      using Cons.prems prefs.forget_spec [of "gui_prefs g" k] by (simp add: gui_ok_def stored_def)
    moreover have "setting j d (g\<lparr>gui_prefs := pref_evict k (gui_prefs g)\<rparr>) = setting j d g"
      by (simp add: setting_def stored_def pref_evict_def fun_eq_iff split: option.splits)
    ultimately show ?thesis using Cons.IH Gui_Evict by simp
  next
    case Gui_Restart
    then show ?thesis using Cons restart_spec [OF Cons.prems] by simp
  qed
qed simp

theorem settings_persist_witness:
  "setting \<lparr>cell_to_json = nat_str, cell_from_json = (\<lambda>s. Some (digits_value s))\<rparr> (\<lambda>_. 7)
     (gui_run \<lparr>cell_to_json = nat_str, cell_from_json = (\<lambda>s. Some (digits_value s))\<rparr> (\<lambda>_. 7)
        [Gui_Modify ''socks5_port'' (\<lambda>n. n + 1), Gui_Restart, Gui_Evict ''x'', Gui_Modify ''socks5_port'' (\<lambda>n. n * 2), Gui_Get ''y'']
        \<lparr>gui_prefs = \<lparr>pref_files = Map.empty, pref_cache = Map.empty\<rparr>, cells = Map.empty\<rparr>) ''socks5_port'' = (16 :: nat)"
proof -
  let ?j = "\<lparr>cell_to_json = nat_str, cell_from_json = (\<lambda>s. Some (digits_value s))\<rparr> :: nat cell_json"
  let ?g = "\<lparr>gui_prefs = \<lparr>pref_files = Map.empty, pref_cache = Map.empty\<rparr>, cells = Map.empty\<rparr> :: nat gui_state"
  let ?ops = "[Gui_Modify ''socks5_port'' (\<lambda>n. n + 1), Gui_Restart, Gui_Evict ''x'', Gui_Modify ''socks5_port'' (\<lambda>n. n * 2), Gui_Get ''y''] :: nat gui_op list"
  have "gui_ok ?j (\<lambda>_. 7) ?g" by (simp add: gui_ok_def prefs_coherent_def)
  with settings_persist [of ?j "\<lambda>_. 7" ?g ?ops]
  have "setting ?j (\<lambda>_. 7) (gui_run ?j (\<lambda>_. 7) ?ops ?g) = settings_spec ?ops (setting ?j (\<lambda>_. 7) ?g)"
    by (simp del: gui_run.simps settings_spec.simps)
  moreover have "settings_spec ?ops (setting ?j (\<lambda>_. 7) ?g) ''socks5_port'' = 16"
    by (simp add: setting_def stored_def)
  ultimately show ?thesis by (simp only:)
qed

section \<open>Values refreshed in the background\<close>

text \<open>
  A promise is the millisecond at which its thread ends and the value. \<open>refresh\<close> tells what a thread
  that starts now will do.
\<close>

record 'v refresh_cell =
  rc_last_updated :: nat
  rc_stable :: "'v option"
  rc_next :: "(nat \<times> 'v) option"

definition refresh_new :: "nat \<Rightarrow> 'v refresh_cell" where
  "refresh_new now = \<lparr>rc_last_updated = now, rc_stable = None, rc_next = None\<rparr>"

definition ready_at :: "nat \<Rightarrow> (nat \<times> 'v) option \<Rightarrow> 'v option" where
  "ready_at now p = (case p of Some (t, v) \<Rightarrow> if t \<le> now then Some v else None | None \<Rightarrow> None)"

definition get_or_refresh :: "nat \<Rightarrow> (nat \<Rightarrow> nat \<times> 'v) \<Rightarrow> nat \<Rightarrow> 'v refresh_cell \<Rightarrow> 'v option \<times> 'v refresh_cell" where
  "get_or_refresh timeout refresh now c =
     (let must_refresh = (rc_next c = None \<or> timeout < now - rc_last_updated c);
          c1 = (if must_refresh
                then \<lparr>rc_last_updated = now,
                      rc_stable = (case ready_at now (rc_next c) of Some res \<Rightarrow> Some res | None \<Rightarrow> rc_stable c),
                      rc_next = Some (refresh now)\<rparr>
                else c)
      in if timeout * 2 < now - rc_last_updated c1 then (None, c1)
         else (case ready_at now (rc_next c1) of Some v \<Rightarrow> Some v | None \<Rightarrow> rc_stable c1, c1))"

text \<open>
  The cell as it is drawn: polled at rising times at most \<open>gap\<close> apart, with refreshes that take at
  most the timeout and return when they started. \<open>last_poll\<close> is the time of the last poll.
\<close>

definition cell_fresh :: "nat \<Rightarrow> nat \<Rightarrow> nat \<Rightarrow> nat refresh_cell \<Rightarrow> bool" where
  "cell_fresh timeout gap last_poll c \<longleftrightarrow>
     rc_last_updated c \<le> last_poll \<and> last_poll \<le> rc_last_updated c + timeout \<and>
     (\<exists>t. rc_next c = Some (t, rc_last_updated c) \<and> t \<le> rc_last_updated c + timeout) \<and>
     (\<forall>v. rc_stable c = Some v \<longrightarrow> rc_last_updated c \<le> v + timeout + gap)"

lemma get_or_refresh_fresh:
  assumes "cell_fresh timeout gap t0 c" and "t0 \<le> now" and "now \<le> t0 + gap"
    and "\<And>t. snd (refresh t) = t \<and> fst (refresh t) \<le> t + timeout"
    and "get_or_refresh timeout refresh now c = (r, c')"
  shows "cell_fresh timeout gap now c'" and "rc_stable c' \<noteq> None \<Longrightarrow> r \<noteq> None"
    and "r = Some v \<Longrightarrow> now \<le> v + 2 * timeout + gap"
proof -
  from assms(1) obtain t where n: "rc_next c = Some (t, rc_last_updated c)" "t \<le> rc_last_updated c + timeout"
    by (auto simp: cell_fresh_def)
  have fresh: "refresh now = (fst (refresh now), now)" using assms(4) [of now] by (simp add: prod_eq_iff)
  have "cell_fresh timeout gap now c' \<and> (rc_stable c' \<noteq> None \<longrightarrow> r \<noteq> None) \<and>
      (\<forall>v. r = Some v \<longrightarrow> now \<le> v + 2 * timeout + gap)"
  proof (cases "timeout < now - rc_last_updated c")
    case True
    then have ready: "ready_at now (rc_next c) = Some (rc_last_updated c)" using n by (simp add: ready_at_def)
    then have c': "c' = \<lparr>rc_last_updated = now, rc_stable = Some (rc_last_updated c), rc_next = Some (refresh now)\<rparr>"
        and r: "r = Some (case ready_at now (Some (refresh now)) of Some v \<Rightarrow> v | None \<Rightarrow> rc_last_updated c)"
      using assms(5) True n by (cases "ready_at now (Some (refresh now))"; auto simp: get_or_refresh_def Let_def)+
    have "ready_at now (Some (refresh now)) = Some v \<Longrightarrow> v = now" for v
      using fresh by (auto simp: ready_at_def split: if_splits prod.splits)
    then show ?thesis
      using assms(1-4) c' r fresh by (auto simp: cell_fresh_def split: option.splits)
  next
    case False
    then have c': "c' = c" and r: "r = (case ready_at now (rc_next c) of Some v \<Rightarrow> Some v | None \<Rightarrow> rc_stable c)"
      using assms(5) n by (auto simp: get_or_refresh_def Let_def)
    with False assms(1-3) n show ?thesis by (auto simp: cell_fresh_def ready_at_def split: option.splits if_splits)
  qed
  then show "cell_fresh timeout gap now c'" "rc_stable c' \<noteq> None \<Longrightarrow> r \<noteq> None"
      "r = Some v \<Longrightarrow> now \<le> v + 2 * timeout + gap" by blast+
qed

text \<open>
  A refresh that takes longer than the timeout is given up for a new one, and its value is lost: a
  cell whose refreshes all take longer never shows a value, however long it is polled.
\<close>

fun poll_all :: "nat \<Rightarrow> (nat \<Rightarrow> nat \<times> 'v) \<Rightarrow> nat list \<Rightarrow> 'v refresh_cell \<Rightarrow> 'v option list" where
  "poll_all timeout refresh [] c = []"
| "poll_all timeout refresh (now # ts) c =
     (case get_or_refresh timeout refresh now c of (r, c') \<Rightarrow> r # poll_all timeout refresh ts c')"

lemma slow_refresh_starves:
  fixes refresh :: "nat \<Rightarrow> nat \<times> 'v"
  assumes "\<And>t. t + timeout + gap < fst (refresh t)" and "sorted (start # ts)"
    and "\<forall>i < length ts. ts ! i \<le> (start # ts) ! i + gap"
  shows "list_all (\<lambda>r. r = None) (poll_all timeout refresh ts (refresh_new start))"
proof -
  define slow where "slow = (\<lambda>now (c :: 'v refresh_cell). rc_stable c = None \<and> (\<forall>t v. rc_next c = Some (t, v) \<longrightarrow>
    rc_last_updated c + timeout + gap < t \<and> rc_last_updated c \<le> now \<and> now \<le> rc_last_updated c + timeout))"
  have step: "r = None \<and> slow now c'"
    if "slow t0 c" "t0 \<le> now" "now \<le> t0 + gap" "get_or_refresh timeout refresh now c = (r, c')" for t0 now c r c'
  proof -
    have nx: "ready_at now (rc_next c) = None"
      using that(1-3) by (auto simp: slow_def ready_at_def split: option.splits)
    have "ready_at now (Some (refresh now)) = None"
      using assms(1) [of now] by (auto simp: ready_at_def split: prod.splits)
    with nx that assms(1) [of now] show ?thesis
      by (auto simp: slow_def get_or_refresh_def Let_def split: if_splits)
  qed
  have "slow t0 c \<Longrightarrow> sorted (t0 # ts) \<Longrightarrow> \<forall>i < length ts. ts ! i \<le> (t0 # ts) ! i + gap \<Longrightarrow>
      list_all (\<lambda>r. r = None) (poll_all timeout refresh ts c)" for t0 c
  proof (induction ts arbitrary: t0 c)
    case (Cons now ts)
    obtain r c' where g: "get_or_refresh timeout refresh now c = (r, c')" by force
    from Cons.prems have "t0 \<le> now" "now \<le> t0 + gap" by auto
    from step [OF Cons.prems(1) this g] Cons.IH [of now c'] Cons.prems(2,3) g show ?case by fastforce
  qed simp
  moreover have "slow start (refresh_new start)" by (simp add: slow_def refresh_new_def)
  ultimately show ?thesis using assms(2,3) by blast
qed

end
