(* ===== verification/Gui_App.thy ===== *)
theory Gui_App
  imports Gui "HOL-Library.List_Lexorder" "HOL-Library.Char_ord" "HOL-Library.Product_Lexorder"
begin

text \<open>
  The application over the cells of Gui (binaries/geph5-client-gui/src): the time series behind the
  traffic plot (timeseries.rs, tabs/dashboard.rs), the proxy settings of the desktop (pac/linux.rs),
  the configuration that the settings make (settings.rs), the choice of a location and logging out
  (tabs/settings.rs), logging in (tabs/login.rs), connecting and disconnecting (tabs/dashboard.rs,
  daemon/inline.rs), the log view (tabs/logs.rs) and the texts (l10n.rs). Only drawing is left out.
\<close>

section \<open>Time series\<close>

text \<open>The tree from instants (milliseconds) to values, as the list of its entries in order.\<close>

record 'v time_series =
  ts_values :: "(int \<times> 'v) list"
  ts_max :: nat

definition ts_new :: "nat \<Rightarrow> 'v time_series" where
  "ts_new max_count = \<lparr>ts_values = [], ts_max = max_count\<rparr>"

fun tree_insert :: "int \<Rightarrow> 'v \<Rightarrow> (int \<times> 'v) list \<Rightarrow> (int \<times> 'v) list" where
  "tree_insert t v [] = [(t, v)]"
| "tree_insert t v ((u, w) # xs) =
     (if t < u then (t, v) # (u, w) # xs else if t = u then (t, v) # xs else (u, w) # tree_insert t v xs)"

function pop_excess :: "nat \<Rightarrow> 'a list \<Rightarrow> 'a list" where
  "pop_excess n xs = (if length xs > n then pop_excess n (tl xs) else xs)"
  by auto
termination by (relation "measure (\<lambda>(n, xs). length xs)") auto

declare pop_excess.simps [simp del]

definition ts_record :: "int \<Rightarrow> 'v \<Rightarrow> 'v time_series \<Rightarrow> 'v time_series" where
  "ts_record now v s = s\<lparr>ts_values := pop_excess (ts_max s) (tree_insert now v (ts_values s))\<rparr>"

definition ts_get_at :: "'v :: zero time_series \<Rightarrow> int \<Rightarrow> 'v" where
  "ts_get_at s time =
     (case rev (filter (\<lambda>(t, _). t \<le> time) (ts_values s)) of [] \<Rightarrow> 0 | (_, v) # _ \<Rightarrow> v)"

lemma pop_excess_drop: "pop_excess n xs = drop (length xs - n) xs"
proof (induction n xs rule: pop_excess.induct)
  case (1 n xs)
  show ?case
  proof (cases "length xs > n")
    case True
    then obtain x ys where "xs = x # ys" by (cases xs) auto
    with True 1 pop_excess.simps [of n xs] show ?thesis by (simp add: Suc_diff_le)
  next
    case False
    then show ?thesis by (simp add: pop_excess.simps [of n xs])
  qed
qed

lemma tree_insert_later: "list_all (\<lambda>(u, _). u < t) xs \<Longrightarrow> tree_insert t v xs = xs @ [(t, v)]"
  by (induction t v xs rule: tree_insert.induct) auto

lemma tree_insert_keys: "fst ` set (tree_insert t v xs) = insert t (fst ` set xs)"
  by (induction t v xs rule: tree_insert.induct) auto

lemma tree_insert_sorted:
  "sorted_wrt (<) (map fst xs) \<Longrightarrow> sorted_wrt (<) (map fst (tree_insert t v xs))"
proof (induction t v xs rule: tree_insert.induct)
  case (2 t v u w xs)
  then show ?case using tree_insert_keys [of t v xs] by force
qed simp

text \<open>
  The series after recordings at growing instants holds exactly the last of them, at most
  \<open>max_count\<close>, and a read gives the last value at or before the asked time, 0 if there is none left.
\<close>

lemma ts_records:
  assumes "sorted_wrt (<) (map fst recs)"
  shows "fold (\<lambda>(t, v). ts_record t v) recs (ts_new n) =
    \<lparr>ts_values = drop (length recs - n) recs, ts_max = n\<rparr>"
  using assms
proof (induction recs rule: rev_induct)
  case Nil
  then show ?case by (simp add: ts_new_def)
next
  case (snoc x recs)
  obtain t v where x: "x = (t, v)" by force
  have "list_all (\<lambda>(u, _). u < t) (drop (length recs - n) recs)"
    using snoc.prems x by (auto simp: sorted_wrt_append list_all_iff dest!: in_set_dropD)
  moreover have "sorted_wrt (<) (map fst recs)" using snoc.prems by (simp add: sorted_wrt_append)
  ultimately show ?case
    using snoc.IH x by (cases "length recs \<le> n") (auto simp: ts_record_def tree_insert_later pop_excess_drop Suc_diff_le le_Suc_eq)
qed

text \<open>
  One point of the plot: the bytes of the three seconds before the instant that is \<open>i\<close> quanta back,
  in megabit per second, over exact numbers. \<open>neg_ok\<close> tells whether the instants of the platform may
  lie before their origin; if not, a subtraction that would panics.
\<close>

definition instant_sub :: "bool \<Rightarrow> int \<Rightarrow> int \<Rightarrow> int option" where
  "instant_sub neg_ok t d = (if neg_ok \<or> d \<le> t then Some (t - d) else None)"

definition plot_now :: "int \<Rightarrow> int \<Rightarrow> int" where
  "plot_now start now = start + (if start \<le> now then (now - start) div 200 * 200 else 0)"

definition plot_point :: "bool \<Rightarrow> rat time_series \<Rightarrow> int \<Rightarrow> nat \<Rightarrow> (rat \<times> rat) option" where
  "plot_point neg_ok s now i =
     (case (instant_sub neg_ok now (int i * 200), instant_sub neg_ok now (int i * 200 + 3000)) of
        (Some a, Some b) \<Rightarrow>
          Some (1000 - of_nat i, (max 0 (ts_get_at s a - ts_get_at s b) / 1000 / 1000 * 8) / 3)
      | _ \<Rightarrow> None)"

fun all_some :: "'a option list \<Rightarrow> 'a list option" where
  "all_some [] = Some []"
| "all_some (x # xs) = (case x of None \<Rightarrow> None | Some y \<Rightarrow> map_option ((#) y) (all_some xs))"

definition plot_line :: "bool \<Rightarrow> rat time_series \<Rightarrow> int \<Rightarrow> int \<Rightarrow> (rat \<times> rat) list option" where
  "plot_line neg_ok s start now = all_some (map (plot_point neg_ok s (plot_now start now)) [0..<1000])"

lemma all_some_None: "all_some xs = None \<longleftrightarrow> None \<in> set xs"
  by (induction xs rule: all_some.induct) (auto split: option.splits)

text \<open>
  Where instants count from the start of the machine and cannot lie before it, drawing the plot in
  the first 202.8 seconds panics; elsewhere it never does.
\<close>

lemma plot_line_panics:
  assumes "start \<le> now"
  shows "plot_line neg_ok s start now = None \<longleftrightarrow> \<not> neg_ok \<and> plot_now start now < 202800"
proof -
  have p: "plot_point neg_ok s t i = None \<longleftrightarrow> \<not> neg_ok \<and> t < int i * 200 + 3000" for t i
    by (auto simp: plot_point_def instant_sub_def)
  have "(\<exists>i\<in>{0..<1000}. t < int i * 200 + 3000) \<longleftrightarrow> t < 202800" for t :: int
  proof
    assume "t < 202800"
    then show "\<exists>i\<in>{0..<1000}. t < int i * 200 + 3000" by (intro bexI [of _ 999]) simp_all
  qed auto
  then show ?thesis by (auto simp: plot_line_def all_some_None p image_iff eq_commute [of None])
qed

section \<open>The proxy settings of the desktop\<close>

text \<open>
  What became of one run of gsettings: it could not be started, or it ended, with success or not. The
  source asks only whether it could be started.
\<close>

datatype cmd_outcome = Not_Started string | Exited bool

type_synonym desktop = "string \<times> string \<rightharpoonup> string"

definition gsettings :: "cmd_outcome \<Rightarrow> string \<Rightarrow> string \<times> string \<times> string \<Rightarrow> desktop \<Rightarrow> (string + unit) \<times> desktop" where
  "gsettings out context cmd d =
     (case cmd of (schema, key, val) \<Rightarrow>
        (case out of
           Not_Started e \<Rightarrow> (Inl (context @ '': '' @ e), d)
         | Exited ok \<Rightarrow> (Inr (), if ok then d((schema, key) \<mapsto> val) else d)))"

fun gsettings_all :: "(nat \<Rightarrow> cmd_outcome) \<Rightarrow> nat \<Rightarrow> (string \<times> string \<times> string \<times> string) list \<Rightarrow> desktop \<Rightarrow> (string + unit) \<times> desktop" where
  "gsettings_all out i [] d = (Inr (), d)"
| "gsettings_all out i ((context, cmd) # cmds) d =
     (case gsettings (out i) context cmd d of
        (Inl e, d') \<Rightarrow> (Inl e, d')
      | (Inr _, d') \<Rightarrow> gsettings_all out (Suc i) cmds d')"

abbreviation "http_schema \<equiv> ''org.gnome.system.proxy.http''"
abbreviation "https_schema \<equiv> ''org.gnome.system.proxy.https''"
abbreviation "proxy_schema \<equiv> ''org.gnome.system.proxy''"

definition set_http_proxy :: "(IpAddr \<Rightarrow> string) \<Rightarrow> (nat \<Rightarrow> cmd_outcome) \<Rightarrow> SocketAddr \<Rightarrow> desktop \<Rightarrow> (string + unit) \<times> desktop" where
  "set_http_proxy show_ip out proxy =
     (let host = show_ip (sa_ip proxy); port = nat_str (unat (sa_port proxy))
      in gsettings_all out 0
        [(''Failed to enable HTTP proxy setting'', http_schema, ''enabled'', ''true''),
         (''Failed to set HTTP proxy host'', http_schema, ''host'', host),
         (''Failed to set HTTP proxy port'', http_schema, ''port'', port),
         (''Failed to enable HTTPS proxy setting'', https_schema, ''enabled'', ''true''),
         (''Failed to set HTTPS proxy host'', https_schema, ''host'', host),
         (''Failed to set HTTPS proxy port'', https_schema, ''port'', port),
         (''Failed to set proxy mode to manual'', proxy_schema, ''mode'', ''manual'')])"

definition unset_http_proxy :: "cmd_outcome \<Rightarrow> desktop \<Rightarrow> (string + unit) \<times> desktop" where
  "unset_http_proxy out = gsettings out ''Failed to disable proxy'' (proxy_schema, ''mode'', ''none'')"

text \<open>The proxies that programs of the desktop use: those of the two schemas in manual mode, else none.\<close>

definition desktop_proxies :: "desktop \<Rightarrow> (string \<times> string) option \<times> (string \<times> string) option" where
  "desktop_proxies d =
     (if d (proxy_schema, ''mode'') = Some ''manual''
      then (case (d (http_schema, ''host''), d (http_schema, ''port'')) of (Some h, Some p) \<Rightarrow> Some (h, p) | _ \<Rightarrow> None,
            case (d (https_schema, ''host''), d (https_schema, ''port'')) of (Some h, Some p) \<Rightarrow> Some (h, p) | _ \<Rightarrow> None)
      else (None, None))"

lemma gsettings_all_keeps:
  assumes "gsettings_all out i cmds d = (r, d')" and "k \<notin> (\<lambda>(_, s, key, _). (s, key)) ` set cmds"
  shows "d' k = d k"
  using assms
  by (induction out i cmds d rule: gsettings_all.induct)
    (auto simp: gsettings_def split: cmd_outcome.splits sum.splits if_splits prod.splits)

lemma gsettings_all_error:
  assumes "gsettings_all out i (cmds @ [(c, s, k, v)]) d = (Inl e, d')" and "(s, k) \<notin> (\<lambda>(_, s, k, _). (s, k)) ` set cmds"
  shows "d' (s, k) = d (s, k)"
  using assms
proof (induction out i cmds d rule: gsettings_all.induct)
  case (2 out i ctx cmd cmds d)
  then show ?case by (auto simp: gsettings_def split: cmd_outcome.splits if_splits prod.splits)
qed (auto simp: gsettings_def split: cmd_outcome.splits)

text \<open>The mode is switched last: a failure on the way leaves programs without a proxy.\<close>

lemma set_http_proxy_error:
  assumes "set_http_proxy show_ip out proxy d = (Inl e, d')" and "d (proxy_schema, ''mode'') \<noteq> Some ''manual''"
  shows "desktop_proxies d' = (None, None)"
proof -
  have "d' (proxy_schema, ''mode'') = d (proxy_schema, ''mode'')"
    by (rule gsettings_all_error [of out 0 "[_, _, _, _, _, _]"])
      (use assms(1) in \<open>simp_all only: set_http_proxy_def Let_def append.simps\<close>, simp)
  with assms(2) show ?thesis by (simp add: desktop_proxies_def)
qed

lemma set_http_proxy_ok:
  assumes "\<forall>i < 7. out i = Exited True"
  shows "\<exists>d'. set_http_proxy show_ip out proxy d = (Inr (), d') \<and>
    desktop_proxies d' = (Some (show_ip (sa_ip proxy), nat_str (unat (sa_port proxy))),
                          Some (show_ip (sa_ip proxy), nat_str (unat (sa_port proxy))))"
proof -
  from assms have "out 0 = Exited True" "out 1 = Exited True" "out 2 = Exited True" "out 3 = Exited True"
      "out 4 = Exited True" "out 5 = Exited True" "out 6 = Exited True" by simp_all
  then show ?thesis
    by (simp add: set_http_proxy_def Let_def gsettings_def desktop_proxies_def eval_nat_numeral)
qed

lemma unset_http_proxy_ok: "desktop_proxies (snd (unset_http_proxy (Exited True) d)) = (None, None)"
  by (simp add: unset_http_proxy_def gsettings_def desktop_proxies_def)

section \<open>Settings\<close>

text \<open>The values of the cells; countries are their codes.\<close>

record gui_cells =
  st_username :: string
  st_password :: string
  st_lang_code :: string
  st_proxy_autoconf :: bool
  st_bridge_mode :: BridgeMode
  st_country :: "string option"
  st_passthrough_china :: bool
  st_city :: "string option"
  st_custom_broker :: "BrokerSource option"
  st_socks5_port :: u16
  st_http_proxy_port :: u16
  st_vpn_mode :: bool

definition default_cells :: gui_cells where
  "default_cells = \<lparr>st_username = [], st_password = [], st_lang_code = ''en'', st_proxy_autoconf = True,
     st_bridge_mode = AutoMode, st_country = None, st_passthrough_china = False, st_city = None,
     st_custom_broker = None, st_socks5_port = 9999, st_http_proxy_port = 19999, st_vpn_mode = False\<rparr>"

type_synonym gui_config = "(ExitConstraint, BrokerSource, Credential) client_config"

definition localhost :: "u16 \<Rightarrow> SocketAddr" where
  "localhost port = \<lparr>sa_ip = V4 0x7F000001, sa_port = port\<rparr>"

text \<open>\<open>base\<close> is what the built-in settings parse to.\<close>

definition get_config :: "string + gui_config \<Rightarrow> gui_cells \<Rightarrow> string + gui_config" where
  "get_config base st =
     (case base of
        Inl e \<Rightarrow> Inl e
      | Inr cfg \<Rightarrow>
          Inr (cfg\<lparr>cc_credentials := LegacyUsernamePassword (st_username st) (st_password st),
                 cc_exit_constraint := (case (st_country st, st_city st) of
                     (Some c, Some ci) \<Rightarrow> CountryCity c ci
                   | (Some c, None) \<Rightarrow> Country c
                   | _ \<Rightarrow> Auto),
                 cc_bridge_mode := st_bridge_mode st,
                 cc_broker := (case st_custom_broker st of Some b \<Rightarrow> Some b | None \<Rightarrow> cc_broker cfg),
                 cc_socks5_listen := Some (localhost (st_socks5_port st)),
                 cc_http_proxy_listen := Some (localhost (st_http_proxy_port st)),
                 cc_vpn := st_vpn_mode st,
                 cc_passthrough_china := st_passthrough_china st\<rparr>))"

text \<open>
  The locations offered: the exits of the account's level, sorted by country and city, asked for
  again until both lists came. \<open>rank\<close> is the order of the country codes; each attempt is what the
  broker answers to the two requests.
\<close>

fun location_list ::
    "(string \<Rightarrow> nat) \<Rightarrow> bool \<Rightarrow> ((string + ExitList Signed) \<times> (string + ExitList Signed)) list \<Rightarrow> ExitList option" where
  "location_list rank is_plus [] = None"
| "location_list rank is_plus ((all, free) # attempts) =
     (case (all, free) of
        (Inr all_list, Inr free_list) \<Rightarrow>
          (let exits = signed_inner (if is_plus then all_list else free_list)
           in Some (exits\<lparr>all_exits := sort_key (\<lambda>s. (rank (country (snd s)), city (snd s))) (all_exits exits)\<rparr>))
      | _ \<Rightarrow> location_list rank is_plus attempts)"

text \<open>\<open>Itertools::unique\<close> keeps the first of equal elements.\<close>

definition unique :: "'a list \<Rightarrow> 'a list" where
  "unique xs = rev (remdups (rev xs))"

definition country_menu :: "ExitList \<Rightarrow> string option list" where
  "country_menu locations = None # map Some (unique (map (\<lambda>s. country (snd s)) (all_exits locations)))"

definition city_menu :: "ExitList \<Rightarrow> string \<Rightarrow> string option list" where
  "city_menu locations c =
     None # map Some (unique (map (\<lambda>s. city (snd s)) (filter (\<lambda>s. country (snd s) = c) (all_exits locations))))"

text \<open>A click on the \<open>i\<close>th entry of a menu, if there is one, selects it.\<close>

definition selectable :: "'a list \<Rightarrow> nat \<Rightarrow> 'a \<Rightarrow> 'a" where
  "selectable menu i selected = (if i < length menu then menu ! i else selected)"

definition pick_country :: "ExitList option \<Rightarrow> nat \<Rightarrow> gui_cells \<Rightarrow> gui_cells" where
  "pick_country locations i st =
     (let former = st_country st;
          st1 = (case locations of Some l \<Rightarrow> st\<lparr>st_country := selectable (country_menu l) i former\<rparr> | None \<Rightarrow> st)
      in if st_country st1 \<noteq> former then st1\<lparr>st_city := None\<rparr> else st1)"

definition pick_city :: "ExitList option \<Rightarrow> nat \<Rightarrow> gui_cells \<Rightarrow> gui_cells" where
  "pick_city locations i st =
     (case st_country st of
        None \<Rightarrow> st
      | Some c \<Rightarrow> (case locations of Some l \<Rightarrow> st\<lparr>st_city := selectable (city_menu l c) i (st_city st)\<rparr> | None \<Rightarrow> st))"

datatype edit =
    Set_Vpn bool
  | Set_Passthrough bool
  | Pick_Country "ExitList option" nat
  | Pick_City "ExitList option" nat
  | Set_Bridge BridgeMode
  | Set_Autoconf bool
  | Set_Socks5 u16
  | Set_Http u16
  | Set_Lang string

text \<open>The cells that the settings tab may change.\<close>

fun apply_edit :: "edit \<Rightarrow> gui_cells \<Rightarrow> gui_cells" where
  "apply_edit (Set_Vpn b) st = st\<lparr>st_vpn_mode := b\<rparr>"
| "apply_edit (Set_Passthrough b) st = st\<lparr>st_passthrough_china := b\<rparr>"
| "apply_edit (Pick_Country l i) st = pick_country l i st"
| "apply_edit (Pick_City l i) st = pick_city l i st"
| "apply_edit (Set_Bridge m) st = st\<lparr>st_bridge_mode := m\<rparr>"
| "apply_edit (Set_Autoconf b) st = st\<lparr>st_proxy_autoconf := b\<rparr>"
| "apply_edit (Set_Socks5 p) st = st\<lparr>st_socks5_port := p\<rparr>"
| "apply_edit (Set_Http p) st = st\<lparr>st_http_proxy_port := p\<rparr>"
| "apply_edit (Set_Lang c) st = st\<lparr>st_lang_code := c\<rparr>"

fun shown_exits :: "edit \<Rightarrow> ExitDescriptor set" where
  "shown_exits (Pick_Country (Some l) i) = snd ` set (all_exits l)"
| "shown_exits (Pick_City (Some l) i) = snd ` set (all_exits l)"
| "shown_exits _ = {}"

text \<open>The selected location is one of an exit that was shown.\<close>

definition location_ok :: "ExitDescriptor set \<Rightarrow> gui_cells \<Rightarrow> bool" where
  "location_ok E st \<longleftrightarrow>
     (case (st_country st, st_city st) of
        (Some c, Some ci) \<Rightarrow> \<exists>e \<in> E. country e = c \<and> city e = ci
      | (Some c, None) \<Rightarrow> \<exists>e \<in> E. country e = c
      | (None, ci) \<Rightarrow> ci = None)"

lemma set_unique [simp]: "set (unique xs) = set xs"
  by (simp add: unique_def)

lemma selectable_cases:
  obtains "selectable menu i x = x" | "selectable menu i x \<in> set menu"
  by (cases "i < length menu") (auto simp: selectable_def)

lemma location_ok_mono: "location_ok E st \<Longrightarrow> E \<subseteq> E' \<Longrightarrow> location_ok E' st"
  by (auto simp: location_ok_def split: option.splits)

lemma pick_country_ok:
  assumes "location_ok E st"
  shows "location_ok (E \<union> shown_exits (Pick_Country l i)) (pick_country l i st)"
proof (cases l)
  case (Some locs)
  consider "selectable (country_menu locs) i (st_country st) = st_country st"
    | "selectable (country_menu locs) i (st_country st) \<in> set (country_menu locs)"
      "selectable (country_menu locs) i (st_country st) \<noteq> st_country st"
    using selectable_cases by metis
  then show ?thesis
  proof cases
    case 1
    then have "pick_country l i st = st" using Some by (simp add: pick_country_def)
    then show ?thesis using assms location_ok_mono [of E st] by simp
  next
    case 2
    then show ?thesis
      using Some by (auto simp: pick_country_def country_menu_def location_ok_def split: option.splits) force
  qed
qed (use assms in \<open>simp add: pick_country_def\<close>)

lemma pick_city_ok:
  assumes "location_ok E st"
  shows "location_ok (E \<union> shown_exits (Pick_City l i)) (pick_city l i st)"
proof (cases "l = None \<or> st_country st = None")
  case True
  then have "pick_city l i st = st" by (auto simp: pick_city_def split: option.splits)
  then show ?thesis using assms location_ok_mono [of E st] by simp
next
  case False
  then obtain locs c where l: "l = Some locs" "st_country st = Some c" by auto
  from assms l(2) obtain e where e: "e \<in> E" "country e = c" by (auto simp: location_ok_def split: option.splits)
  show ?thesis
  proof (cases rule: selectable_cases [of "city_menu locs c" i "st_city st"])
    case 1
    then have "pick_city l i st = st" using l by (simp add: pick_city_def)
    then show ?thesis using assms location_ok_mono [of E st] by simp
  next
    case 2
    then show ?thesis using l e by (auto simp: pick_city_def city_menu_def location_ok_def split: option.splits)
  qed
qed

lemma apply_edit_ok: "location_ok E st \<Longrightarrow> location_ok (E \<union> shown_exits ed) (apply_edit ed st)"
  by (cases ed) (simp_all add: pick_country_ok pick_city_ok del: shown_exits.simps(1,2),
    auto simp: location_ok_def split: option.splits)

lemma apply_edits_ok:
  "location_ok E st \<Longrightarrow> location_ok (E \<union> (\<Union>ed \<in> set eds. shown_exits ed)) (fold apply_edit eds st)"
proof (induction eds arbitrary: E st)
  case (Cons ed eds)
  from Cons.IH [OF apply_edit_ok [OF Cons.prems, of ed]] show ?case by (simp add: Un_assoc)
qed simp

text \<open>
  The settings never ask for an exit that was not on offer. Starting from the default settings,
  after any sequence of changes in the settings tab, with whatever lists of exits the menus showed,
  the configuration that is made of the settings has an exit constraint which either leaves the
  choice open or is matched by an exit of one of the lists that were shown: a city of one country
  is never combined with another country.
\<close>

theorem chosen_location_offered:
  assumes "get_config base (fold apply_edit eds default_cells) = Inr cfg"
  shows "cc_exit_constraint cfg = Auto \<or>
    (\<exists>e \<in> (\<Union>ed \<in> set eds. shown_exits ed). matches (cc_exit_constraint cfg) e)"
proof -
  define st where "st = fold apply_edit eds default_cells"
  have "location_ok {} default_cells" by (simp add: location_ok_def default_cells_def)
  from apply_edits_ok [OF this] have "location_ok (\<Union>ed \<in> set eds. shown_exits ed) st" by (simp add: st_def)
  moreover have "cc_exit_constraint cfg =
      (case (st_country st, st_city st) of (Some c, Some ci) \<Rightarrow> CountryCity c ci | (Some c, None) \<Rightarrow> Country c | _ \<Rightarrow> Auto)"
    using assms unfolding st_def [symmetric] by (auto simp: get_config_def split: sum.splits)
  ultimately show ?thesis
    by (cases "st_country st"; cases "st_city st") (simp_all add: location_ok_def)
qed

definition sample_config :: gui_config where
  "sample_config = \<lparr>cc_socks5_listen = None, cc_http_proxy_listen = None, cc_pac_listen = None, cc_control_listen = None,
     cc_exit_constraint = Auto, cc_bridge_mode = AutoMode, cc_cache = None, cc_broker = Some (Direct_Url ''https://broker''),
     cc_broker_keys = None, cc_vpn = False, cc_vpn_fd = None, cc_spoof_dns = False, cc_passthrough_china = False,
     cc_dry_run = False, cc_credentials = TestDummy, cc_task_limit = None\<rparr>"

definition sample_exits :: ExitList where
  "sample_exits = \<lparr>all_exits =
      [([1], \<lparr>c2e_listen = ''1.1.1.1:1'', b2e_listen = ''1.1.1.1:2'', country = ''CA'', city = ''Montreal'', load = 0, expiry = 9\<rparr>),
       ([2], \<lparr>c2e_listen = ''2.2.2.2:1'', b2e_listen = ''2.2.2.2:2'', country = ''SG'', city = ''Singapore'', load = 0, expiry = 9\<rparr>)],
     city_names = []\<rparr>"

theorem chosen_location_offered_witness:
  "get_config (Inr sample_config)
     (fold apply_edit [Pick_Country (Some sample_exits) 1, Pick_City (Some sample_exits) 1, Pick_Country (Some sample_exits) 2] default_cells)
     = Inr (sample_config\<lparr>cc_credentials := LegacyUsernamePassword [] [], cc_exit_constraint := Country ''SG'',
         cc_socks5_listen := Some (localhost 9999), cc_http_proxy_listen := Some (localhost 19999)\<rparr>) \<and>
   (\<exists>e \<in> snd ` set (all_exits sample_exits). matches (Country ''SG'') e)"
proof -
  let ?eds = "[Pick_Country (Some sample_exits) 1, Pick_City (Some sample_exits) 1, Pick_Country (Some sample_exits) 2]"
  let ?cfg = "sample_config\<lparr>cc_credentials := LegacyUsernamePassword [] [], cc_exit_constraint := Country ''SG'',
         cc_socks5_listen := Some (localhost 9999), cc_http_proxy_listen := Some (localhost 19999)\<rparr>"
  have g: "get_config (Inr sample_config) (fold apply_edit ?eds default_cells) = Inr ?cfg"
    by (simp add: get_config_def sample_config_def sample_exits_def default_cells_def pick_country_def pick_city_def
        selectable_def country_menu_def city_menu_def unique_def)
  from chosen_location_offered [OF g] g show ?thesis by simp
qed

section \<open>Logging in, connecting, logging out\<close>

text \<open>
  The state of the application: its cells, the login form, the login that is being checked with the
  name and password it was asked for and its answer, the client that runs in the process, the desktop
  and a clock of events. \<open>ae_auth\<close> is what the broker answers to a login at a time.
\<close>

record app_state =
  app_cells :: gui_cells
  form_username :: string
  form_password :: string
  login_check :: "(string \<times> string \<times> (string + unit) option) option"
  app_daemon :: "gui_config option"
  app_desktop :: desktop
  app_ticks :: nat

record app_env =
  ae_base :: "string + gui_config"
  ae_auth :: "nat \<Rightarrow> BrokerSource \<Rightarrow> Credential \<Rightarrow> string + unit"
  ae_show_ip :: "IpAddr \<Rightarrow> string"

text \<open>None is a panic, here on a configuration without a broker.\<close>

definition check_login :: "app_env \<Rightarrow> nat \<Rightarrow> gui_cells \<Rightarrow> string \<Rightarrow> string \<Rightarrow> (string + unit) option" where
  "check_login env n st user pass =
     (case get_config (ae_base env) st of
        Inl e \<Rightarrow> Some (Inl e)
      | Inr cfg \<Rightarrow> (let config = cfg\<lparr>cc_credentials := LegacyUsernamePassword user pass\<rparr>
          in case cc_broker config of None \<Rightarrow> None | Some src \<Rightarrow> Some (ae_auth env n src (cc_credentials config))))"

datatype app_event =
    Type_Form string string
  | Press_Login
  | Login_Answer
  | Draw_Frame
  | Press_Ok
  | Press_Logout
  | Edit edit
  | Press_Connect "nat \<Rightarrow> cmd_outcome"
  | Press_Disconnect cmd_outcome

abbreviation "logged_out s \<equiv> st_username (app_cells s) = []"

text \<open>A frame of the login page: a login that was accepted stores what stands in the form and empties it.\<close>

definition login_frame :: "app_state \<Rightarrow> app_state" where
  "login_frame s =
     (case login_check s of
        Some (_, _, Some (Inr _)) \<Rightarrow>
          s\<lparr>login_check := None,
            app_cells := (app_cells s)\<lparr>st_username := form_username s, st_password := form_password s\<rparr>,
            form_username := [], form_password := []\<rparr>
      | _ \<Rightarrow> s)"

definition press_connect :: "app_env \<Rightarrow> (nat \<Rightarrow> cmd_outcome) \<Rightarrow> app_state \<Rightarrow> app_state option" where
  "press_connect env out s =
     (case get_config (ae_base env) (app_cells s) of
        Inl e \<Rightarrow> Some s
      | Inr cfg \<Rightarrow>
          (let s1 = s\<lparr>app_daemon := Some cfg\<rparr>
           in if st_proxy_autoconf (app_cells s)
              then (case cc_http_proxy_listen cfg of
                      None \<Rightarrow> None
                    | Some a \<Rightarrow> Some (s1\<lparr>app_desktop := snd (set_http_proxy (ae_show_ip env) out a (app_desktop s))\<rparr>))
              else Some s1))"

definition press_disconnect :: "cmd_outcome \<Rightarrow> app_state \<Rightarrow> app_state" where
  "press_disconnect out s = s\<lparr>app_daemon := None, app_desktop := snd (unset_http_proxy out (app_desktop s))\<rparr>"

definition press_logout :: "app_state \<Rightarrow> app_state" where
  "press_logout s = s\<lparr>app_daemon := None, app_cells := (app_cells s)\<lparr>st_username := [], st_password := []\<rparr>\<rparr>"

text \<open>
  One event: the login page exists while the name is empty, the tabs otherwise; what is not on the
  screen cannot be clicked. Only the answer to a login comes by itself.
\<close>

definition app_step :: "app_env \<Rightarrow> app_event \<Rightarrow> app_state \<Rightarrow> app_state option" where
  "app_step env ev s =
     (case ev of
        Login_Answer \<Rightarrow>
          (case login_check s of
             Some (u, p, None) \<Rightarrow>
               map_option (\<lambda>r. s\<lparr>login_check := Some (u, p, Some r)\<rparr>) (check_login env (app_ticks s) (app_cells s) u p)
           | _ \<Rightarrow> Some s)
      | Type_Form u p \<Rightarrow> Some (if logged_out s \<and> login_check s = None then s\<lparr>form_username := u, form_password := p\<rparr> else s)
      | Press_Login \<Rightarrow>
          Some (if logged_out s \<and> login_check s = None
                then s\<lparr>login_check := Some (form_username s, form_password s, None)\<rparr> else s)
      | Draw_Frame \<Rightarrow> Some (if logged_out s then login_frame s else s)
      | Press_Ok \<Rightarrow>
          Some (case login_check s of
                  Some (_, _, Some (Inl _)) \<Rightarrow> if logged_out s then s\<lparr>login_check := None\<rparr> else s
                | _ \<Rightarrow> s)
      | Press_Logout \<Rightarrow> Some (if logged_out s then s else press_logout s)
      | Edit ed \<Rightarrow> Some (if logged_out s then s else s\<lparr>app_cells := apply_edit ed (app_cells s)\<rparr>)
      | Press_Connect out \<Rightarrow> if logged_out s then Some s else press_connect env out s
      | Press_Disconnect out \<Rightarrow> Some (if logged_out s then s else press_disconnect out s))"

fun app_run :: "app_env \<Rightarrow> app_event list \<Rightarrow> app_state \<Rightarrow> app_state option" where
  "app_run env [] s = Some s"
| "app_run env (ev # evs) s =
     (case app_step env ev s of
        None \<Rightarrow> None
      | Some s' \<Rightarrow> app_run env evs (s'\<lparr>app_ticks := Suc (app_ticks s')\<rparr>))"

definition app_new :: "gui_cells \<Rightarrow> desktop \<Rightarrow> app_state" where
  "app_new st d = \<lparr>app_cells = st, form_username = [], form_password = [], login_check = None, app_daemon = None,
     app_desktop = d, app_ticks = 0\<rparr>"

text \<open>The broker has accepted this name and password before.\<close>

definition accepted :: "app_env \<Rightarrow> nat \<Rightarrow> Credential \<Rightarrow> bool" where
  "accepted env n cred \<longleftrightarrow> (\<exists>k < n. \<exists>src. ae_auth env k src cred = Inr ())"

definition app_inv :: "app_env \<Rightarrow> app_state \<Rightarrow> bool" where
  "app_inv env s \<longleftrightarrow>
     (logged_out s \<longrightarrow> app_daemon s = None) \<and>
     (\<not> logged_out s \<longrightarrow> login_check s = None \<and>
        accepted env (app_ticks s) (LegacyUsernamePassword (st_username (app_cells s)) (st_password (app_cells s)))) \<and>
     (\<forall>cfg. app_daemon s = Some cfg \<longrightarrow> accepted env (app_ticks s) (cc_credentials cfg)) \<and>
     (\<forall>u p r. login_check s = Some (u, p, r) \<longrightarrow> form_username s = u \<and> form_password s = p \<and>
        (r = Some (Inr ()) \<longrightarrow> accepted env (app_ticks s) (LegacyUsernamePassword u p)))"

lemma accepted_mono: "accepted env n cred \<Longrightarrow> n \<le> m \<Longrightarrow> accepted env m cred"
  by (auto simp: accepted_def intro: less_le_trans)

lemma apply_edit_credentials [simp]:
  "st_username (apply_edit ed st) = st_username st" "st_password (apply_edit ed st) = st_password st"
  by (cases ed; simp add: pick_country_def pick_city_def Let_def split: option.splits)+

lemma get_config_credentials:
  "get_config base st = Inr cfg \<Longrightarrow> cc_credentials cfg = LegacyUsernamePassword (st_username st) (st_password st)"
  by (auto simp: get_config_def split: sum.splits)

lemma check_login_accepted:
  "check_login env n st u p = Some (Inr ()) \<Longrightarrow> accepted env (Suc n) (LegacyUsernamePassword u p)"
  by (auto simp: check_login_def accepted_def Let_def split: sum.splits option.splits)

lemma app_step_ticks: "app_step env ev s = Some s' \<Longrightarrow> app_ticks s' = app_ticks s"
  by (auto simp: app_step_def login_frame_def press_connect_def press_disconnect_def press_logout_def Let_def
      split: app_event.splits option.splits if_splits sum.splits)

lemma press_connect_inv:
  assumes "app_inv env s" and "\<not> logged_out s" and "press_connect env out s = Some s'"
  shows "app_inv env s'"
proof (cases "get_config (ae_base env) (app_cells s)")
  case (Inr cfg)
  then have "accepted env (app_ticks s) (cc_credentials cfg)"
    using assms(1,2) get_config_credentials [OF Inr] by (simp add: app_inv_def)
  then show ?thesis
    using assms Inr by (auto simp: press_connect_def app_inv_def Let_def split: if_splits option.splits)
qed (use assms in \<open>simp add: press_connect_def\<close>)

lemma login_frame_inv:
  assumes "app_inv env s" and "logged_out s"
  shows "app_inv env (login_frame s)"
  using assms by (auto simp: login_frame_def app_inv_def split: option.splits sum.splits prod.splits)

lemma app_step_inv:
  assumes "app_inv env s" and "app_step env ev s = Some s'"
  shows "app_inv env (s'\<lparr>app_ticks := Suc (app_ticks s')\<rparr>)"
proof -
  have later: "app_inv env (s\<lparr>app_ticks := Suc (app_ticks s)\<rparr>)" if "app_inv env s" for s
    using that accepted_mono [of env "app_ticks s" _ "Suc (app_ticks s)"] by (simp add: app_inv_def)
  show ?thesis
  proof (cases "ev = Login_Answer \<and> (\<exists>u p. login_check s = Some (u, p, None))")
    case True
    then obtain u p r where "login_check s = Some (u, p, None)" "check_login env (app_ticks s) (app_cells s) u p = Some r"
        "s' = s\<lparr>login_check := Some (u, p, Some r)\<rparr>"
      using assms(2) by (auto simp: app_step_def)
    then show ?thesis
      using assms(1) later [OF assms(1)] check_login_accepted [of env "app_ticks s" "app_cells s" u p]
      by (simp add: app_inv_def)
  next
    case False
    have "app_inv env s'"
    proof (cases ev)
      case Login_Answer
      then have "s' = s" using False assms(2)
        by (cases "login_check s") (auto simp: app_step_def split: option.splits prod.splits)
      then show ?thesis using assms(1) by simp
    next
      case (Press_Connect out)
      then show ?thesis using assms press_connect_inv [of env s out s'] by (auto simp: app_step_def split: if_splits)
    next
      case Draw_Frame
      then show ?thesis using assms login_frame_inv by (auto simp: app_step_def split: if_splits)
    qed (use assms in \<open>auto simp: app_step_def app_inv_def press_logout_def press_disconnect_def
        split: option.splits if_splits sum.splits\<close>)
    then show ?thesis by (rule later)
  qed
qed

lemma app_run_inv: "app_inv env s \<Longrightarrow> app_run env evs s = Some s' \<Longrightarrow> app_inv env s'"
proof (induction env evs s rule: app_run.induct)
  case (2 env ev evs s)
  then show ?case using app_step_inv [of env s ev] by (auto split: option.splits)
qed simp

text \<open>
  C37: The client runs only with credentials the broker accepted. In every state that clicks, typing
  and answers of the broker lead to from a start without credentials, the stored name and password
  are empty or a pair that the broker accepted at an earlier time - the form is stored, and it is
  still the one that was checked - a running client was given such a pair, and no client runs while
  nobody is logged in.
\<close>

theorem credentials_were_accepted:
  assumes "st_username st = []" and "app_run env evs (app_new st d) = Some s"
  shows "(if st_username (app_cells s) = [] then app_daemon s = None
     else accepted env (app_ticks s) (LegacyUsernamePassword (st_username (app_cells s)) (st_password (app_cells s)))) \<and>
    pred_option (\<lambda>cfg. accepted env (app_ticks s) (cc_credentials cfg)) (app_daemon s)"
proof -
  have "app_inv env (app_new st d)" using assms(1) by (simp add: app_inv_def app_new_def)
  from app_run_inv [OF this assms(2)] show ?thesis by (auto simp: app_inv_def option.pred_set)
qed

definition sample_env :: app_env where
  "sample_env = \<lparr>ae_base = Inr sample_config,
     ae_auth = (\<lambda>n src cred. if cred = LegacyUsernamePassword ''alice'' ''secret'' then Inr () else Inl ''Forbidden''),
     ae_show_ip = (\<lambda>_. ''127.0.0.1'')\<rparr>"

definition sample_events :: "app_event list" where
  "sample_events = [Type_Form ''alice'' ''guess'', Press_Login, Type_Form ''alice'' ''secret'', Login_Answer, Draw_Frame, Press_Ok,
     Type_Form ''alice'' ''secret'', Press_Login, Login_Answer, Draw_Frame, Press_Connect (\<lambda>_. Exited True)]"

theorem credentials_were_accepted_witness:
  "\<exists>s. app_run sample_env sample_events (app_new default_cells Map.empty) = Some s \<and>
     map_option cc_credentials (app_daemon s) = Some (LegacyUsernamePassword ''alice'' ''secret'') \<and>
     accepted sample_env (app_ticks s) (LegacyUsernamePassword ''alice'' ''secret'')"
proof -
  have "\<exists>s. app_run sample_env sample_events (app_new default_cells Map.empty) = Some s \<and>
      map_option cc_credentials (app_daemon s) = Some (LegacyUsernamePassword ''alice'' ''secret'')"
    by (simp add: sample_events_def app_step_def app_new_def default_cells_def login_frame_def check_login_def sample_env_def
        get_config_def sample_config_def press_connect_def Let_def)
  then obtain s where s: "app_run sample_env sample_events (app_new default_cells Map.empty) = Some s"
      "map_option cc_credentials (app_daemon s) = Some (LegacyUsernamePassword ''alice'' ''secret'')" by blast
  then show ?thesis
    using credentials_were_accepted [OF _ s(1)] by (auto simp: default_cells_def pred_option_def)
qed

text \<open>
  Disconnecting takes the proxy of the desktop back. Logging out stops the client but leaves the
  desktop as it is: programs are still sent to a proxy that is no longer there.
\<close>

lemma disconnect_unsets_proxy: "desktop_proxies (app_desktop (press_disconnect (Exited True) s)) = (None, None)"
  by (simp add: press_disconnect_def unset_http_proxy_ok)

lemma logout_keeps_proxy:
  assumes "\<forall>i < 7. out i = Exited True" and "get_config (ae_base env) (app_cells s) = Inr cfg"
    and "st_proxy_autoconf (app_cells s)"
  shows "\<exists>s' host port. press_connect env out s = Some s' \<and> app_daemon (press_logout s') = None \<and>
    desktop_proxies (app_desktop (press_logout s')) = (Some (host, port), Some (host, port))"
proof -
  obtain a where "cc_http_proxy_listen cfg = Some a"
    using assms(2) by (auto simp: get_config_def split: sum.splits)
  with assms set_http_proxy_ok [OF assms(1), of "ae_show_ip env" a "app_desktop s"] show ?thesis
    by (auto simp: press_connect_def press_logout_def)
qed

section \<open>Logs and texts\<close>

text \<open>
  The log view: the records of the daemon, then the lines of this process, and of the text without
  its escapes the last 1000 lines. \<open>strip\<close> is the removal of terminal escapes.
\<close>

definition all_logs :: "string + string list \<Rightarrow> string \<Rightarrow> string + string list" where
  "all_logs remote raw = map_sum id (\<lambda>logs. logs @ split_on (char_of (10 :: nat)) raw) remote"

definition last_lines :: "string list \<Rightarrow> string list" where
  "last_lines ls = rev (take 1000 (rev ls))"

lemma last_lines_suffix: "suffix (last_lines ls) ls" and length_last_lines: "length (last_lines ls) = min 1000 (length ls)"
  by (simp_all add: last_lines_def rev_take suffix_drop)

text \<open>The texts: a table from labels to languages to texts.\<close>

definition l10n :: "(string \<rightharpoonup> string \<rightharpoonup> string) \<Rightarrow> string \<Rightarrow> string \<Rightarrow> string" where
  "l10n table lang label =
     (case table label of
        Some inner \<Rightarrow> (case inner lang of Some text \<Rightarrow> text | None \<Rightarrow> ''(unk)'')
      | None \<Rightarrow> ''(unk)'')"

end
