(* ===== verification/Windivert.thy ===== *)
theory Windivert
  imports Client_Vpn
begin

text \<open>
  Packet capture on Windows (binaries/geph5-client/src/vpn/windows.rs and vpn/windows/windivert): the
  bit fields of a packet's address (bindings.rs), the handle of the driver (mod.rs), packets
  (packet.rs), socket events (socket.rs) and the two threads around them. The driver itself is a
  parameter. Test code for the layout of structures is left out.
\<close>

unbundle bit_operations_syntax

section \<open>Bit fields\<close>

text \<open>
  A unit is a list of bytes. An index out of the list panics: None. \<open>big\<close> is the byte order of the
  target.
\<close>

definition bit_pos :: "bool \<Rightarrow> nat \<Rightarrow> nat" where
  "bit_pos big index = (if big then 7 - index mod 8 else index mod 8)"

definition get_bit :: "bool \<Rightarrow> bytes \<Rightarrow> nat \<Rightarrow> bool option" where
  "get_bit big storage index =
     (let byte_index = index div 8
      in if byte_index < length storage
         then let mask = push_bit (bit_pos big index) 1 in Some (storage ! byte_index AND mask = mask)
         else None)"

definition put_bit :: "bool \<Rightarrow> bytes \<Rightarrow> nat \<Rightarrow> bool \<Rightarrow> bytes option" where
  "put_bit big storage index val =
     (let byte_index = index div 8
      in if byte_index < length storage
         then let mask = push_bit (bit_pos big index) 1; byte = storage ! byte_index
              in Some (storage[byte_index := if val then byte OR mask else byte AND NOT mask])
         else None)"

definition mirror :: "bool \<Rightarrow> nat \<Rightarrow> nat \<Rightarrow> nat" where
  "mirror big bit_width i = (if big then bit_width - 1 - i else i)"

fun get_loop :: "bool \<Rightarrow> bytes \<Rightarrow> nat \<Rightarrow> nat \<Rightarrow> nat list \<Rightarrow> u64 \<Rightarrow> u64 option" where
  "get_loop big storage bit_offset bit_width [] val = Some val"
| "get_loop big storage bit_offset bit_width (i # is) val =
     (case get_bit big storage (i + bit_offset) of
        None \<Rightarrow> None
      | Some b \<Rightarrow> get_loop big storage bit_offset bit_width is
          (if b then val OR push_bit (mirror big bit_width i) 1 else val))"

definition unit_get :: "bool \<Rightarrow> bytes \<Rightarrow> nat \<Rightarrow> nat \<Rightarrow> u64 option" where
  "unit_get big storage bit_offset bit_width = get_loop big storage bit_offset bit_width [0..<bit_width] 0"

fun set_loop :: "bool \<Rightarrow> nat \<Rightarrow> nat \<Rightarrow> u64 \<Rightarrow> nat list \<Rightarrow> bytes \<Rightarrow> bytes option" where
  "set_loop big bit_offset bit_width val [] storage = Some storage"
| "set_loop big bit_offset bit_width val (i # is) storage =
     (let mask = push_bit i 1; val_bit_is_set = (val AND mask = mask)
      in case put_bit big storage (mirror big bit_width i + bit_offset) val_bit_is_set of
           None \<Rightarrow> None
         | Some storage' \<Rightarrow> set_loop big bit_offset bit_width val is storage')"

definition unit_set :: "bool \<Rightarrow> nat \<Rightarrow> nat \<Rightarrow> u64 \<Rightarrow> bytes \<Rightarrow> bytes option" where
  "unit_set big bit_offset bit_width val storage = set_loop big bit_offset bit_width val [0..<bit_width] storage"

text \<open>The bit of a unit at an index, which is what all of this is about.\<close>

definition bit_at :: "bool \<Rightarrow> bytes \<Rightarrow> nat \<Rightarrow> bool" where
  "bit_at big storage index = bit (storage ! (index div 8)) (bit_pos big index)"

lemma and_mask_iff: "n < LENGTH('a) \<Longrightarrow> (w AND 2 ^ n = 2 ^ n) \<longleftrightarrow> bit w n" for w :: "'a::len word"
proof
  assume n: "n < LENGTH('a)" and "w AND 2 ^ n = 2 ^ n"
  then have "bit (w AND 2 ^ n) n = bit (2 ^ n :: 'a word) n" by simp
  with n show "bit w n" by (simp add: bit_simps)
next
  assume "n < LENGTH('a)" and "bit w n"
  then show "w AND 2 ^ n = 2 ^ n" by (intro bit_word_eqI) (auto simp: bit_simps)
qed

lemma bit_pos_less [simp]: "bit_pos big index < 8"
proof -
  have "index mod 8 < 8" "7 - index mod 8 < 8" by (simp, simp add: less_Suc_eq_le)
  then show ?thesis unfolding bit_pos_def by simp
qed

lemma bit_pos_inj:
  assumes "index div 8 = index' div 8"
  shows "bit_pos big index = bit_pos big index' \<longleftrightarrow> index = index'"
proof
  assume eq: "bit_pos big index = bit_pos big index'"
  have "index mod 8 < 8" "index' mod 8 < 8" by simp_all
  with eq have "index mod 8 = index' mod 8" unfolding bit_pos_def by (cases big) simp_all
  with assms show "index = index'" by (metis div_mult_mod_eq)
qed simp

lemma get_bit_at: "index div 8 < length storage \<Longrightarrow> get_bit big storage index = Some (bit_at big storage index)"
  by (simp add: get_bit_def bit_at_def Let_def and_mask_iff)

lemma put_bit_at:
  assumes "index div 8 < length storage"
  shows "\<exists>s. put_bit big storage index val = Some s \<and> length s = length storage \<and>
    (\<forall>j. j div 8 < length storage \<longrightarrow> bit_at big s j = (if j = index then val else bit_at big storage j))"
proof -
  define s where "s = storage[index div 8 := if val then storage ! (index div 8) OR push_bit (bit_pos big index) 1
      else storage ! (index div 8) AND NOT (push_bit (bit_pos big index) 1)]"
  have "bit_at big s j = (if j = index then val else bit_at big storage j)" if "j div 8 < length storage" for j
  proof (cases "j div 8 = index div 8")
    case True
    then have "bit_pos big j = bit_pos big index \<longleftrightarrow> j = index" by (rule bit_pos_inj)
    moreover have "bit_pos big j < 8" "bit_pos big index < 8" by simp_all
    ultimately show ?thesis
      using True assms by (auto simp: bit_at_def s_def bit_simps)
  next
    case False
    then show ?thesis by (auto simp: bit_at_def s_def)
  qed
  moreover have "put_bit big storage index val = Some s" "length s = length storage"
    using assms by (simp_all add: put_bit_def s_def Let_def)
  ultimately show ?thesis by blast
qed

lemma get_loop_bits:
  assumes "\<forall>i \<in> set is. (i + off) div 8 < length st"
  shows "\<exists>v. get_loop big st off w is val = Some v \<and>
    (\<forall>n < 64. bit v n \<longleftrightarrow> bit val n \<or> (\<exists>i \<in> set is. mirror big w i = n \<and> bit_at big st (i + off)))"
  using assms
proof (induction "is" arbitrary: val)
  case (Cons i "is")
  define val' where "val' = (if bit_at big st (i + off) then val OR push_bit (mirror big w i) 1 else val)"
  have "bit val' n \<longleftrightarrow> bit val n \<or> (mirror big w i = n \<and> bit_at big st (i + off))" if "n < 64" for n
    using that by (auto simp: val'_def bit_simps)
  moreover have "get_loop big st off w (i # is) val = get_loop big st off w is val'"
    using Cons.prems by (simp add: get_bit_at val'_def)
  ultimately show ?case using Cons.IH [of val'] Cons.prems by auto
qed simp

lemma set_loop_bits:
  assumes "\<forall>i \<in> set is. i < 64 \<and> (mirror big w i + off) div 8 < length st" and "inj_on (mirror big w) (set is)" and "distinct is"
  shows "\<exists>s. set_loop big off w val is st = Some s \<and> length s = length st \<and>
    (\<forall>j. j div 8 < length st \<longrightarrow> bit_at big s j =
       (case find (\<lambda>i. mirror big w i + off = j) is of Some i \<Rightarrow> bit val i | None \<Rightarrow> bit_at big st j))"
  using assms
proof (induction "is" arbitrary: st)
  case (Cons i "is")
  have i: "i < 64" "(mirror big w i + off) div 8 < length st" using Cons.prems by simp_all
  obtain s1 where s1: "put_bit big st (mirror big w i + off) (bit val i) = Some s1" "length s1 = length st"
      "\<And>j. j div 8 < length st \<Longrightarrow> bit_at big s1 j = (if j = mirror big w i + off then bit val i else bit_at big st j)"
    using put_bit_at [OF i(2), of big "bit val i"] by blast
  have eq: "set_loop big off w val (i # is) st = set_loop big off w val is s1"
    using s1(1) i(1) by (simp add: and_mask_iff Let_def)
  have "mirror big w i' \<noteq> mirror big w i" if "i' \<in> set is" for i'
    using Cons.prems(2,3) that by (auto simp: inj_on_def)
  then have nf: "find (\<lambda>i'. mirror big w i' + off = mirror big w i + off) is = None" by (auto simp: find_None_iff)
  obtain s where "set_loop big off w val is s1 = Some s" "length s = length st"
      "\<And>j. j div 8 < length st \<Longrightarrow> bit_at big s j =
        (case find (\<lambda>i. mirror big w i + off = j) is of Some i \<Rightarrow> bit val i | None \<Rightarrow> bit_at big s1 j)"
    using Cons.IH [of s1] Cons.prems s1(2) by (auto simp: inj_on_insert)
  then show ?case using eq s1(3) nf by (auto split: option.splits)
qed simp

lemma mirror_mirror [simp]: "i < w \<Longrightarrow> mirror big w (mirror big w i) = i"
  by (simp add: mirror_def)

lemma mirror_less: "i < w \<Longrightarrow> mirror big w i < w"
  by (auto simp: mirror_def)

lemma in_unit: "i < 8 * l \<Longrightarrow> i div 8 < (l :: nat)"
  by (simp add: less_mult_imp_div_less mult.commute)

lemma unit_get_bits:
  assumes "off + w \<le> 8 * length st" and "w \<le> 64"
  shows "\<exists>v. unit_get big st off w = Some v \<and> (\<forall>n < 64. bit v n \<longleftrightarrow> n < w \<and> bit_at big st (mirror big w n + off))"
proof -
  have "(i + off) div 8 < length st" if "i \<in> set [0..<w]" for i using that assms(1) by (intro in_unit) simp
  then obtain v where v: "unit_get big st off w = Some v"
      "\<forall>n < 64. bit v n \<longleftrightarrow> bit (0 :: u64) n \<or> (\<exists>i \<in> set [0..<w]. mirror big w i = n \<and> bit_at big st (i + off))"
    using get_loop_bits [of "[0..<w]" off st big w 0] by (auto simp: unit_get_def)
  have "(\<exists>i \<in> set [0..<w]. mirror big w i = n \<and> bit_at big st (i + off)) \<longleftrightarrow> n < w \<and> bit_at big st (mirror big w n + off)" for n
  proof
    assume "\<exists>i \<in> set [0..<w]. mirror big w i = n \<and> bit_at big st (i + off)"
    then obtain i where "i < w" "mirror big w i = n" "bit_at big st (i + off)" by auto
    then show "n < w \<and> bit_at big st (mirror big w n + off)" using mirror_less [of i w big] by auto
  next
    assume n: "n < w \<and> bit_at big st (mirror big w n + off)"
    then show "\<exists>i \<in> set [0..<w]. mirror big w i = n \<and> bit_at big st (i + off)"
      using mirror_less [of n w big] by (intro bexI [of _ "mirror big w n"]) auto
  qed
  with v show ?thesis by auto
qed

lemma unit_set_bits:
  assumes "off + w \<le> 8 * length st" and "w \<le> 64"
  shows "\<exists>s. unit_set big off w val st = Some s \<and> length s = length st \<and>
    (\<forall>j < 8 * length st. bit_at big s j =
       (if off \<le> j \<and> j < off + w then bit val (mirror big w (j - off)) else bit_at big st j))"
proof -
  have "i < 64 \<and> (mirror big w i + off) div 8 < length st" if "i \<in> set [0..<w]" for i
    using that assms mirror_less [of i w big] by (auto intro!: in_unit)
  moreover have "inj_on (mirror big w) (set [0..<w])" by (auto simp: inj_on_def mirror_def)
  ultimately obtain s where s: "unit_set big off w val st = Some s" "length s = length st"
      "\<And>j. j div 8 < length st \<Longrightarrow> bit_at big s j =
        (case find (\<lambda>i. mirror big w i + off = j) [0..<w] of Some i \<Rightarrow> bit val i | None \<Rightarrow> bit_at big st j)"
    using set_loop_bits [of "[0..<w]" big w off st val] by (auto simp: unit_set_def)
  have "(case find (\<lambda>i. mirror big w i + off = j) [0..<w] of Some i \<Rightarrow> bit val i | None \<Rightarrow> bit_at big st j) =
      (if off \<le> j \<and> j < off + w then bit val (mirror big w (j - off)) else bit_at big st j)" for j
  proof (cases "find (\<lambda>i. mirror big w i + off = j) [0..<w]")
    case None
    have "\<not> (off \<le> j \<and> j < off + w)"
    proof
      assume a: "off \<le> j \<and> j < off + w"
      then have lt: "j - off < w" and ge: "off \<le> j" by auto
      then have "mirror big w (mirror big w (j - off)) + off = j" "mirror big w (j - off) < w"
        using mirror_less [OF lt] by simp_all
      with None show False by (auto simp: find_None_iff)
    qed
    with None show ?thesis by auto
  next
    case (Some i)
    then have "i < w" "mirror big w i + off = j" by (auto simp: find_Some_iff)
    then have "off \<le> j \<and> j < off + w" "mirror big w (j - off) = i" using mirror_less [of i w big] by auto
    with Some show ?thesis by simp
  qed
  with s show ?thesis by (auto intro: in_unit)
qed

text \<open>
  Reading a field after one was written: the same field gives what was written, cut to its width, a
  field apart from it what it had.
\<close>

lemma unit_get_set_same:
  assumes "off + w \<le> 8 * length st" and "w \<le> 64"
  shows "Option.bind (unit_set big off w val st) (\<lambda>s. unit_get big s off w) = Some (take_bit w val)"
proof -
  obtain s where s: "unit_set big off w val st = Some s" "length s = length st"
      "\<And>j. j < 8 * length st \<Longrightarrow> bit_at big s j =
        (if off \<le> j \<and> j < off + w then bit val (mirror big w (j - off)) else bit_at big st j)"
    using unit_set_bits [OF assms, of big val] by blast
  obtain v where v: "unit_get big s off w = Some v" "\<And>n. n < 64 \<Longrightarrow> bit v n \<longleftrightarrow> n < w \<and> bit_at big s (mirror big w n + off)"
    using unit_get_bits [of off w s big] assms s(2) by auto
  have "bit v n \<longleftrightarrow> bit (take_bit w val) n" if "n < 64" for n
    using v(2) [OF that] s(3) [of "mirror big w n + off"] mirror_less [of n w big] assms(1) that
    by (auto simp: bit_take_bit_iff)
  then have "v = take_bit w val" by (intro bit_word_eqI) simp
  with s(1) v(1) show ?thesis by simp
qed

lemma unit_get_set_other:
  assumes "off + w \<le> 8 * length st" and "w \<le> 64" and "off' + w' \<le> 8 * length st" and "w' \<le> 64"
    and "off + w \<le> off' \<or> off' + w' \<le> off"
  shows "Option.bind (unit_set big off w val st) (\<lambda>s. unit_get big s off' w') = unit_get big st off' w'"
proof -
  obtain s where s: "unit_set big off w val st = Some s" "length s = length st"
      "\<And>j. j < 8 * length st \<Longrightarrow> bit_at big s j =
        (if off \<le> j \<and> j < off + w then bit val (mirror big w (j - off)) else bit_at big st j)"
    using unit_set_bits [OF assms(1,2), of big val] by blast
  obtain v where v: "unit_get big s off' w' = Some v" "\<And>n. n < 64 \<Longrightarrow> bit v n \<longleftrightarrow> n < w' \<and> bit_at big s (mirror big w' n + off')"
    using unit_get_bits [of off' w' s big] assms(3,4) s(2) by auto
  obtain u where u: "unit_get big st off' w' = Some u" "\<And>n. n < 64 \<Longrightarrow> bit u n \<longleftrightarrow> n < w' \<and> bit_at big st (mirror big w' n + off')"
    using unit_get_bits [OF assms(3,4), of big] by auto
  have "bit v n \<longleftrightarrow> bit u n" if "n < 64" for n
    using v(2) [OF that] u(2) [OF that] s(3) [of "mirror big w' n + off'"] mirror_less [of n w' big] assms(3,5) by auto
  then have "v = u" by (intro bit_word_eqI) simp
  with s(1) v(1) u(1) show ?thesis by simp
qed

section \<open>The fields of an address\<close>

text \<open>
  A store of fields of limited width, each read and written on its own: what writing one field
  promises about all of them, and what follows for a series of writes.
\<close>

fun put_all :: "('f \<Rightarrow> 'v \<Rightarrow> 's \<Rightarrow> 's option) \<Rightarrow> ('f \<times> 'v) list \<Rightarrow> 's \<Rightarrow> 's option" where
  "put_all put [] s = Some s"
| "put_all put ((f, v) # rest) s = Option.bind (put f v s) (put_all put rest)"

locale field_store =
  fixes wf :: "'s \<Rightarrow> bool" and get :: "'f \<Rightarrow> 's \<Rightarrow> 'v option" and put :: "'f \<Rightarrow> 'v \<Rightarrow> 's \<Rightarrow> 's option"
    and cut :: "'f \<Rightarrow> 'v \<Rightarrow> 'v"
  assumes put_total: "wf s \<Longrightarrow> \<exists>t. put f v s = Some t \<and> wf t"
    and get_total: "wf s \<Longrightarrow> \<exists>v. get f s = Some v"
    and get_put: "wf s \<Longrightarrow> put f v s = Some t \<Longrightarrow> get g t = (if g = f then Some (cut f v) else get g s)"
begin

lemma put_all_get:
  assumes "wf s" and "distinct (map fst fvs)"
  shows "\<exists>t. put_all put fvs s = Some t \<and> wf t \<and>
    (\<forall>g. get g t = (case map_of fvs g of Some v \<Rightarrow> Some (cut g v) | None \<Rightarrow> get g s))"
  using assms
proof (induction fvs arbitrary: s)
  case (Cons fv fvs)
  obtain f v where fv: "fv = (f, v)" by (cases fv)
  obtain s' where s': "put f v s = Some s'" "wf s'" using put_total [OF Cons.prems(1)] by blast
  obtain t where t: "put_all put fvs s' = Some t" "wf t"
      "\<And>g. get g t = (case map_of fvs g of Some v \<Rightarrow> Some (cut g v) | None \<Rightarrow> get g s')"
    using Cons.IH [OF s'(2)] Cons.prems(2) by auto
  have "f \<notin> dom (map_of fvs)" using Cons.prems(2) fv by (simp add: dom_map_of_conv_image_fst)
  then have "get g t = (case map_of (fv # fvs) g of Some v \<Rightarrow> Some (cut g v) | None \<Rightarrow> get g s)" for g
    using t(3) [of g] get_put [OF Cons.prems(1) s'(1), of g] fv by (auto simp: domIff split: option.splits)
  with t(1,2) s'(1) fv show ?case by auto
qed simp

end

text \<open>
  \<open>WINDIVERT_ADDRESS\<close>, the union at its end as its 64 bytes. Windows is little-endian. The accessors
  of the bit fields are one pair of operations, on the field's place.
\<close>

datatype addr_field =
  F_Layer | F_Event | F_Sniffed | F_Outbound | F_Loopback | F_Impostor | F_IPv6 | F_IPChecksum | F_TCPChecksum
| F_UDPChecksum | F_Reserved1

record WINDIVERT_ADDRESS =
  Timestamp :: int
  bitfield_1 :: bytes
  Reserved2 :: u32
  anon_1 :: bytes

fun field_span :: "addr_field \<Rightarrow> nat \<times> nat" where
  "field_span F_Layer = (0, 8)"
| "field_span F_Event = (8, 8)"
| "field_span F_Sniffed = (16, 1)"
| "field_span F_Outbound = (17, 1)"
| "field_span F_Loopback = (18, 1)"
| "field_span F_Impostor = (19, 1)"
| "field_span F_IPv6 = (20, 1)"
| "field_span F_IPChecksum = (21, 1)"
| "field_span F_TCPChecksum = (22, 1)"
| "field_span F_UDPChecksum = (23, 1)"
| "field_span F_Reserved1 = (24, 8)"

definition bits_get :: "addr_field \<Rightarrow> bytes \<Rightarrow> u32 option" where
  "bits_get f st = map_option ucast (case field_span f of (off, w) \<Rightarrow> unit_get False st off w)"

definition bits_set :: "addr_field \<Rightarrow> u32 \<Rightarrow> bytes \<Rightarrow> bytes option" where
  "bits_set f val st = (case field_span f of (off, w) \<Rightarrow> unit_set False off w (ucast val) st)"

definition new_bitfield_1 ::
  "u32 \<Rightarrow> u32 \<Rightarrow> u32 \<Rightarrow> u32 \<Rightarrow> u32 \<Rightarrow> u32 \<Rightarrow> u32 \<Rightarrow> u32 \<Rightarrow> u32 \<Rightarrow> u32 \<Rightarrow> u32 \<Rightarrow> bytes option" where
  "new_bitfield_1 Layer Event Sniffed Outbound Loopback Impostor IPv6 IPChecksum TCPChecksum UDPChecksum Reserved1 =
     put_all bits_set
       [(F_Layer, Layer), (F_Event, Event), (F_Sniffed, Sniffed), (F_Outbound, Outbound), (F_Loopback, Loopback),
        (F_Impostor, Impostor), (F_IPv6, IPv6), (F_IPChecksum, IPChecksum), (F_TCPChecksum, TCPChecksum),
        (F_UDPChecksum, UDPChecksum), (F_Reserved1, Reserved1)] (replicate 4 0)"

definition addr_get :: "addr_field \<Rightarrow> WINDIVERT_ADDRESS \<Rightarrow> u32 option" where
  "addr_get f a = bits_get f (bitfield_1 a)"

definition addr_set :: "addr_field \<Rightarrow> u32 \<Rightarrow> WINDIVERT_ADDRESS \<Rightarrow> WINDIVERT_ADDRESS option" where
  "addr_set f val a = map_option (\<lambda>b. a\<lparr>bitfield_1 := b\<rparr>) (bits_set f val (bitfield_1 a))"

definition cut_field :: "addr_field \<Rightarrow> u32 \<Rightarrow> u32" where
  "cut_field f val = take_bit (snd (field_span f)) val"

lemma field_span_fits: "fst (field_span f) + snd (field_span f) \<le> 32 \<and> snd (field_span f) \<le> 8"
  by (cases f) simp_all

lemma field_span_apart:
  "f \<noteq> g \<Longrightarrow> fst (field_span f) + snd (field_span f) \<le> fst (field_span g) \<or>
    fst (field_span g) + snd (field_span g) \<le> fst (field_span f)"
  by (cases f; cases g; simp)

lemma ucast_cut: "w \<le> 32 \<Longrightarrow> (ucast (take_bit w (ucast val :: u64)) :: u32) = take_bit w val"
  by (rule bit_word_eqI) (auto simp: bit_simps)

lemma bits_get_set:
  assumes "length st = 4" and "bits_set f val st = Some t"
  shows "bits_get g t = (if g = f then Some (cut_field f val) else bits_get g st)"
proof -
  obtain off w off' w' where sp: "field_span f = (off, w)" "field_span g = (off', w')"
    by (cases "field_span f"; cases "field_span g")
  have fits: "off + w \<le> 8 * length st" "w \<le> 64" "off' + w' \<le> 8 * length st" "w' \<le> 64" "w \<le> 32"
    using field_span_fits [of f] field_span_fits [of g] sp assms(1) by simp_all
  have set: "unit_set False off w (ucast val) st = Some t" using assms(2) sp by (simp add: bits_set_def)
  show ?thesis
  proof (cases "g = f")
    case True
    then show ?thesis
      using unit_get_set_same [OF fits(1,2), of False "ucast val"] set sp ucast_cut [OF fits(5)]
      by (simp add: bits_get_def cut_field_def)
  next
    case False
    then have "off + w \<le> off' \<or> off' + w' \<le> off" using field_span_apart [of g f] sp by auto
    then show ?thesis
      using unit_get_set_other [OF fits(1-4), of False "ucast val"] set sp False by (simp add: bits_get_def)
  qed
qed

interpretation bits: field_store "\<lambda>st. length st = 4" bits_get bits_set cut_field
proof
  fix st :: bytes and f val
  assume l: "length st = 4"
  obtain off w where sp: "field_span f = (off, w)" by (cases "field_span f")
  have fits: "off + w \<le> 8 * length st" "w \<le> 64" using field_span_fits [of f] sp l by simp_all
  show "\<exists>t. bits_set f val st = Some t \<and> length t = 4"
    using unit_set_bits [OF fits, of False "ucast val"] sp l by (auto simp: bits_set_def)
  show "\<exists>v. bits_get f st = Some v"
    using unit_get_bits [OF fits, of False] sp by (auto simp: bits_get_def)
qed (rule bits_get_set)

interpretation addr: field_store "\<lambda>a. length (bitfield_1 a) = 4" addr_get addr_set cut_field
proof
  fix a :: WINDIVERT_ADDRESS and f val
  assume l: "length (bitfield_1 a) = 4"
  show "\<exists>t. addr_set f val a = Some t \<and> length (bitfield_1 t) = 4"
    using bits.put_total [OF l, of f val] by (auto simp: addr_set_def)
  show "\<exists>v. addr_get f a = Some v" using bits.get_total [OF l, of f] by (simp add: addr_get_def)
next
  fix a t :: WINDIVERT_ADDRESS and f g val
  assume "length (bitfield_1 a) = 4" and "addr_set f val a = Some t"
  then show "addr_get g t = (if g = f then Some (cut_field f val) else addr_get g a)"
    using bits.get_put [of "bitfield_1 a" f val _ g] by (auto simp: addr_set_def addr_get_def)
qed

text \<open>A field of a new unit has the value given for it, cut to its width.\<close>

lemma new_bitfield_1_get:
  "\<exists>st. new_bitfield_1 l e s ob lb im v6 ic tc uc r = Some st \<and> length st = 4 \<and>
     bits_get F_Layer st = Some (take_bit 8 l) \<and> bits_get F_Event st = Some (take_bit 8 e) \<and>
     bits_get F_Sniffed st = Some (take_bit 1 s) \<and> bits_get F_Outbound st = Some (take_bit 1 ob) \<and>
     bits_get F_Loopback st = Some (take_bit 1 lb) \<and> bits_get F_Impostor st = Some (take_bit 1 im) \<and>
     bits_get F_IPv6 st = Some (take_bit 1 v6) \<and> bits_get F_IPChecksum st = Some (take_bit 1 ic) \<and>
     bits_get F_TCPChecksum st = Some (take_bit 1 tc) \<and> bits_get F_UDPChecksum st = Some (take_bit 1 uc) \<and>
     bits_get F_Reserved1 st = Some (take_bit 8 r)"
proof -
  define fvs where "fvs =
     [(F_Layer, l), (F_Event, e), (F_Sniffed, s), (F_Outbound, ob), (F_Loopback, lb), (F_Impostor, im), (F_IPv6, v6),
      (F_IPChecksum, ic), (F_TCPChecksum, tc), (F_UDPChecksum, uc), (F_Reserved1, r)]"
  have "distinct (map fst fvs)" by (simp add: fvs_def)
  then obtain st where st: "put_all bits_set fvs (replicate 4 0) = Some st" "length st = 4"
      "\<And>g. bits_get g st = (case map_of fvs g of Some v \<Rightarrow> Some (cut_field g v) | None \<Rightarrow> bits_get g (replicate 4 0))"
    using bits.put_all_get [of "replicate 4 0" fvs] by auto
  have "new_bitfield_1 l e s ob lb im v6 ic tc uc r = Some st" using st(1) by (simp add: new_bitfield_1_def fvs_def)
  moreover have "bits_get g st = Some (cut_field g (the (map_of fvs g)))" for g
    using st(3) [of g] by (cases g) (simp_all add: fvs_def)
  ultimately show ?thesis using st(2) by (simp add: cut_field_def fvs_def)
qed

section \<open>Handles\<close>

text \<open>
  The driver's functions, each of which may change the driver's state: \<open>WinDivertRecv\<close> gets the space
  for a packet and gives its return code, the buffer afterwards, the length received and the address.
  An error is the number \<open>GetLastError\<close> has. A panic is None.
\<close>

type_synonym HANDLE = u64

record 'd windivert =
  WinDivertOpen :: "string \<Rightarrow> int \<Rightarrow> int \<Rightarrow> u64 \<Rightarrow> 'd \<Rightarrow> HANDLE \<times> 'd"
  WinDivertRecv :: "HANDLE \<Rightarrow> bytes \<Rightarrow> 'd \<Rightarrow> (int \<times> bytes \<times> u32 \<times> WINDIVERT_ADDRESS) \<times> 'd"
  WinDivertSend :: "HANDLE \<Rightarrow> bytes \<Rightarrow> u32 \<Rightarrow> WINDIVERT_ADDRESS \<Rightarrow> 'd \<Rightarrow> int \<times> 'd"
  WinDivertSendEx :: "HANDLE \<Rightarrow> bytes \<Rightarrow> WINDIVERT_ADDRESS list \<Rightarrow> 'd \<Rightarrow> int \<times> 'd"
  WinDivertClose :: "HANDLE \<Rightarrow> 'd \<Rightarrow> int \<times> 'd"
  GetLastError :: "'d \<Rightarrow> u32"

datatype win_layer = L_Network | L_NetworkForward | L_Flow | L_Socket | L_Reflect

fun to_windivert :: "win_layer \<Rightarrow> int" where
  "to_windivert L_Network = 0"
| "to_windivert L_NetworkForward = 1"
| "to_windivert L_Flow = 2"
| "to_windivert L_Socket = 3"
| "to_windivert L_Reflect = 4"

definition INVALID_HANDLE_VALUE :: HANDLE where
  "INVALID_HANDLE_VALUE = - 1"

definition check_c_error :: "'d windivert \<Rightarrow> 't \<Rightarrow> ('t \<Rightarrow> bool) \<Rightarrow> 'd \<Rightarrow> u32 + 't" where
  "check_c_error wd retcode is_success d = (if is_success retcode then Inr retcode else Inl (GetLastError wd d))"

definition handle_open ::
  "'d windivert \<Rightarrow> string \<Rightarrow> win_layer \<Rightarrow> int \<Rightarrow> u64 \<Rightarrow> 'd \<Rightarrow> ((u32 + HANDLE) \<times> 'd) option" where
  "handle_open wd flt layer priority flags d =
     (if CHR 0x00 \<in> set flt then None
      else let (possibly_handle, d') = WinDivertOpen wd flt (to_windivert layer) priority flags d
           in Some (check_c_error wd possibly_handle (\<lambda>h. h \<noteq> INVALID_HANDLE_VALUE) d', d'))"

definition handle_receive ::
  "'d windivert \<Rightarrow> HANDLE \<Rightarrow> bytes \<Rightarrow> 'd \<Rightarrow> (u32 + nat \<times> bytes \<times> WINDIVERT_ADDRESS) \<times> 'd" where
  "handle_receive wd h packet_buf d =
     (let ((maybe_received, buf, recv_len, addr), d') = WinDivertRecv wd h packet_buf d
      in (map_sum id (\<lambda>_. (unat recv_len, buf, addr)) (check_c_error wd maybe_received (\<lambda>n. 0 < n) d'), d'))"

definition handle_send :: "'d windivert \<Rightarrow> HANDLE \<Rightarrow> bytes \<Rightarrow> WINDIVERT_ADDRESS \<Rightarrow> 'd \<Rightarrow> (u32 + unit) \<times> 'd" where
  "handle_send wd h packet addr d =
     (let (maybe_injected, d') = WinDivertSend wd h packet (word_of_nat (length packet)) addr d
      in (map_sum id (\<lambda>_. ()) (check_c_error wd maybe_injected (\<lambda>b. 0 < b) d'), d'))"

definition handle_send_multi ::
  "'d windivert \<Rightarrow> HANDLE \<Rightarrow> bytes list \<Rightarrow> WINDIVERT_ADDRESS \<Rightarrow> 'd \<Rightarrow> (u32 + unit) \<times> 'd" where
  "handle_send_multi wd h packets addr d =
     (let addrs = map (\<lambda>_. addr) [0..<length packets];
          (maybe_injected, d') = WinDivertSendEx wd h (concat packets) addrs d
      in (map_sum id (\<lambda>_. ()) (check_c_error wd maybe_injected (\<lambda>b. 0 < b) d'), d'))"

definition handle_drop :: "'d windivert \<Rightarrow> HANDLE \<Rightarrow> 'd \<Rightarrow> 'd option" where
  "handle_drop wd h d =
     (let (retcode, d') = WinDivertClose wd h d
      in case check_c_error wd retcode (\<lambda>v. 0 < v) d' of Inl _ \<Rightarrow> None | Inr _ \<Rightarrow> Some d')"

section \<open>Packets\<close>

text \<open>
  What the threads share: the driver, the address of the last packet received, and the addresses
  exempted from the tunnel.
\<close>

record 'd win_state =
  w_driver :: 'd
  LAST_RECV_ADDR :: "WINDIVERT_ADDRESS option"
  WHITELIST :: "IpAddr set"

definition packet_open :: "'d windivert \<Rightarrow> string \<Rightarrow> int \<Rightarrow> 'd \<Rightarrow> ((u32 + HANDLE) \<times> 'd) option" where
  "packet_open wd flt priority d = handle_open wd flt L_Network priority 0 d"

definition packet_receive :: "'d windivert \<Rightarrow> HANDLE \<Rightarrow> 'd win_state \<Rightarrow> (u32 + bytes) \<times> 'd win_state" where
  "packet_receive wd h s =
     (case handle_receive wd h (replicate 4096 0) (w_driver s) of
        (Inl e, d) \<Rightarrow> (Inl e, s\<lparr>w_driver := d\<rparr>)
      | (Inr (packet_len, packet, addr), d) \<Rightarrow>
          (Inr (take packet_len packet), s\<lparr>w_driver := d, LAST_RECV_ADDR := Some addr\<rparr>))"

definition inject_fields :: "bool \<Rightarrow> (addr_field \<times> u32) list" where
  "inject_fields is_outbound =
     [(F_Outbound, if is_outbound then 1 else 0), (F_Impostor, 1), (F_IPChecksum, 0), (F_TCPChecksum, 0), (F_UDPChecksum, 0)]"

definition inject :: "'d windivert \<Rightarrow> HANDLE \<Rightarrow> bytes \<Rightarrow> bool \<Rightarrow> 'd win_state \<Rightarrow> ((u32 + unit) \<times> 'd win_state) option" where
  "inject wd h packet is_outbound s =
     (case LAST_RECV_ADDR s of
        None \<Rightarrow> Some (Inr (), s)
      | Some addr \<Rightarrow>
          (case put_all addr_set (inject_fields is_outbound) addr of
             None \<Rightarrow> None
           | Some addr' \<Rightarrow>
               let (r, d) = handle_send wd h packet addr' (w_driver s) in Some (r, s\<lparr>w_driver := d\<rparr>)))"

definition inject_multi ::
  "'d windivert \<Rightarrow> HANDLE \<Rightarrow> bytes list \<Rightarrow> bool \<Rightarrow> 'd win_state \<Rightarrow> ((u32 + unit) \<times> 'd win_state) option" where
  "inject_multi wd h packets is_outbound s =
     (case LAST_RECV_ADDR s of
        None \<Rightarrow> Some (Inr (), s)
      | Some addr \<Rightarrow>
          (case put_all addr_set (inject_fields is_outbound) addr of
             None \<Rightarrow> None
           | Some addr' \<Rightarrow>
               let (r, d) = handle_send_multi wd h packets addr' (w_driver s) in Some (r, s\<lparr>w_driver := d\<rparr>)))"

section \<open>Socket events\<close>

text \<open>The structure of a socket event lies in the union of the address, in C layout.\<close>

datatype SocketEvtType = Evt_Bind | Evt_Connect | Evt_Listen | Evt_Accept | Evt_Close

record WINDIVERT_DATA_SOCKET =
  ProcessId :: u32
  LocalAddr :: "u32 list"
  RemoteAddr :: "u32 list"
  LocalPort :: u16
  RemotePort :: u16
  Protocol :: byte

record SocketEvt =
  evt_kind :: SocketEvtType
  evt_local_addr :: SocketAddr
  evt_remote_addr :: SocketAddr
  evt_process_id :: u32
  evt_is_tcp :: bool

definition bytes_at :: "bytes \<Rightarrow> nat \<Rightarrow> nat \<Rightarrow> bytes" where
  "bytes_at raw off n = take n (drop off raw)"

definition socket_data :: "bytes \<Rightarrow> WINDIVERT_DATA_SOCKET" where
  "socket_data raw =
     \<lparr>ProcessId = u32_of_le (bytes_at raw 16 4),
      LocalAddr = map (\<lambda>i. u32_of_le (bytes_at raw (20 + 4 * i) 4)) [0..<4],
      RemoteAddr = map (\<lambda>i. u32_of_le (bytes_at raw (36 + 4 * i) 4)) [0..<4],
      LocalPort = u16_of_le (bytes_at raw 52 2), RemotePort = u16_of_le (bytes_at raw 54 2),
      Protocol = (raw ! 56)\<rparr>"

definition to_u8 :: "u32 list \<Rightarrow> bytes" where
  "to_u8 thirty_twos = (let ws = rev thirty_twos in map (\<lambda>i. be_bytes 4 (unat (ws ! (i div 4))) ! (i mod 4)) [0..<16])"

definition parse_addr :: "WINDIVERT_ADDRESS \<Rightarrow> WINDIVERT_DATA_SOCKET \<Rightarrow> (SocketAddr \<times> SocketAddr) option" where
  "parse_addr addr ws =
     map_option (\<lambda>v6.
       if v6 = 1
       then (\<lparr>sa_ip = V6 (word_of_nat (of_be_bytes (to_u8 (LocalAddr ws)))), sa_port = LocalPort ws\<rparr>,
             \<lparr>sa_ip = V6 (word_of_nat (of_be_bytes (to_u8 (RemoteAddr ws)))), sa_port = RemotePort ws\<rparr>)
       else (\<lparr>sa_ip = V4 (LocalAddr ws ! 0), sa_port = LocalPort ws\<rparr>,
             \<lparr>sa_ip = V4 (RemoteAddr ws ! 0), sa_port = RemotePort ws\<rparr>)) (addr_get F_IPv6 addr)"

definition evt_type :: "u32 \<Rightarrow> SocketEvtType option" where
  "evt_type e =
     (if e = 6 then Some Evt_Accept else if e = 3 then Some Evt_Bind else if e = 7 then Some Evt_Close
      else if e = 4 then Some Evt_Connect else if e = 5 then Some Evt_Listen else None)"

definition socket_open :: "'d windivert \<Rightarrow> string \<Rightarrow> int \<Rightarrow> 'd \<Rightarrow> ((u32 + HANDLE) \<times> 'd) option" where
  "socket_open wd flt priority d = handle_open wd flt L_Socket priority (1 OR 4) d"

definition socket_receive :: "'d windivert \<Rightarrow> HANDLE \<Rightarrow> 'd \<Rightarrow> ((u32 + SocketEvt) \<times> 'd) option" where
  "socket_receive wd h d =
     (case handle_receive wd h [] d of
        (Inl e, d') \<Rightarrow> Some (Inl e, d')
      | (Inr (_, _, addr), d') \<Rightarrow>
          (let data = socket_data (anon_1 addr)
           in case (parse_addr addr data, Option.bind (addr_get F_Event addr) evt_type) of
                (Some (local_addr, remote_addr), Some k) \<Rightarrow>
                  Some (Inr \<lparr>evt_kind = k, evt_local_addr = local_addr, evt_remote_addr = remote_addr,
                             evt_process_id = ProcessId data, evt_is_tcp = (Protocol data = 6)\<rparr>, d')
              | _ \<Rightarrow> None))"

text \<open>An IPv6 address is read from its four words, the lowest first.\<close>

lemma of_le_bytes_append: "of_le_bytes (xs @ ys) = of_le_bytes xs + 256 ^ length xs * of_le_bytes ys"
  by (induction xs) (simp_all add: algebra_simps)

lemma list_of_4: "length xs = 4 \<Longrightarrow> [xs ! 0, xs ! 1, xs ! 2, xs ! 3] = xs"
  by (intro nth_equalityI) (auto simp: less_Suc_eq eval_nat_numeral)

lemma to_u8_words: "to_u8 [a, b, c, d] = be_bytes 4 (unat d) @ be_bytes 4 (unat c) @ be_bytes 4 (unat b) @ be_bytes 4 (unat a)"
proof -
  define g where "g x = be_bytes 4 (unat x)" for x :: u32
  have "to_u8 [a, b, c, d] = [g d ! 0, g d ! 1, g d ! 2, g d ! 3] @ [g c ! 0, g c ! 1, g c ! 2, g c ! 3] @
      [g b ! 0, g b ! 1, g b ! 2, g b ! 3] @ [g a ! 0, g a ! 1, g a ! 2, g a ! 3]"
    by (simp add: to_u8_def upt_rec flip: g_def) (simp add: eval_nat_numeral)
  also have "\<dots> = g d @ g c @ g b @ g a" by (simp only: list_of_4 g_def length_be_bytes)
  finally show ?thesis by (simp add: g_def)
qed

lemma to_u8_value:
  "of_be_bytes (to_u8 [a, b, c, d]) = unat a + 2 ^ 32 * unat b + 2 ^ 64 * unat c + 2 ^ 96 * unat d"
proof -
  have le: "of_le_bytes (le_bytes 4 (unat x)) = unat x" for x :: u32
    using unsigned_less [of x, where ?'a = nat] by (simp add: of_le_bytes_le_bytes)
  show ?thesis by (simp add: to_u8_words of_be_bytes_def be_bytes_def of_le_bytes_append le)
qed

text \<open>
  The documented form of an event: an IPv6 address as four words from the lowest up, an IPv4 address
  mapped into one.
\<close>

fun addr_words :: "IpAddr \<Rightarrow> u32 list" where
  "addr_words (V4 a) = [a, 0xFFFF, 0, 0]"
| "addr_words (V6 x) = map (\<lambda>i. ucast (drop_bit (32 * i) x)) [0, 1, 2, 3]"

lemma radix_parts:
  fixes n m :: nat
  assumes "n < m ^ 4"
  shows "n mod m + m * (n div m mod m) + m ^ 2 * (n div m ^ 2 mod m) + m ^ 3 * (n div m ^ 3 mod m) = n"
proof -
  have q: "n div m ^ 2 = n div m div m" "n div m ^ 3 = n div m div m div m"
    by (simp_all add: div_mult2_eq power2_eq_square power3_eq_cube)
  have "n div m ^ 3 < m" using assms by (intro less_mult_imp_div_less) (simp add: eval_nat_numeral mult.assoc)
  then have r: "n div m ^ 3 mod m = n div m div m div m" using q by simp
  have "n mod m + m * (n div m mod m + m * (n div m div m mod m + m * (n div m div m div m))) = n"
    by (simp only: mod_mult_div_eq)
  then show ?thesis unfolding r unfolding q
    by (simp only: power2_eq_square power3_eq_cube distrib_left mult.assoc add.assoc)
qed

lemma word_parts:
  "word_of_nat (unat (ucast x :: u32) + 2 ^ 32 * unat (ucast (drop_bit 32 x) :: u32) +
     2 ^ 64 * unat (ucast (drop_bit 64 x) :: u32) + 2 ^ 96 * unat (ucast (drop_bit 96 x) :: u32)) = (x :: u128)"
proof -
  have "unat x < 2 ^ 128" using unsigned_less [of x, where ?'a = nat] by simp
  then have u: "unat (ucast (drop_bit n x) :: u32) = unat x div 2 ^ n mod 2 ^ 32" for n
    by (simp only: unsigned_ucast_eq unsigned_drop_bit_eq) (simp add: drop_bit_eq_div take_bit_eq_mod)
  have u0: "unat (ucast x :: u32) = unat x mod 2 ^ 32" using u [of 0] by simp
  have p: "(2 ^ 32) ^ 2 = (2 :: nat) ^ 64" "(2 ^ 32) ^ 3 = (2 :: nat) ^ 96" by simp_all
  have "unat x < (2 ^ 32) ^ 4" using unsigned_less [of x, where ?'a = nat] by simp
  from radix_parts [OF this] have "unat (ucast x :: u32) + 2 ^ 32 * unat (ucast (drop_bit 32 x) :: u32) +
      2 ^ 64 * unat (ucast (drop_bit 64 x) :: u32) + 2 ^ 96 * unat (ucast (drop_bit 96 x) :: u32) = unat x"
    by (simp only: u u0 p)
  then show ?thesis by (rule ssubst [of _ _ "\<lambda>y. word_of_nat y = x"]) simp
qed

definition socket_union :: "u32 \<Rightarrow> IpAddr \<Rightarrow> IpAddr \<Rightarrow> u16 \<Rightarrow> u16 \<Rightarrow> byte \<Rightarrow> bytes" where
  "socket_union pid local remote lport rport proto =
     replicate 16 0 @ u32_le pid @ concat (map u32_le (addr_words local)) @ concat (map u32_le (addr_words remote)) @
     u16_le lport @ u16_le rport @ [proto] @ replicate 7 0"

lemma bytes_at_here: "length x = n \<Longrightarrow> length pre = off \<Longrightarrow> bytes_at (pre @ x @ post) off n = x"
  by (simp add: bytes_at_def)

lemma socket_data_words:
  assumes "length ls = 4" and "length rs = 4"
  shows "socket_data (replicate 16 0 @ u32_le pid @ concat (map u32_le ls) @ concat (map u32_le rs) @
      u16_le lport @ u16_le rport @ [proto] @ rest) =
    \<lparr>ProcessId = pid, LocalAddr = ls, RemoteAddr = rs, LocalPort = lport, RemotePort = rport, Protocol = proto\<rparr>"
proof -
  obtain l0 l1 l2 l3 where l: "ls = [l0, l1, l2, l3]" using list_of_4 [OF assms(1)] by metis
  obtain r0 r1 r2 r3 where r: "rs = [r0, r1, r2, r3]" using list_of_4 [OF assms(2)] by metis
  show ?thesis
    by (simp add: socket_data_def l r bytes_at_def upt_rec nth_append word_bytes_roundtrip)
qed

definition is_v6 :: "IpAddr \<Rightarrow> bool" where
  "is_v6 a \<longleftrightarrow> (case a of V6 _ \<Rightarrow> True | V4 _ \<Rightarrow> False)"

lemma addr_words_read:
  "is_v6 a \<Longrightarrow> V6 (word_of_nat (of_be_bytes (to_u8 (addr_words a)))) = a"
  "\<not> is_v6 a \<Longrightarrow> V4 (addr_words a ! 0) = a"
proof -
  show "V6 (word_of_nat (of_be_bytes (to_u8 (addr_words a)))) = a" if "is_v6 a"
  proof (cases a)
    case (V6 x)
    then show ?thesis using word_parts [of x] by (simp add: to_u8_value del: of_nat_add of_nat_mult of_nat_numeral)
  qed (use that in \<open>simp add: is_v6_def\<close>)
  show "V4 (addr_words a ! 0) = a" if "\<not> is_v6 a" using that by (cases a) (simp_all add: is_v6_def)
qed

lemma socket_event_read:
  assumes "WinDivertRecv wd h [] d = ((ret, buf, len, a), d')" and "0 < ret"
    and "anon_1 a = socket_union pid local remote lport rport proto" and "is_v6 local = is_v6 remote"
    and "addr_get F_IPv6 a = Some (of_bool (is_v6 local))" and "addr_get F_Event a = Some e" and "evt_type e = Some k"
  shows "socket_receive wd h d =
    Some (Inr \<lparr>evt_kind = k, evt_local_addr = \<lparr>sa_ip = local, sa_port = lport\<rparr>,
      evt_remote_addr = \<lparr>sa_ip = remote, sa_port = rport\<rparr>, evt_process_id = pid, evt_is_tcp = (proto = 6)\<rparr>, d')"
proof -
  have len: "length (addr_words x) = 4" for x by (cases x) simp_all
  have "socket_data (anon_1 a) =
      \<lparr>ProcessId = pid, LocalAddr = addr_words local, RemoteAddr = addr_words remote,
       LocalPort = lport, RemotePort = rport, Protocol = proto\<rparr>"
    unfolding assms(3) socket_union_def by (rule socket_data_words) (rule len)+
  moreover from this have "parse_addr a (socket_data (anon_1 a)) =
      Some (\<lparr>sa_ip = local, sa_port = lport\<rparr>, \<lparr>sa_ip = remote, sa_port = rport\<rparr>)"
    using assms(4,5) by (cases "is_v6 local") (simp_all add: parse_addr_def addr_words_read)
  ultimately show ?thesis
    using assms(1,2,6,7) by (simp add: socket_receive_def handle_receive_def check_c_error_def)
qed

section \<open>The two threads\<close>

text \<open>
  \<open>up_shuffle\<close> decides on each packet it has received: to an exempted address it is put back, else it
  goes to the tunnel; what is not IPv4 or cannot be put back is dropped with a warning. \<open>ipv4_dest\<close>
  is the parser of pnet_packet.
\<close>

datatype up_result = Up_Warn | Up_None | Up_Some bytes

definition up_decide ::
  "'d windivert \<Rightarrow> (bytes \<Rightarrow> u32 option) \<Rightarrow> HANDLE \<Rightarrow> bytes \<Rightarrow> 'd win_state \<Rightarrow> (up_result \<times> 'd win_state) option" where
  "up_decide wd ipv4_dest h raw_pkt s =
     (case ipv4_dest raw_pkt of
        None \<Rightarrow> Some (Up_Warn, s)
      | Some dest \<Rightarrow>
          if V4 dest \<in> WHITELIST s
          then map_option (\<lambda>(r, s'). (case r of Inl _ \<Rightarrow> Up_Warn | Inr _ \<Rightarrow> Up_None, s')) (inject wd h raw_pkt True s)
          else Some (Up_Some raw_pkt, s))"

definition win_whitelist :: "IpAddr \<Rightarrow> 'd win_state \<Rightarrow> 'd win_state" where
  "win_whitelist a s = s\<lparr>WHITELIST := insert a (WHITELIST s)\<rparr>"

text \<open>
  The threads take turns at the calls of the driver. \<open>up_pc\<close> is the packet the upward thread holds.
  Of the past, the packets decided on with the exemptions at that moment, the packets sent to the
  tunnel, and the packets from the tunnel with whether one had been received before.
\<close>

record 'd win_run = "'d win_state" +
  up_pc :: "bytes option"
  dn_alive :: bool
  decided :: "(bytes \<times> IpAddr set) list"
  tunnelled :: "bytes list"
  arrived :: "(bytes \<times> bool) list"

definition lift_win :: "'d win_state \<Rightarrow> 'd win_run \<Rightarrow> 'd win_run" where
  "lift_win t r = win_state.extend t (win_run.fields (up_pc r) (dn_alive r) (decided r) (tunnelled r) (arrived r))"

inductive win_step :: "'d windivert \<Rightarrow> (bytes \<Rightarrow> u32 option) \<Rightarrow> HANDLE \<Rightarrow> HANDLE \<Rightarrow> 'd win_run \<Rightarrow> 'd win_run \<Rightarrow> bool"
  for wd ipv4_dest hup hdn where
  Win_Receive: "up_pc r = None \<Longrightarrow> packet_receive wd hup (win_state.truncate r) = (res, t) \<Longrightarrow>
    win_step wd ipv4_dest hup hdn r ((lift_win t r)\<lparr>up_pc := (case res of Inl _ \<Rightarrow> None | Inr p \<Rightarrow> Some p)\<rparr>)"
| Win_Decide: "up_pc r = Some p \<Longrightarrow> up_decide wd ipv4_dest hup p (win_state.truncate r) = Some (res, t) \<Longrightarrow>
    win_step wd ipv4_dest hup hdn r
      ((lift_win t r)\<lparr>up_pc := None, decided := decided r @ [(p, WHITELIST r)],
        tunnelled := tunnelled r @ (case res of Up_Some q \<Rightarrow> [q] | _ \<Rightarrow> [])\<rparr>)"
| Win_Down: "dn_alive r \<Longrightarrow> inject wd hdn pkt False (win_state.truncate r) = Some (res, t) \<Longrightarrow>
    win_step wd ipv4_dest hup hdn r
      ((lift_win t r)\<lparr>dn_alive := \<not> isl res, arrived := arrived r @ [(pkt, LAST_RECV_ADDR r \<noteq> None)]\<rparr>)"
| Win_Exempt: "win_step wd ipv4_dest hup hdn r (lift_win (win_whitelist a (win_state.truncate r)) r)"

text \<open>
  What the driver promises: sending hands it the packet with its address, receiving hands it nothing
  and fills in an address. \<open>handed\<close> are the packets handed to the driver so far.
\<close>

definition driver_ok :: "'d windivert \<Rightarrow> ('d \<Rightarrow> (bytes \<times> WINDIVERT_ADDRESS) list) \<Rightarrow> bool" where
  "driver_ok wd handed \<longleftrightarrow>
     (\<forall>h buf d ret buf' len a d'. WinDivertRecv wd h buf d = ((ret, buf', len, a), d') \<longrightarrow>
        handed d' = handed d \<and> length (bitfield_1 a) = 4) \<and>
     (\<forall>h p n a d ret d'. WinDivertSend wd h p n a d = (ret, d') \<longrightarrow> handed d' = handed d @ [(p, a)])"

definition exempt :: "(bytes \<Rightarrow> u32 option) \<Rightarrow> bytes \<times> IpAddr set \<Rightarrow> bool" where
  "exempt ipv4_dest = (\<lambda>(p, wl). case ipv4_dest p of None \<Rightarrow> False | Some dest \<Rightarrow> V4 dest \<in> wl)"

definition captured :: "(bytes \<Rightarrow> u32 option) \<Rightarrow> bytes \<times> IpAddr set \<Rightarrow> bool" where
  "captured ipv4_dest = (\<lambda>(p, wl). case ipv4_dest p of None \<Rightarrow> False | Some dest \<Rightarrow> V4 dest \<notin> wl)"

definition goes_out :: "bool \<Rightarrow> bytes \<times> WINDIVERT_ADDRESS \<Rightarrow> bool" where
  "goes_out ob pa \<longleftrightarrow> addr_get F_Outbound (snd pa) = Some (of_bool ob)"

definition marked :: "WINDIVERT_ADDRESS \<Rightarrow> bool" where
  "marked a \<longleftrightarrow> addr_get F_Impostor a = Some 1 \<and>
     (\<forall>f \<in> {F_IPChecksum, F_TCPChecksum, F_UDPChecksum}. addr_get f a = Some 0)"

definition win_inv :: "('d \<Rightarrow> (bytes \<times> WINDIVERT_ADDRESS) list) \<Rightarrow> (bytes \<Rightarrow> u32 option) \<Rightarrow> 'd win_run \<Rightarrow> bool" where
  "win_inv handed ipv4_dest r \<longleftrightarrow>
     (\<forall>a. LAST_RECV_ADDR r = Some a \<longrightarrow> length (bitfield_1 a) = 4) \<and>
     (up_pc r \<noteq> None \<longrightarrow> LAST_RECV_ADDR r \<noteq> None) \<and>
     tunnelled r = map fst (filter (captured ipv4_dest) (decided r)) \<and>
     map fst (filter (goes_out True) (handed (w_driver r))) = map fst (filter (exempt ipv4_dest) (decided r)) \<and>
     map fst (filter (goes_out False) (handed (w_driver r))) = map fst (filter snd (arrived r)) \<and>
     (\<forall>pa \<in> set (handed (w_driver r)). marked (snd pa))"

lemma inject_address:
  assumes "length (bitfield_1 a) = 4"
  shows "\<exists>a'. put_all addr_set (inject_fields ob) a = Some a' \<and> marked a' \<and>
    addr_get F_Outbound a' = Some (of_bool ob) \<and>
    (\<forall>f. f \<notin> fst ` set (inject_fields ob) \<longrightarrow> addr_get f a' = addr_get f a)"
proof -
  have "distinct (map fst (inject_fields ob))" by (simp add: inject_fields_def)
  then obtain a' where a': "put_all addr_set (inject_fields ob) a = Some a'"
      "\<And>g. addr_get g a' = (case map_of (inject_fields ob) g of Some v \<Rightarrow> Some (cut_field g v) | None \<Rightarrow> addr_get g a)"
    using addr.put_all_get [OF assms] by blast
  have "marked a'" by (simp add: marked_def a'(2) inject_fields_def cut_field_def)
  moreover have "addr_get F_Outbound a' = Some (of_bool ob)"
    by (cases ob) (simp_all add: a'(2) inject_fields_def cut_field_def)
  moreover have "addr_get f a' = addr_get f a" if "f \<notin> fst ` set (inject_fields ob)" for f
    using that by (simp add: a'(2) map_of_eq_None_iff [THEN iffD2])
  ultimately show ?thesis using a'(1) by blast
qed

lemma inject_handed:
  assumes "driver_ok wd handed" and "\<And>a. LAST_RECV_ADDR s = Some a \<Longrightarrow> length (bitfield_1 a) = 4"
  shows "\<exists>res t. inject wd h p ob s = Some (res, t) \<and>
    LAST_RECV_ADDR t = LAST_RECV_ADDR s \<and> WHITELIST t = WHITELIST s \<and>
    (if LAST_RECV_ADDR s = None then handed (w_driver t) = handed (w_driver s)
     else \<exists>a. handed (w_driver t) = handed (w_driver s) @ [(p, a)] \<and> marked a \<and> addr_get F_Outbound a = Some (of_bool ob))"
proof (cases "LAST_RECV_ADDR s")
  case None
  then show ?thesis by (simp add: inject_def)
next
  case (Some a)
  obtain a' where a': "put_all addr_set (inject_fields ob) a = Some a'" "marked a'"
      "addr_get F_Outbound a' = Some (of_bool ob)"
    using inject_address [OF assms(2) [OF Some]] by blast
  obtain ret d where d: "WinDivertSend wd h p (word_of_nat (length p)) a' (w_driver s) = (ret, d)" by fastforce
  then have "handed d = handed (w_driver s) @ [(p, a')]" using assms(1) unfolding driver_ok_def by blast
  with Some a' d show ?thesis
    by (auto simp: inject_def handle_send_def Let_def)
qed

lemma lift_win_simps [simp]:
  "w_driver (lift_win t r) = w_driver t" "LAST_RECV_ADDR (lift_win t r) = LAST_RECV_ADDR t"
  "WHITELIST (lift_win t r) = WHITELIST t" "up_pc (lift_win t r) = up_pc r" "dn_alive (lift_win t r) = dn_alive r"
  "decided (lift_win t r) = decided r" "tunnelled (lift_win t r) = tunnelled r" "arrived (lift_win t r) = arrived r"
  by (simp_all add: lift_win_def win_state.defs win_run.defs)

lemma truncate_win_simps [simp]:
  "w_driver (win_state.truncate r) = w_driver r" "LAST_RECV_ADDR (win_state.truncate r) = LAST_RECV_ADDR r"
  "WHITELIST (win_state.truncate r) = WHITELIST r"
  by (simp_all add: win_state.defs)

lemma filter_goes_out:
  "filter (goes_out ob) (hs @ [(p, a)]) = filter (goes_out ob) hs @ (if goes_out ob (p, a) then [(p, a)] else [])"
  by simp

lemma goes_out_iff: "addr_get F_Outbound a = Some (of_bool ob) \<Longrightarrow> goes_out ob' (p, a) \<longleftrightarrow> ob' = ob"
  by (cases ob; cases ob') (simp_all add: goes_out_def)

lemma win_receive_inv:
  assumes ok: "driver_ok wd handed" and inv: "win_inv handed ipv4_dest r" and "up_pc r = None"
    and rcv: "packet_receive wd hup (win_state.truncate r) = (res, t)"
  shows "win_inv handed ipv4_dest ((lift_win t r)\<lparr>up_pc := (case res of Inl _ \<Rightarrow> None | Inr p \<Rightarrow> Some p)\<rparr>)"
proof -
  obtain ret buf len a d where d: "WinDivertRecv wd hup (replicate 4096 0) (w_driver r) = ((ret, buf, len, a), d)"
    by (metis prod.collapse)
  then have "handed d = handed (w_driver r)" "length (bitfield_1 a) = 4" using ok unfolding driver_ok_def by blast+
  moreover have "w_driver t = d \<and> (if 0 < ret then LAST_RECV_ADDR t = Some a \<and> \<not> isl res
      else LAST_RECV_ADDR t = LAST_RECV_ADDR r \<and> isl res)"
    using rcv d by (auto simp: packet_receive_def handle_receive_def check_c_error_def split: if_splits)
  ultimately show ?thesis using inv by (auto simp: win_inv_def split: sum.splits if_splits)
qed

lemma win_decide_inv:
  assumes ok: "driver_ok wd handed" and inv: "win_inv handed ipv4_dest r" and pc: "up_pc r = Some p"
    and dec: "up_decide wd ipv4_dest hup p (win_state.truncate r) = Some (res, t)"
  shows "win_inv handed ipv4_dest ((lift_win t r)\<lparr>up_pc := None, decided := decided r @ [(p, WHITELIST r)],
    tunnelled := tunnelled r @ (case res of Up_Some q \<Rightarrow> [q] | _ \<Rightarrow> [])\<rparr>)"
proof (cases "exempt ipv4_dest (p, WHITELIST r)")
  case False
  then have "t = win_state.truncate r \<and> res = (if captured ipv4_dest (p, WHITELIST r) then Up_Some p else Up_Warn)"
    using dec by (auto simp: up_decide_def exempt_def captured_def split: option.splits if_splits)
  with False inv show ?thesis by (simp add: win_inv_def)
next
  case True
  then obtain dest where dest: "ipv4_dest p = Some dest" "V4 dest \<in> WHITELIST r"
    by (auto simp: exempt_def split: option.splits)
  then have cap: "\<not> captured ipv4_dest (p, WHITELIST r)" by (simp add: captured_def)
  obtain res' t' where t': "inject wd hup p True (win_state.truncate r) = Some (res', t')"
      "LAST_RECV_ADDR t' = LAST_RECV_ADDR r" "WHITELIST t' = WHITELIST r"
      "\<exists>a. handed (w_driver t') = handed (w_driver r) @ [(p, a)] \<and> marked a \<and> addr_get F_Outbound a = Some (of_bool True)"
    using inject_handed [OF ok, of "win_state.truncate r" hup p True] inv pc by (auto simp: win_inv_def)
  then obtain a where a: "handed (w_driver t') = handed (w_driver r) @ [(p, a)]" "marked a" "goes_out True (p, a)"
      "\<not> goes_out False (p, a)"
    using goes_out_iff by (metis (full_types))
  have "t = t' \<and> res \<in> {Up_Warn, Up_None}"
    using dec dest t'(1) by (auto simp: up_decide_def split: sum.splits)
  with a t'(2) True cap inv show ?thesis by (auto simp: win_inv_def)
qed

lemma win_down_inv:
  assumes ok: "driver_ok wd handed" and inv: "win_inv handed ipv4_dest r"
    and inj: "inject wd hdn pkt False (win_state.truncate r) = Some (res, t)"
  shows "win_inv handed ipv4_dest
    ((lift_win t r)\<lparr>dn_alive := \<not> isl res, arrived := arrived r @ [(pkt, LAST_RECV_ADDR r \<noteq> None)]\<rparr>)"
proof (cases "LAST_RECV_ADDR r")
  case None
  with inj have "t = win_state.truncate r" by (simp add: inject_def)
  with None inv show ?thesis by (simp add: win_inv_def)
next
  case (Some x)
  then obtain a where a: "handed (w_driver t) = handed (w_driver r) @ [(pkt, a)]" "marked a"
      "addr_get F_Outbound a = Some (of_bool False)" and t: "LAST_RECV_ADDR t = LAST_RECV_ADDR r"
    using inject_handed [OF ok, of "win_state.truncate r" hdn pkt False] inv inj by (auto simp: win_inv_def)
  then have "goes_out False (pkt, a)" "\<not> goes_out True (pkt, a)" using goes_out_iff [OF a(3)] by simp_all
  with a t Some inv show ?thesis by (auto simp: win_inv_def)
qed

lemma win_reach_inv:
  assumes "driver_ok wd handed" and "(win_step wd ipv4_dest hup hdn)\<^sup>*\<^sup>* r0 r" and "win_inv handed ipv4_dest r0"
  shows "win_inv handed ipv4_dest r"
  using assms(2,3)
proof (induction rule: rtranclp_induct)
  case (step r t)
  note inv = step.IH [OF step.prems]
  from step.hyps(2) show ?case
  proof (cases rule: win_step.cases)
    case Win_Receive
    then show ?thesis using win_receive_inv [OF assms(1) inv] by blast
  next
    case Win_Decide
    then show ?thesis using win_decide_inv [OF assms(1) inv] by blast
  next
    case Win_Down
    then show ?thesis using win_down_inv [OF assms(1) inv] by blast
  next
    case Win_Exempt
    with inv show ?thesis by (simp add: win_inv_def win_whitelist_def)
  qed
qed

definition win_init :: "('d \<Rightarrow> (bytes \<times> WINDIVERT_ADDRESS) list) \<Rightarrow> 'd win_run \<Rightarrow> bool" where
  "win_init handed r \<longleftrightarrow> handed (w_driver r) = [] \<and> LAST_RECV_ADDR r = None \<and> up_pc r = None \<and> decided r = [] \<and>
     tunnelled r = [] \<and> arrived r = []"


definition tiny_addr :: WINDIVERT_ADDRESS where
  "tiny_addr = \<lparr>Timestamp = 0, bitfield_1 = [0, 0, 0xff, 0], Reserved2 = 0, anon_1 = []\<rparr>"

definition tiny_driver :: "(bytes \<times> WINDIVERT_ADDRESS) list windivert" where
  "tiny_driver =
     \<lparr>WinDivertOpen = \<lambda>_ _ _ _ d. (1, d), WinDivertRecv = \<lambda>_ buf d. ((1, 7 # tl buf, 1, tiny_addr), d),
      WinDivertSend = \<lambda>_ p _ a d. (1, d @ [(p, a)]), WinDivertSendEx = \<lambda>_ _ _ d. (1, d),
      WinDivertClose = \<lambda>_ d. (1, d), GetLastError = \<lambda>_. 0\<rparr>"

definition tiny_dest :: "bytes \<Rightarrow> u32 option" where
  "tiny_dest p = (case p of [b] \<Rightarrow> Some (ucast b) | _ \<Rightarrow> None)"

lemma tiny_driver_ok: "driver_ok tiny_driver id"
  by (simp add: driver_ok_def tiny_driver_def tiny_addr_def)

definition tiny_win :: "(bytes \<times> WINDIVERT_ADDRESS) list win_run" where
  "tiny_win = \<lparr>w_driver = [], LAST_RECV_ADDR = None, WHITELIST = {}, up_pc = None, dn_alive = True, decided = [],
     tunnelled = [], arrived = []\<rparr>"

lemma tiny_inject:
  "put_all addr_set (inject_fields True) tiny_addr = Some (tiny_addr\<lparr>bitfield_1 := [0, 0, 0x1f, 0]\<rparr>)"
  by code_simp

definition tiny_end :: "(bytes \<times> WINDIVERT_ADDRESS) list win_run" where
  "tiny_end = tiny_win\<lparr>w_driver := [([7], tiny_addr\<lparr>bitfield_1 := [0, 0, 0x1f, 0]\<rparr>)],
     LAST_RECV_ADDR := Some tiny_addr, WHITELIST := {V4 7}, decided := [([7], {V4 7})]\<rparr>"

lemma tiny_put_back: "(win_step tiny_driver tiny_dest 1 2)\<^sup>*\<^sup>* tiny_win tiny_end"
proof -
  let ?step = "win_step tiny_driver tiny_dest 1 2"
  define r1 where "r1 = tiny_win\<lparr>WHITELIST := {V4 7}\<rparr>"
  define r2 where "r2 = r1\<lparr>LAST_RECV_ADDR := Some tiny_addr, up_pc := Some [7]\<rparr>"
  have "?step tiny_win r1"
    using Win_Exempt [of tiny_driver tiny_dest 1 2 tiny_win "V4 7"]
    by (simp add: r1_def win_whitelist_def tiny_win_def lift_win_def win_state.defs win_run.defs)
  moreover have "packet_receive tiny_driver 1 (win_state.truncate r1) =
      (Inr [7], (win_state.truncate r1)\<lparr>LAST_RECV_ADDR := Some tiny_addr\<rparr>)"
    by (simp add: packet_receive_def handle_receive_def check_c_error_def tiny_driver_def r1_def tiny_win_def win_state.defs)
  then have "?step r1 r2"
    using Win_Receive [of r1 tiny_driver 1 "Inr [7]" "(win_state.truncate r1)\<lparr>LAST_RECV_ADDR := Some tiny_addr\<rparr>" tiny_dest 2]
    by (simp add: r2_def r1_def tiny_win_def lift_win_def win_state.defs win_run.defs)
  moreover have "up_decide tiny_driver tiny_dest 1 [7] (win_state.truncate r2) =
      Some (Up_None, (win_state.truncate r2)\<lparr>w_driver := [([7], tiny_addr\<lparr>bitfield_1 := [0, 0, 0x1f, 0]\<rparr>)]\<rparr>)"
    by (simp add: up_decide_def tiny_dest_def r2_def r1_def tiny_win_def win_state.defs inject_def tiny_inject
        handle_send_def check_c_error_def tiny_driver_def)
  then have "?step r2 tiny_end"
    using Win_Decide [of r2 "[7]" tiny_driver tiny_dest 1 Up_None
        "(win_state.truncate r2)\<lparr>w_driver := [([7], tiny_addr\<lparr>bitfield_1 := [0, 0, 0x1f, 0]\<rparr>)]\<rparr>" 2]
    by (simp add: r2_def r1_def tiny_end_def tiny_win_def lift_win_def win_state.defs win_run.defs)
  ultimately show ?thesis by (meson rtranclp.rtrancl_into_rtrancl r_into_rtranclp)
qed


end
