(* ===== verification/Accept_Loop.thy ===== *)
theory Accept_Loop
  imports Sos_Handshake Listeners
begin

text \<open>
  Listeners that negotiate in the background: the loop of the sosistab3 listener
  (libraries/sillad-sosistab3/src/listener.rs) and of the TLS listener
  (libraries/sillad-native-tls/src/lib.rs). Each accepted connection gets a task; those that succeed
  hand their pipe over a channel of one place to whoever accepts from the listener. The TLS library is
  a parameter.
\<close>

section \<open>Tasks and the channel\<close>

text \<open>
  The state: the instant, whether the loop still accepts, the connections under negotiation with the
  clock at their acceptance, the pipes that wait for the channel, the channel, the pipes accepted from
  the listener, and what the tasks share. Of the past, the connections that came and those that
  succeeded, with the instant.
\<close>

record ('c, 'p, 'g) hand_off =
  ho_now :: nat
  ho_open :: bool
  ho_tasks :: "'c \<rightharpoonup> nat"
  ho_ready :: "('c \<times> 'p) list"
  ho_chan :: "('c \<times> 'p) list"
  ho_accepted :: "('c \<times> 'p) list"
  ho_shared :: 'g
  ho_seen :: "'c set"
  ho_passed :: "('c \<times> nat) list"

type_synonym ('c, 'p, 'g) serve = "'c \<Rightarrow> nat \<Rightarrow> nat \<Rightarrow> 'g \<Rightarrow> ((io_error + 'p) \<times> 'g) option"

text \<open>
  \<open>serve\<close> is what a task does with its connection, from the clock at its acceptance, the instant and
  the shared state. When the listener below fails the loop ends; \<open>cancels\<close> says whether the tasks end
  with it. A pipe that is ready can still be lost, when its last answer cannot be written.
\<close>

inductive ho_step :: "('c, 'p, 'g) serve \<Rightarrow> bool \<Rightarrow> ('c, 'p, 'g) hand_off \<Rightarrow> ('c, 'p, 'g) hand_off \<Rightarrow> bool"
  for serve cancels where
  Ho_Arrive: "ho_open s \<Longrightarrow> c \<notin> ho_seen s \<Longrightarrow>
    ho_step serve cancels s (s\<lparr>ho_tasks := (ho_tasks s)(c \<mapsto> clock), ho_seen := insert c (ho_seen s)\<rparr>)"
| Ho_End: "ho_open s \<Longrightarrow>
    ho_step serve cancels s
      (s\<lparr>ho_open := False, ho_tasks := (if cancels then Map.empty else ho_tasks s),
         ho_ready := (if cancels then [] else ho_ready s)\<rparr>)"
| Ho_Served: "ho_tasks s c = Some clock \<Longrightarrow> serve c clock (ho_now s) (ho_shared s) = Some (Inr p, g) \<Longrightarrow>
    ho_step serve cancels s
      (s\<lparr>ho_tasks := (ho_tasks s)(c := None), ho_ready := ho_ready s @ [(c, p)], ho_shared := g,
         ho_passed := ho_passed s @ [(c, ho_now s)]\<rparr>)"
| Ho_Failed: "ho_tasks s c = Some clock \<Longrightarrow> serve c clock (ho_now s) (ho_shared s) = Some (Inl e, g) \<Longrightarrow>
    ho_step serve cancels s (s\<lparr>ho_tasks := (ho_tasks s)(c := None), ho_shared := g\<rparr>)"
| Ho_Broken: "ho_ready s = us @ x # vs \<Longrightarrow> ho_step serve cancels s (s\<lparr>ho_ready := us @ vs\<rparr>)"
| Ho_Send: "ho_ready s = us @ x # vs \<Longrightarrow> ho_chan s = [] \<Longrightarrow>
    ho_step serve cancels s (s\<lparr>ho_ready := us @ vs, ho_chan := [x]\<rparr>)"
| Ho_Accept: "ho_chan s = x # q \<Longrightarrow> ho_step serve cancels s (s\<lparr>ho_chan := q, ho_accepted := ho_accepted s @ [x]\<rparr>)"
| Ho_Tick: "ho_step serve cancels s (s\<lparr>ho_now := ho_now s + dt\<rparr>)"

definition ho_init :: "'g \<Rightarrow> ('c, 'p, 'g) hand_off \<Rightarrow> bool" where
  "ho_init g s \<longleftrightarrow> ho_open s \<and> ho_tasks s = Map.empty \<and> ho_ready s = [] \<and> ho_chan s = [] \<and> ho_accepted s = [] \<and>
     ho_shared s = g \<and> ho_seen s = {} \<and> ho_passed s = []"

text \<open>
  What \<open>accept\<close> gives: a pipe, the error once nobody can send any more, and nothing while it waits.
\<close>

definition ho_accept :: "io_error \<Rightarrow> ('c, 'p, 'g) hand_off \<Rightarrow> (io_error + 'p) option" where
  "ho_accept err s =
     (case ho_chan s of
        (c, p) # _ \<Rightarrow> Some (Inr p)
      | [] \<Rightarrow> if \<not> ho_open s \<and> ho_tasks s = Map.empty \<and> ho_ready s = [] then Some (Inl err) else None)"

definition ho_pipes :: "('c, 'p, 'g) hand_off \<Rightarrow> ('c \<times> 'p) list" where
  "ho_pipes s = ho_accepted s @ ho_chan s @ ho_ready s"

definition ho_inv :: "('c, 'p, 'g) hand_off \<Rightarrow> bool" where
  "ho_inv s \<longleftrightarrow>
     dom (ho_tasks s) \<union> fst ` set (ho_passed s) \<subseteq> ho_seen s \<and> dom (ho_tasks s) \<inter> fst ` set (ho_passed s) = {} \<and>
     distinct (map fst (ho_passed s)) \<and> distinct (map fst (ho_pipes s)) \<and>
     fst ` set (ho_pipes s) \<subseteq> fst ` set (ho_passed s) \<and> length (ho_chan s) \<le> 1 \<and>
     (\<forall>(c, t) \<in> set (ho_passed s). t \<le> ho_now s)"

interpretation hand_off: invariant_system "ho_init g" "ho_step serve cancels" ho_inv
  for g and serve :: "('c, 'p, 'g) serve" and cancels
proof
  show "ho_inv s" if "ho_init g s" for s :: "('c, 'p, 'g) hand_off"
    using that by (simp add: ho_init_def ho_inv_def ho_pipes_def)
next
  show "ho_inv t" if "ho_inv s" and "ho_step serve cancels s t" for s t :: "('c, 'p, 'g) hand_off"
    using that(2,1)
  proof cases
    case (Ho_Served c clock p g)
    then have "c \<in> dom (ho_tasks s)" by auto
    then have "c \<notin> fst ` set (ho_passed s)" "c \<in> ho_seen s"
      using that(1) by (auto simp: ho_inv_def)
    moreover from this have "c \<notin> fst ` set (ho_pipes s)" using that(1) unfolding ho_inv_def by blast
    moreover note that(1) Ho_Served
    ultimately show ?thesis by (auto simp: ho_inv_def ho_pipes_def)
  next
    case (Ho_Tick dt)
    with that(1) show ?thesis by (fastforce simp: ho_inv_def ho_pipes_def)
  qed (auto simp: ho_inv_def ho_pipes_def)
qed

text \<open>
  A slow connection does not hold up another: one whose negotiation succeeds can be accepted, after at
  most one other, whatever the rest do.
\<close>

lemma served_not_blocked:
  assumes "ho_tasks s c = Some clock" and "serve c clock (ho_now s) (ho_shared s) = Some (Inr p, g)" and "length (ho_chan s) \<le> 1"
  shows "\<exists>t. (ho_step serve cancels)\<^sup>*\<^sup>* s t \<and> (c, p) \<in> set (ho_accepted t)"
proof -
  define s1 where "s1 = s\<lparr>ho_tasks := (ho_tasks s)(c := None), ho_ready := ho_ready s @ [(c, p)], ho_shared := g,
     ho_passed := ho_passed s @ [(c, ho_now s)]\<rparr>"
  have "ho_step serve cancels s s1" unfolding s1_def using assms(1,2) by (rule Ho_Served)
  moreover obtain s2 where "(ho_step serve cancels)\<^sup>*\<^sup>* s1 s2" "ho_chan s2 = []" "ho_ready s2 = ho_ready s @ [(c, p)]"
  proof (cases "ho_chan s1")
    case Nil
    then show ?thesis using that [of s1] by (simp add: s1_def)
  next
    case (Cons x q)
    then have "q = []" using assms(3) by (simp add: s1_def)
    then show ?thesis using that [OF r_into_rtranclp [of "ho_step serve cancels", OF Ho_Accept [OF Cons]]] by (simp add: s1_def)
  qed
  moreover from this have "ho_step serve cancels s2 (s2\<lparr>ho_ready := ho_ready s, ho_chan := [(c, p)]\<rparr>)"
    using Ho_Send [of s2 "ho_ready s" "(c, p)" "[]"] by simp
  moreover have "ho_step serve cancels (s2\<lparr>ho_ready := ho_ready s, ho_chan := [(c, p)]\<rparr>)
      (s2\<lparr>ho_ready := ho_ready s, ho_chan := [], ho_accepted := ho_accepted s2 @ [(c, p)]\<rparr>)" (is "ho_step _ _ _ ?t")
    using Ho_Accept [of "s2\<lparr>ho_ready := ho_ready s, ho_chan := [(c, p)]\<rparr>" "(c, p)" "[]"] by simp
  ultimately have "(ho_step serve cancels)\<^sup>*\<^sup>* s ?t"
    by (meson converse_rtranclp_into_rtranclp rtranclp.rtrancl_into_rtrancl)
  then show ?thesis by (intro exI [of _ ?t]) simp
qed

text \<open>
  The end of the listener below: with its tasks cancelled the listener gives at most the pipe in the
  channel before the error; otherwise it waits for the tasks first.
\<close>

lemma accept_after_end:
  assumes "ho_step serve cancels s t" and "ho_open s" and "\<not> ho_open t" and "ho_chan s = []"
  shows "ho_accept err t = (if cancels \<or> ho_tasks s = Map.empty \<and> ho_ready s = [] then Some (Inl err) else None)"
  using assms by cases (auto simp: ho_accept_def)

section \<open>The sosistab3 listener\<close>

text \<open>What a connection sends and the random choices made for it.\<close>

record sos_conn =
  sc_input :: bytes
  sc_random :: hs_random

definition sos_serve :: "sos_crypto \<Rightarrow> Cookie \<Rightarrow> ('c \<Rightarrow> sos_conn) \<Rightarrow> ('c, bytes \<times> State \<times> bytes, bytes Dedup) serve" where
  "sos_serve cr cookie conn c clock now dedup =
     listen_session cr cookie (sc_random (conn c)) clock now (sc_input (conn c)) dedup"

definition sos_accept :: "('c, bytes \<times> State \<times> bytes, bytes Dedup) hand_off \<Rightarrow> (io_error + bytes \<times> State \<times> bytes) option" where
  "sos_accept s = ho_accept (IoError BrokenPipe ''listener has shut down for some reason'') s"

definition sos_key :: "sos_crypto \<Rightarrow> ('c \<Rightarrow> sos_conn) \<Rightarrow> 'c \<Rightarrow> bytes" where
  "sos_key cr conn c = blake3_hash cr (take 140 (sc_input (conn c)))"

definition sos_inv :: "sos_crypto \<Rightarrow> ('c \<Rightarrow> sos_conn) \<Rightarrow> ('c, 'p, bytes Dedup) hand_off \<Rightarrow> bool" where
  "sos_inv cr conn s \<longleftrightarrow> ho_inv s \<and> dedup_good 60000 (ho_shared s) \<and>
     (\<forall>(c, t) \<in> set (ho_passed s). ho_now s < t + 60000 \<longrightarrow>
        (\<exists>t'. map_of (bucket (ho_shared s)) (sos_key cr conn c) = Some t' \<and> t \<le> t')) \<and>
     (\<forall>(c, t) \<in> set (ho_passed s). \<forall>(c', t') \<in> set (ho_passed s).
        c \<noteq> c' \<and> t \<le> t' \<and> sos_key cr conn c = sos_key cr conn c' \<longrightarrow> t + 60000 \<le> t')"

lemma sos_served_inv:
  assumes inv: "sos_inv cr conn s" and task: "ho_tasks s c = Some clock"
    and served: "sos_serve cr cookie conn c clock (ho_now s) (ho_shared s) = Some (Inr p, g)"
    and t: "t = s\<lparr>ho_tasks := (ho_tasks s)(c := None), ho_ready := ho_ready s @ [(c, p)], ho_shared := g,
      ho_passed := ho_passed s @ [(c, ho_now s)]\<rparr>"
    and ho: "ho_inv t"
  shows "sos_inv cr conn t"
proof -
  have new: "\<not> dedup_contains (ho_shared s) (sos_key cr conn c)"
    and g: "g = dedup_insert (ho_now s) (sos_key cr conn c) (ho_shared s)"
    using listen_session_dedup [OF served [unfolded sos_serve_def]] by (auto simp: sos_key_def)
  have good: "dedup_good (Suc 59999) (ho_shared s)" using inv by (simp add: sos_inv_def)
  have past: "t0 \<le> ho_now s" if "(c0, t0) \<in> set (ho_passed s)" for c0 t0
    using inv that by (auto simp: sos_inv_def ho_inv_def)
  have apart: "t0 + 60000 \<le> ho_now s" if "(c0, t0) \<in> set (ho_passed s)" "sos_key cr conn c0 = sos_key cr conn c" for c0 t0
  proof (rule ccontr)
    assume "\<not> t0 + 60000 \<le> ho_now s"
    then have "map_of (bucket (ho_shared s)) (sos_key cr conn c) \<noteq> None"
      using inv that unfolding sos_inv_def by force
    with new show False by (simp add: dedup_contains_def)
  qed
  have kept: "\<exists>t'. map_of (bucket g) (sos_key cr conn c0) = Some t' \<and> t0 \<le> t'"
    if pa: "(c0, t0) \<in> set (ho_passed s)" and lt: "ho_now s < t0 + 60000" for c0 t0
  proof -
    obtain t1 where "map_of (bucket (ho_shared s)) (sos_key cr conn c0) = Some t1" "t0 \<le> t1"
      using inv pa lt unfolding sos_inv_def by blast
    then show ?thesis
      using dedup_guard.remembered_step [OF good, of "sos_key cr conn c0" t1 t0 "ho_now s" "sos_key cr conn c"] that past
      by (simp add: g)
  qed
  have self: "map_of (bucket g) (sos_key cr conn c) = Some (ho_now s)"
    using dedup_guard.ins_new [OF good] by (simp add: g)
  have "dedup_good 60000 g" using dedup_guard.ins_good [OF good] by (simp add: g)
  moreover have "\<forall>(c, t0) \<in> set (ho_passed t). ho_now t < t0 + 60000 \<longrightarrow>
      (\<exists>t'. map_of (bucket (ho_shared t)) (sos_key cr conn c) = Some t' \<and> t0 \<le> t')"
  proof (clarify)
    fix c0 t0 assume a: "(c0, t0) \<in> set (ho_passed t)" "ho_now t < t0 + 60000"
    show "\<exists>t'. map_of (bucket (ho_shared t)) (sos_key cr conn c0) = Some t' \<and> t0 \<le> t'"
    proof (cases "(c0, t0) \<in> set (ho_passed s)")
      case True
      then show ?thesis using kept a(2) by (simp add: t)
    next
      case False
      then show ?thesis using self a(1) by (simp add: t)
    qed
  qed
  moreover have "t1 + 60000 \<le> t2"
    if "(c1, t1) \<in> set (ho_passed t)" "(c2, t2) \<in> set (ho_passed t)" "c1 \<noteq> c2" "t1 \<le> t2"
      "sos_key cr conn c1 = sos_key cr conn c2" for c1 t1 c2 t2
  proof (cases "(c1, t1) \<in> set (ho_passed s) \<and> (c2, t2) \<in> set (ho_passed s)")
    case True
    then show ?thesis using inv that(3-5) unfolding sos_inv_def by blast
  next
    case False
    then have "(c1, t1) = (c, ho_now s) \<and> (c2, t2) \<in> set (ho_passed s) \<or> (c2, t2) = (c, ho_now s) \<and> (c1, t1) \<in> set (ho_passed s)"
      using that(1-3) by (auto simp: t)
    then show ?thesis using apart [of c1 t1] apart [of c2 t2] that(4,5) by auto
  qed
  moreover have "ho_shared t = g" by (simp add: t)
  ultimately show ?thesis using ho unfolding sos_inv_def by blast
qed

interpretation sos_listener: invariant_system "ho_init listen_dedup" "ho_step (sos_serve cr cookie conn) True" "sos_inv cr conn"
  for cr cookie and conn :: "'c \<Rightarrow> sos_conn"
proof
  show "sos_inv cr conn s" if "ho_init listen_dedup s" for s :: "('c, bytes \<times> State \<times> bytes, bytes Dedup) hand_off"
    using that hand_off.init_inv [OF that]
    by (simp add: sos_inv_def ho_init_def dedup_good_def listen_dedup_def dedup_new_def WAIT_INTERVAL_def)
next
  show "sos_inv cr conn t" if inv: "sos_inv cr conn s" and step: "ho_step (sos_serve cr cookie conn) True s t"
    for s t :: "('c, bytes \<times> State \<times> bytes, bytes Dedup) hand_off"
  proof -
    have ho: "ho_inv t" using hand_off.step_inv [OF _ step] inv by (simp add: sos_inv_def)
    from step show ?thesis
    proof cases
      case (Ho_Served c clock p g)
      then show ?thesis using sos_served_inv [OF inv] ho by blast
    next
      case (Ho_Failed c clock e g)
      then have "g = ho_shared s"
        using listen_session_dedup [of cr cookie "sc_random (conn c)" clock "ho_now s" "sc_input (conn c)" "ho_shared s" "Inl e" g]
        by (auto simp: sos_serve_def)
      with Ho_Failed inv ho show ?thesis by (auto simp: sos_inv_def)
    next
      case (Ho_Tick dt)
      with inv ho show ?thesis by (fastforce simp: sos_inv_def)
    qed (use inv ho in \<open>auto simp: sos_inv_def\<close>)
  qed
qed

lemmas sos_reachable_inv = sos_listener.reachable_inv

text \<open>
  C15: Replay protection of a listener whose connections are negotiated at the same time, in any
  interleaving: each pipe it hands out belongs to its own connection, which passed the handshake, and
  two connections that pass with the same first 140 bytes do so at least 60 seconds apart.
\<close>

theorem replays_rejected_concurrently:
  assumes "reachable (ho_init listen_dedup) (ho_step (sos_serve cr cookie conn) True) s"
  shows "distinct (map fst (ho_accepted s)) \<and> fst ` set (ho_accepted s) \<subseteq> fst ` set (ho_passed s) \<and>
    (\<forall>(c1, t1) \<in> set (ho_passed s). \<forall>(c2, t2) \<in> set (ho_passed s).
       c1 \<noteq> c2 \<and> t1 \<le> t2 \<and> take 140 (sc_input (conn c1)) = take 140 (sc_input (conn c2)) \<longrightarrow> t1 + 60000 \<le> t2)"
proof -
  have inv: "sos_inv cr conn s" by (rule sos_reachable_inv [OF assms])
  then have "distinct (map fst (ho_accepted s)) \<and> fst ` set (ho_accepted s) \<subseteq> fst ` set (ho_passed s)"
    by (simp add: sos_inv_def ho_inv_def ho_pipes_def image_Un)
  moreover have "t1 + 60000 \<le> t2"
    if "(c1, t1) \<in> set (ho_passed s)" "(c2, t2) \<in> set (ho_passed s)" "c1 \<noteq> c2" "t1 \<le> t2"
      "take 140 (sc_input (conn c1)) = take 140 (sc_input (conn c2))" for c1 t1 c2 t2
  proof -
    have "sos_key cr conn c1 = sos_key cr conn c2" using that(5) by (simp add: sos_key_def)
    with inv that(1-4) show ?thesis unfolding sos_inv_def by blast
  qed
  ultimately show ?thesis by auto
qed

text \<open>Two connections with one hello: once the first has passed, the second cannot in the same moment.\<close>

definition twin_conn :: "bool \<Rightarrow> sos_conn" where
  "twin_conn c = \<lparr>sc_input = example_hello @ [8, 8], sc_random = example_random\<rparr>"

definition twin_start :: "(bool, bytes \<times> State \<times> bytes, bytes Dedup) hand_off" where
  "twin_start = \<lparr>ho_now = 7, ho_open = True, ho_tasks = Map.empty, ho_ready = [], ho_chan = [], ho_accepted = [],
     ho_shared = listen_dedup, ho_seen = {}, ho_passed = []\<rparr>"

lemma twin_reached:
  "\<exists>s. reachable (ho_init listen_dedup) (ho_step (sos_serve plain_crypto example_cookie twin_conn) True) s \<and>
     ho_passed s = [(True, 7)] \<and> ho_tasks s = [False \<mapsto> 1010]"
proof -
  let ?step = "ho_step (sos_serve plain_crypto example_cookie twin_conn) True"
  define s1 where "s1 = twin_start\<lparr>ho_tasks := [True \<mapsto> 1010], ho_seen := {True}\<rparr>"
  define s2 where "s2 = s1\<lparr>ho_tasks := [True \<mapsto> 1010, False \<mapsto> 1010], ho_seen := {False, True}\<rparr>"
  have 1: "?step twin_start s1"
    using Ho_Arrive [of twin_start True _ _ 1010] by (simp add: s1_def twin_start_def)
  have 2: "?step s1 s2" using Ho_Arrive [of s1 False _ _ 1010] by (simp add: s1_def s2_def twin_start_def)
  obtain x d1 where "listen_session plain_crypto example_cookie example_random 1010 7
      (example_hello @ [8, 8]) listen_dedup = Some (Inr x, d1)" by (rule example_accepted)
  then have "sos_serve plain_crypto example_cookie twin_conn True 1010 (ho_now s2) (ho_shared s2) = Some (Inr x, d1)"
    by (simp add: sos_serve_def twin_conn_def s2_def s1_def twin_start_def)
  from Ho_Served [where serve = "sos_serve plain_crypto example_cookie twin_conn" and cancels = True, OF _ this]
  obtain s3 where 3: "?step s2 s3" "ho_passed s3 = [(True, 7)]" "ho_tasks s3 = [False \<mapsto> 1010]"
    by (auto simp: s2_def s1_def twin_start_def fun_upd_twist)
  have "reachable (ho_init listen_dedup) ?step twin_start"
    by (rule reachable_init) (simp add: ho_init_def twin_start_def)
  with 1 2 3 show ?thesis by (meson reachable_step)
qed

theorem replays_rejected_concurrently_witness:
  "\<exists>s. reachable (ho_init listen_dedup) (ho_step (sos_serve plain_crypto example_cookie twin_conn) True) s \<and>
     ho_passed s = [(True, 7)] \<and> ho_tasks s = [False \<mapsto> 1010] \<and>
     \<not> (\<exists>t. ho_step (sos_serve plain_crypto example_cookie twin_conn) True s t \<and> ho_passed t = [(True, 7), (False, 7)])"
proof -
  let ?step = "ho_step (sos_serve plain_crypto example_cookie twin_conn) True"
  obtain s where s: "reachable (ho_init listen_dedup) ?step s" "ho_passed s = [(True, 7)]" "ho_tasks s = [False \<mapsto> 1010]"
    using twin_reached by blast
  have False if t: "?step s t" "ho_passed t = [(True, 7), (False, 7)]" for t
    using replays_rejected_concurrently [OF reachable_step [OF s(1) t(1)]] t(2) by (simp add: twin_conn_def)
  with s show ?thesis by blast
qed

section \<open>TLS\<close>

text \<open>
  The dialer and the listener of TLS. Their pipes know the remote address of the connection below and
  have no shared secret. \<open>connect\<close> and \<open>accept\<close> are the handshakes of the TLS library, with their
  errors as text.
\<close>

record 'i TlsPipe =
  tls_inner :: 'i
  tls_remote_addr :: "string option"

definition tls_protocol :: "'i TlsPipe \<Rightarrow> string" where
  "tls_protocol p = ''tls''"

definition tls_shared_secret :: "'i TlsPipe \<Rightarrow> bytes option" where
  "tls_shared_secret p = None"

definition tls_dial ::
  "io_error + 'c \<Rightarrow> ('c \<Rightarrow> string option) \<Rightarrow> (string \<Rightarrow> 'c \<Rightarrow> string + 'i) \<Rightarrow> string \<Rightarrow> io_error + 'i TlsPipe" where
  "tls_dial inner remote_addr connect domain =
     result_bind inner (\<lambda>stream.
       case connect domain stream of
         Inl e \<Rightarrow> Inl (IoError OtherKind e)
       | Inr tls_stream \<Rightarrow> Inr \<lparr>tls_inner = tls_stream, tls_remote_addr = remote_addr stream\<rparr>)"

definition tls_serve :: "('c \<Rightarrow> string + 'i) \<Rightarrow> ('c \<Rightarrow> string option) \<Rightarrow> ('c, 'i TlsPipe, unit) serve" where
  "tls_serve accept remote_addr c clock now g =
     Some (map_sum (IoError OtherKind) (\<lambda>tls_stream. \<lparr>tls_inner = tls_stream, tls_remote_addr = remote_addr c\<rparr>) (accept c), ())"

definition tls_accept :: "('c, 'i TlsPipe, unit) hand_off \<Rightarrow> (io_error + 'i TlsPipe) option" where
  "tls_accept s = ho_accept (IoError OtherKind ''Underlying listener failure'') s"

definition tls_inv :: "('c \<Rightarrow> string + 'i) \<Rightarrow> ('c \<Rightarrow> string option) \<Rightarrow> ('c, 'i TlsPipe, unit) hand_off \<Rightarrow> bool" where
  "tls_inv accept remote_addr s \<longleftrightarrow> ho_inv s \<and>
     (\<forall>(c, p) \<in> set (ho_pipes s). accept c = Inr (tls_inner p) \<and> tls_remote_addr p = remote_addr c)"

interpretation tls_listener: invariant_system "ho_init ()" "ho_step (tls_serve accept remote_addr) False" "tls_inv accept remote_addr"
  for accept :: "'c \<Rightarrow> string + 'i" and remote_addr
proof
  show "tls_inv accept remote_addr s" if "ho_init () s" for s :: "('c, 'i TlsPipe, unit) hand_off"
    using that hand_off.init_inv [OF that] by (simp add: tls_inv_def ho_init_def ho_pipes_def)
next
  show "tls_inv accept remote_addr t" if inv: "tls_inv accept remote_addr s"
    and step: "ho_step (tls_serve accept remote_addr) False s t" for s t :: "('c, 'i TlsPipe, unit) hand_off"
  proof -
    have "ho_inv t" using hand_off.step_inv [OF _ step] inv by (simp add: tls_inv_def)
    with step inv show ?thesis
      by cases (auto simp: tls_inv_def ho_pipes_def tls_serve_def map_sum_Inr_iff)
  qed
qed

text \<open>The TLS listener hands out each connection at most once, after its own handshake, with its own address.\<close>

lemma tls_pipes_genuine:
  assumes "reachable (ho_init ()) (ho_step (tls_serve accept remote_addr) False) s"
  shows "distinct (map fst (ho_accepted s)) \<and>
    (\<forall>(c, p) \<in> set (ho_accepted s). accept c = Inr (tls_inner p) \<and> tls_remote_addr p = remote_addr c)"
  using tls_listener.reachable_inv [OF assms] by (auto simp: tls_inv_def ho_inv_def ho_pipes_def)

end
