(* ===== verification/Shared_Limit.thy ===== *)
theory Shared_Limit
  imports Exit_Resources
begin

text \<open>
  Streams that share a rate limiter (binaries/geph5-exit/src/ratelimit.rs): all sessions of a token get
  one limiter from a cache, and every stream of a session copies in both directions through it. The
  copying loops run side by side, so the model is a step relation on all of them, which a single loop
  of Exit_Resources is a run of.
\<close>

section \<open>Copying loops side by side\<close>

text \<open>
  Where a loop is: reading, waiting for a number of bytes to be let through with the delay and the time
  of the next check, writing, or at its end. \<open>sh_in\<close> is what each loop has read.
\<close>

datatype copy_phase = Ph_Read | Ph_Wait bytes nat real real | Ph_Write bytes | Ph_End copy_result

record 'g shared_copy =
  sh_now :: real
  sh_limiter :: 'g
  sh_total :: nat
  sh_phase :: "nat \<Rightarrow> copy_phase"
  sh_in :: "nat \<Rightarrow> bytes"
  sh_out :: "nat \<Rightarrow> bytes"

definition check_done :: "'g checked \<Rightarrow> bytes \<Rightarrow> nat \<Rightarrow> real \<Rightarrow> real \<Rightarrow> 'g shared_copy \<Rightarrow> copy_phase \<times> 'g" where
  "check_done r bts n delay rnd s =
     (case r of
        Allowed g \<Rightarrow> (Ph_Write bts, g)
      | NotUntil \<Rightarrow> (Ph_Wait bts n (delay + rnd * 0.05) (sh_now s + delay), sh_limiter s)
      | InsufficientCapacity \<Rightarrow> (Ph_End Copy_Panic, sh_limiter s))"

inductive copy_step :: "('g \<Rightarrow> real \<Rightarrow> nat \<Rightarrow> 'g checked) \<Rightarrow> nat \<Rightarrow> 'g shared_copy \<Rightarrow> 'g shared_copy \<Rightarrow> bool"
  for check_n N where
  Sh_Tick: "0 \<le> dt \<Longrightarrow> copy_step check_n N s (s\<lparr>sh_now := sh_now s + dt\<rparr>)"
| Sh_Read: "i < N \<Longrightarrow> sh_phase s i = Ph_Read \<Longrightarrow> 0 < length bts \<Longrightarrow> length bts \<le> 8192 \<Longrightarrow>
    copy_step check_n N s
      (s\<lparr>sh_total := (sh_total s + length bts) mod 2 ^ 64, sh_in := (sh_in s)(i := sh_in s i @ bts),
         sh_phase := (sh_phase s)(i := Ph_Wait bts (charge load_now (length bts)) 0.005 (sh_now s))\<rparr>)"
| Sh_End: "i < N \<Longrightarrow> sh_phase s i = Ph_Read \<Longrightarrow>
    r \<in> {Copied (length (sh_out s i)), Copy_Error e} \<Longrightarrow>
    copy_step check_n N s (s\<lparr>sh_phase := (sh_phase s)(i := Ph_End r)\<rparr>)"
| Sh_Check: "i < N \<Longrightarrow> sh_phase s i = Ph_Wait bts n delay due \<Longrightarrow> due \<le> sh_now s \<Longrightarrow> 0 \<le> rnd \<Longrightarrow>
    check_done (check_n (sh_limiter s) (sh_now s) n) bts n delay rnd s = (ph, g) \<Longrightarrow>
    copy_step check_n N s (s\<lparr>sh_phase := (sh_phase s)(i := ph), sh_limiter := g\<rparr>)"
| Sh_Write: "i < N \<Longrightarrow> sh_phase s i = Ph_Write bts \<Longrightarrow>
    copy_step check_n N s (s\<lparr>sh_phase := (sh_phase s)(i := Ph_Read), sh_out := (sh_out s)(i := sh_out s i @ bts)\<rparr>)"
| Sh_Write_Error: "i < N \<Longrightarrow> sh_phase s i = Ph_Write bts \<Longrightarrow>
    copy_step check_n N s (s\<lparr>sh_phase := (sh_phase s)(i := Ph_End (Copy_Error e))\<rparr>)"

definition shared_init :: "real \<Rightarrow> 'g shared_copy \<Rightarrow> bool" where
  "shared_init t0 s \<longleftrightarrow> sh_now s = t0 \<and> (\<forall>i. sh_phase s i = Ph_Read \<and> sh_in s i = [] \<and> sh_out s i = [])"

section \<open>The limit on all of them\<close>

text \<open>What a loop has been allowed: what it wrote, and what it is about to write.\<close>

fun ph_granted :: "copy_phase \<Rightarrow> bytes" where
  "ph_granted (Ph_Write bts) = bts"
| "ph_granted _ = []"

fun ph_pending :: "copy_phase \<Rightarrow> bytes" where
  "ph_pending (Ph_Wait bts n delay due) = bts"
| "ph_pending (Ph_Write bts) = bts"
| "ph_pending _ = []"

fun ph_ok :: "copy_phase \<Rightarrow> bool" where
  "ph_ok (Ph_Wait bts n delay due) \<longleftrightarrow> length bts \<le> n \<and> n \<le> 100000"
| "ph_ok (Ph_End Copy_Panic) \<longleftrightarrow> False"
| "ph_ok _ \<longleftrightarrow> True"

text \<open>A loop has written what it read, less what it still holds; at its end, a part of it.\<close>

definition ph_tied :: "copy_phase \<Rightarrow> bytes \<Rightarrow> bytes \<Rightarrow> bool" where
  "ph_tied ph out inp \<longleftrightarrow> (case ph of Ph_End _ \<Rightarrow> prefix out inp | _ \<Rightarrow> inp = out @ ph_pending ph)"

lemma ph_tied_prefix: "ph_tied ph out inp \<Longrightarrow> prefix out inp"
  by (cases ph) (auto simp: ph_tied_def)

lemma ph_tied_simps [simp]:
  "ph_tied Ph_Read out inp \<longleftrightarrow> inp = out" "ph_tied (Ph_Wait bts n delay due) out inp \<longleftrightarrow> inp = out @ bts"
  "ph_tied (Ph_Write bts) out inp \<longleftrightarrow> inp = out @ bts" "ph_tied (Ph_End r) out inp \<longleftrightarrow> prefix out inp"
  by (simp_all add: ph_tied_def)

definition granted :: "nat \<Rightarrow> 'g shared_copy \<Rightarrow> nat" where
  "granted N s = (\<Sum>i<N. length (sh_out s i) + length (ph_granted (sh_phase s i)))"

definition shared_inv :: "('g \<Rightarrow> real \<Rightarrow> real) \<Rightarrow> nat \<Rightarrow> nat \<Rightarrow> real \<Rightarrow> nat \<Rightarrow> 'g shared_copy \<Rightarrow> bool" where
  "shared_inv level rate burst t0 N s \<longleftrightarrow>
     t0 \<le> sh_now s \<and> (\<forall>i. ph_ok (sh_phase s i)) \<and>
     (\<forall>i. ph_tied (sh_phase s i) (sh_out s i) (sh_in s i)) \<and>
     (\<forall>i n. sh_phase s i = Ph_End (Copied n) \<longrightarrow> n = length (sh_out s i)) \<and>
     real (granted N s) + level (sh_limiter s) (sh_now s) \<le> real burst + real rate * (sh_now s - t0)"

lemma granted_change:
  fixes s t :: "'g shared_copy"
  assumes "i < N" and "\<And>j. j \<noteq> i \<Longrightarrow> sh_out t j = sh_out s j \<and> sh_phase t j = sh_phase s j"
  shows "granted N t + (length (sh_out s i) + length (ph_granted (sh_phase s i))) =
    granted N s + (length (sh_out t i) + length (ph_granted (sh_phase t i)))"
proof -
  have "granted N u = (length (sh_out u i) + length (ph_granted (sh_phase u i))) +
      (\<Sum>j\<in>{..<N} - {i}. length (sh_out u j) + length (ph_granted (sh_phase u j)))" for u :: "'g shared_copy"
    unfolding granted_def using assms(1) by (intro sum.remove) auto
  moreover have "(\<Sum>j\<in>{..<N} - {i}. length (sh_out t j) + length (ph_granted (sh_phase t j))) =
      (\<Sum>j\<in>{..<N} - {i}. length (sh_out s j) + length (ph_granted (sh_phase s j)))"
    using assms(2) by (intro sum.cong) auto
  ultimately show ?thesis by simp
qed

lemma shared_step_inv:
  assumes bucket: "bucket check_n level rate burst" and "100000 \<le> burst"
    and inv: "shared_inv level rate burst t0 N s" and step: "copy_step check_n N s t"
  shows "shared_inv level rate burst t0 N t"
  using step
proof cases
  case (Sh_Tick dt)
  have "level (sh_limiter s) (sh_now s + dt) \<le> level (sh_limiter s) (sh_now s) + real rate * dt"
    using bucketD(3) [OF bucket, of "sh_now s" "sh_now s + dt" "sh_limiter s"] Sh_Tick(2) by simp
  then show ?thesis using inv Sh_Tick by (simp add: shared_inv_def granted_def algebra_simps)
next
  case (Sh_Read i bts load_now)
  have c: "length bts \<le> charge load_now (length bts)" "charge load_now (length bts) \<le> 100000"
    using charge_bounds [of "length bts" load_now] Sh_Read(4,5) by auto
  have "granted N t = granted N s" using granted_change [of i N t s] Sh_Read(1-3) by simp
  moreover have "sh_in s i = sh_out s i" using inv Sh_Read(3) by (metis ph_tied_simps(1) shared_inv_def)
  ultimately show ?thesis using inv c Sh_Read(1) by (auto simp: shared_inv_def)
next
  case (Sh_End i r e)
  have "granted N t = granted N s" using granted_change [of i N t s] Sh_End(1-3) by simp
  moreover have "sh_in s i = sh_out s i" using inv Sh_End(3) by (metis ph_tied_simps(1) shared_inv_def)
  ultimately show ?thesis using inv Sh_End by (auto simp: shared_inv_def)
next
  case (Sh_Check i bts n delay due rnd ph g)
  have ok: "length bts \<le> n" "n \<le> 100000" "sh_in s i = sh_out s i @ bts"
    using inv Sh_Check(3) unfolding shared_inv_def by (metis ph_ok.simps(1), metis ph_ok.simps(1), metis ph_tied_simps(2))
  have ch: "granted N t = granted N s + length (ph_granted ph)"
    using granted_change [of i N t s] Sh_Check(1-3) by simp
  have "check_n (sh_limiter s) (sh_now s) n \<noteq> InsufficientCapacity"
    using bucketD(5) [OF bucket, of "sh_limiter s" "sh_now s" n] ok(2) assms(2) by auto
  moreover have "level g' (sh_now s) \<le> level (sh_limiter s) (sh_now s) - real (length bts)"
    if "check_n (sh_limiter s) (sh_now s) n = Allowed g'" for g'
    using bucketD(4) [OF bucket that] ok(1) by simp
  ultimately show ?thesis
    using inv ch ok Sh_Check(1,6) by (cases "check_n (sh_limiter s) (sh_now s) n") (auto simp: shared_inv_def check_done_def)
next
  case (Sh_Write i bts)
  have "granted N t = granted N s" using granted_change [of i N t s] Sh_Write by simp
  moreover have "sh_in s i = sh_out s i @ bts" using inv Sh_Write(3) by (metis ph_tied_simps(3) shared_inv_def)
  ultimately show ?thesis using inv Sh_Write(1) by (auto simp: shared_inv_def)
next
  case (Sh_Write_Error i bts e)
  have "granted N t \<le> granted N s" using granted_change [of i N t s] Sh_Write_Error by simp
  moreover have "prefix (sh_out s i) (sh_in s i)" using inv by (metis ph_tied_prefix shared_inv_def)
  ultimately show ?thesis using inv Sh_Write_Error(1) by (auto simp: shared_inv_def)
qed

lemma shared_init_inv:
  assumes "bucket check_n level rate burst" and "shared_init t0 s"
  shows "shared_inv level rate burst t0 N s"
  using assms(2) bucketD(2) [OF assms(1), of "sh_limiter s" t0] by (simp add: shared_init_def shared_inv_def granted_def)

text \<open>
  C25: The rate limit of a token holds for all its streams together. However the copying loops that
  share a limiter take turns, and whatever the load, none of them panics, each writes a prefix of what
  it read and reports that many bytes at its end, and in any time all of them together write at most
  the burst of 100 kilobytes and what the rate gives for that time.
\<close>

theorem shared_rate_limit_holds:
  assumes "limiter_new limit_kb 100 = Some (Limited rate burst)" and "bucket check_n level rate burst"
    and "shared_init t0 s0" and "(copy_step check_n N)\<^sup>*\<^sup>* s0 s"
  shows "real (\<Sum>i<N. length (sh_out s i)) \<le> 102400 + real ((limit_kb + 1) * 1024) * (sh_now s - t0) \<and>
    (\<forall>i. prefix (sh_out s i) (sh_in s i) \<and> sh_phase s i \<noteq> Ph_End Copy_Panic \<and>
       (\<forall>n. sh_phase s i = Ph_End (Copied n) \<longrightarrow> n = length (sh_out s i)))"
proof -
  have lim: "rate = (limit_kb + 1) * 1024" "burst = 102400"
    using assms(1) by (simp_all add: limiter_new_def split: if_splits)
  from assms(4) shared_init_inv [OF assms(2,3), of N] have inv: "shared_inv level rate burst t0 N s"
    by (induction rule: rtranclp_induct) (use shared_step_inv [OF assms(2)] lim in auto)
  have "real (\<Sum>i<N. length (sh_out s i)) \<le> real (granted N s)"
    unfolding granted_def of_nat_le_iff by (intro sum_mono) simp
  also have "\<dots> \<le> 102400 + real ((limit_kb + 1) * 1024) * (sh_now s - t0)"
    using inv bucketD(1) [OF assms(2), of "sh_limiter s" "sh_now s"] lim by (auto simp: shared_inv_def)
  finally have "real (\<Sum>i<N. length (sh_out s i)) \<le> 102400 + real ((limit_kb + 1) * 1024) * (sh_now s - t0)" .
  moreover have "prefix (sh_out s i) (sh_in s i)" for i using inv by (metis ph_tied_prefix shared_inv_def)
  moreover have "sh_phase s i \<noteq> Ph_End Copy_Panic" for i using inv by (metis ph_ok.simps(2) shared_inv_def)
  moreover have "n = length (sh_out s i)" if "sh_phase s i = Ph_End (Copied n)" for i n
    using inv that by (simp add: shared_inv_def)
  ultimately show ?thesis by blast
qed

section \<open>A single loop is a run\<close>

definition waited :: "'g shared_copy \<Rightarrow> nat \<Rightarrow> bytes \<Rightarrow> copy_phase \<Rightarrow> real + 'g \<times> real \<Rightarrow> 'g shared_copy" where
  "waited s i bts ph res =
     (case res of
        Inl t \<Rightarrow> s\<lparr>sh_now := t, sh_phase := (sh_phase s)(i := ph)\<rparr>
      | Inr (g, t) \<Rightarrow> s\<lparr>sh_now := t, sh_phase := (sh_phase s)(i := Ph_Write bts), sh_limiter := g\<rparr>)"

lemma waited_again: "waited (s\<lparr>sh_phase := (sh_phase s)(i := x), sh_now := t\<rparr>) i bts ph res = waited s i bts ph res"
  by (rule shared_copy.equality) (auto simp: waited_def split: sum.splits prod.splits)

lemma allowed_run:
  assumes "sh_phase s i = Ph_Wait bts n delay (sh_now s)" and "i < N" and "check_n (sh_limiter s) (sh_now s) n = Allowed g"
  shows "copy_step check_n N s (waited s i bts ph (Inr (g, sh_now s)))"
  using Sh_Check [where check_n = check_n and rnd = 0 and ph = "Ph_Write bts" and g = g, OF assms(2,1)] assms(3)
  by (simp add: waited_def check_done_def)

lemma wait_loop_run:
  assumes "sh_phase s i = Ph_Wait bts n delay (sh_now s)" and "i < N" and "0 \<le> delay" and "\<forall>r \<in> set rands. 0 \<le> r"
    and "wait_loop check_n n rands delay (sh_limiter s) (sh_now s) = Some res"
  shows "\<exists>ph. (copy_step check_n N)\<^sup>*\<^sup>* s (waited s i bts ph res)"
  using assms
proof (induction rands arbitrary: s delay)
  case Nil
  note w = Nil.prems(5) [unfolded wait_loop.simps [of check_n n "[]"]]
  show ?case
  proof (cases "check_n (sh_limiter s) (sh_now s) n")
    case (Allowed g)
    with w have "res = Inr (g, sh_now s)" by (auto split: if_splits)
    with allowed_run [where check_n = check_n, OF Nil.prems(1,2) Allowed] show ?thesis by (blast intro: r_into_rtranclp)
  next
    case NotUntil
    with w have "waited s i bts (sh_phase s i) res = s" by (auto simp: waited_def split: if_splits)
    then show ?thesis by (metis rtranclp.rtrancl_refl)
  qed (use w in \<open>auto split: if_splits\<close>)
next
  case (Cons r rs)
  note w = Cons.prems(5) [unfolded wait_loop.simps [of check_n n "r # rs"]]
  show ?case
  proof (cases "check_n (sh_limiter s) (sh_now s) n")
    case (Allowed g)
    with w have "res = Inr (g, sh_now s)" by (auto split: if_splits)
    with allowed_run [where check_n = check_n, OF Cons.prems(1,2) Allowed] show ?thesis by (blast intro: r_into_rtranclp)
  next
    case NotUntil
    let ?ph = "Ph_Wait bts n (delay + r * 0.05) (sh_now s + delay)"
    define s1 where "s1 = s\<lparr>sh_phase := (sh_phase s)(i := ?ph)\<rparr>"
    define s2 where "s2 = s1\<lparr>sh_now := sh_now s1 + delay\<rparr>"
    have 1: "copy_step check_n N s s1"
      using Sh_Check [where check_n = check_n and rnd = r and ph = ?ph and g = "sh_limiter s", OF Cons.prems(2,1)] Cons.prems(4)
      by (simp add: NotUntil check_done_def s1_def)
    have 2: "copy_step check_n N s1 s2" unfolding s2_def by (rule Sh_Tick) (rule Cons.prems(3))
    have "wait_loop check_n n rs (delay + r * 0.05) (sh_limiter s2) (sh_now s2) = Some res"
      using w NotUntil by (auto simp: s1_def s2_def split: if_splits)
    from Cons.IH [OF _ Cons.prems(2) _ _ this] Cons.prems(3,4)
    obtain ph where "(copy_step check_n N)\<^sup>*\<^sup>* s2 (waited s2 i bts ph res)" by (auto simp: s1_def s2_def)
    moreover have "waited s2 i bts ph res = waited s i bts ph res" unfolding s1_def s2_def by (rule waited_again)
    ultimately show ?thesis using 1 2 by (metis converse_rtranclp_into_rtranclp)
  qed (use w in \<open>auto split: if_splits\<close>)
qed

lemma read_data_run:
  assumes "sh_phase s i = Ph_Read" and "i < N" and "0 < length bts" and "length bts \<le> 8192" and "\<forall>r \<in> set rands. 0 \<le> r"
    and "wait_loop check_n (charge load_now (length bts)) rands 0.005 (sh_limiter s) (sh_now s) = Some res"
  shows "\<exists>t. (copy_step check_n N)\<^sup>*\<^sup>* s t \<and> sh_total t = (sh_total s + length bts) mod 2 ^ 64 \<and> sh_out t = sh_out s \<and>
    (case res of
       Inl now \<Rightarrow> sh_now t = now \<and> sh_limiter t = sh_limiter s
     | Inr (g, now) \<Rightarrow> sh_now t = now \<and> sh_limiter t = g \<and> sh_phase t i = Ph_Write bts)"
proof -
  define s2 where "s2 = s\<lparr>sh_total := (sh_total s + length bts) mod 2 ^ 64, sh_in := (sh_in s)(i := sh_in s i @ bts),
     sh_phase := (sh_phase s)(i := Ph_Wait bts (charge load_now (length bts)) 0.005 (sh_now s))\<rparr>"
  have 1: "copy_step check_n N s s2" unfolding s2_def by (rule Sh_Read [OF assms(2,1,3,4)])
  have "wait_loop check_n (charge load_now (length bts)) rands 0.005 (sh_limiter s2) (sh_now s2) = Some res"
    using assms(6) by (simp add: s2_def)
  from wait_loop_run [OF _ assms(2) _ assms(5) this, of bts]
  obtain ph where "(copy_step check_n N)\<^sup>*\<^sup>* s2 (waited s2 i bts ph res)" by (auto simp: s2_def)
  with 1 have "(copy_step check_n N)\<^sup>*\<^sup>* s (waited s2 i bts ph res)" by (rule converse_rtranclp_into_rtranclp)
  then show ?thesis
    by (intro exI [of _ "waited s2 i bts ph res"]) (auto simp: waited_def s2_def split: sum.splits)
qed

definition copies_as :: "nat \<Rightarrow> 'g shared_copy \<Rightarrow> 'g copy_state \<Rightarrow> bool" where
  "copies_as i s cs \<longleftrightarrow> sh_now s = cs_now cs \<and> sh_limiter s = cs_limiter cs \<and> sh_total s = cs_total cs \<and> sh_out s i = cs_out cs"

text \<open>
  A copying loop of Exit_Resources that does not panic is a run of the relation, at any place among
  other loops, which stand still meanwhile.
\<close>

lemma io_copy_run:
  assumes "i < N" and "reads_ok evs" and "io_copy check_n False evs cs = (r, cs')" and "r \<noteq> Copy_Panic"
    and "copies_as i s cs" and "sh_phase s i = Ph_Read"
  shows "\<exists>t. (copy_step check_n N)\<^sup>*\<^sup>* s t \<and> copies_as i t cs' \<and> (r \<noteq> Copying \<longrightarrow> sh_phase t i = Ph_End r)"
  using assms(2-6)
proof (induction evs arbitrary: s cs)
  case (Cons ev evs)
  obtain rd dt load_now rands write_err where ev: "ev = (rd, dt, load_now, rands, write_err)" by (cases ev) auto
  from Cons.prems(1) ev have dt: "0 \<le> dt" and rands: "\<forall>r \<in> set rands. 0 \<le> r" and evs: "reads_ok evs"
    by (auto simp: reads_ok_def)
  define s1 where "s1 = s\<lparr>sh_now := sh_now s + dt\<rparr>"
  have 1: "copy_step check_n N s s1" unfolding s1_def using dt by (rule Sh_Tick)
  have s1: "sh_phase s1 i = Ph_Read" "copies_as i s1 (cs\<lparr>cs_now := cs_now cs + dt\<rparr>)"
    using Cons.prems(4,5) by (simp_all add: s1_def copies_as_def)
  show ?case
  proof (cases "\<exists>bts. rd = Read_Data bts")
    case False
    then have "(r = Copied (length (sh_out s1 i)) \<or> (\<exists>e. r = Copy_Error e)) \<and> cs' = cs\<lparr>cs_now := cs_now cs + dt\<rparr>"
      using Cons.prems(2) ev s1(2) by (cases rd) (auto simp: copies_as_def)
    then obtain e where e: "r \<in> {Copied (length (sh_out s1 i)), Copy_Error e}" "cs' = cs\<lparr>cs_now := cs_now cs + dt\<rparr>"
      by blast
    have "(copy_step check_n N)\<^sup>*\<^sup>* s (s1\<lparr>sh_phase := (sh_phase s1)(i := Ph_End r)\<rparr>)"
      using 1 r_into_rtranclp [of "copy_step check_n N", OF Sh_End [OF assms(1) s1(1) e(1)]]
      by (rule converse_rtranclp_into_rtranclp)
    then show ?thesis
      using s1(2) e(2) by (intro exI [of _ "s1\<lparr>sh_phase := (sh_phase s1)(i := Ph_End r)\<rparr>"]) (simp add: copies_as_def)
  next
    case True
    then obtain bts where rd: "rd = Read_Data bts" by blast
    with Cons.prems(1) ev have b: "0 < length bts" "length bts \<le> 8192" by (auto simp: reads_ok_def)
    define w where "w = wait_loop check_n (charge load_now (length bts)) rands 0.005 (sh_limiter s1) (sh_now s1)"
    have lw: "limiter_wait check_n False load_now (length bts) rands (cs_total cs) (cs_limiter cs) (cs_now cs + dt) =
        ((sh_total s1 + length bts) mod 2 ^ 64, w)"
      using b s1(2) by (simp add: limiter_wait_def w_def copies_as_def)
    have "w \<noteq> None" using Cons.prems(2,3) ev rd lw by (cases w) auto
    then obtain res where res: "w = Some res" by blast
    from read_data_run [OF s1(1) assms(1) b rands res [unfolded w_def]] obtain s3 where
      s3: "(copy_step check_n N)\<^sup>*\<^sup>* s1 s3" "sh_total s3 = (sh_total s1 + length bts) mod 2 ^ 64" "sh_out s3 = sh_out s1"
        "case res of Inl now \<Rightarrow> sh_now s3 = now \<and> sh_limiter s3 = sh_limiter s1
         | Inr (g, now) \<Rightarrow> sh_now s3 = now \<and> sh_limiter s3 = g \<and> sh_phase s3 i = Ph_Write bts" by blast
    have run: "(copy_step check_n N)\<^sup>*\<^sup>* s s3" using 1 s3(1) by (rule converse_rtranclp_into_rtranclp)
    show ?thesis
    proof (cases res)
      case (Inl t)
      then have "r = Copying" "copies_as i s3 cs'"
        using Cons.prems(2) ev rd lw res s1(2) s3 by (auto simp: copies_as_def)
      with run show ?thesis by blast
    next
      case (Inr gt)
      obtain g t where gt: "gt = (g, t)" by (cases gt)
      have ph: "sh_phase s3 i = Ph_Write bts" using s3(4) Inr gt by simp
      define cs2 where "cs2 = cs\<lparr>cs_total := (sh_total s1 + length bts) mod 2 ^ 64, cs_limiter := g, cs_now := t\<rparr>"
      have c: "copies_as i s3 cs2" using s1(2) s3 Inr gt by (simp add: copies_as_def cs2_def)
      have io: "(case write_err of Some e \<Rightarrow> (Copy_Error e, cs2) | None \<Rightarrow> io_copy check_n False evs (cs2\<lparr>cs_out := cs_out cs @ bts\<rparr>)) = (r, cs')"
        using Cons.prems(2) ev rd lw res Inr gt by (simp add: cs2_def Let_def split: option.splits)
      show ?thesis
      proof (cases write_err)
        case (Some e)
        with io have r: "r = Copy_Error e" "cs' = cs2" by auto
        have "(copy_step check_n N)\<^sup>*\<^sup>* s (s3\<lparr>sh_phase := (sh_phase s3)(i := Ph_End r)\<rparr>)"
          unfolding r using run Sh_Write_Error [OF assms(1) ph] by (rule rtranclp.rtrancl_into_rtrancl)
        then show ?thesis
          using c r(2) by (intro exI [of _ "s3\<lparr>sh_phase := (sh_phase s3)(i := Ph_End r)\<rparr>"]) (simp add: copies_as_def)
      next
        case None
        define s4 where "s4 = s3\<lparr>sh_phase := (sh_phase s3)(i := Ph_Read), sh_out := (sh_out s3)(i := sh_out s3 i @ bts)\<rparr>"
        have 4: "copy_step check_n N s3 s4" unfolding s4_def by (rule Sh_Write [OF assms(1) ph])
        have s4: "copies_as i s4 (cs2\<lparr>cs_out := cs_out cs @ bts\<rparr>)" "sh_phase s4 i = Ph_Read"
          using c by (simp_all add: copies_as_def s4_def cs2_def)
        have "io_copy check_n False evs (cs2\<lparr>cs_out := cs_out cs @ bts\<rparr>) = (r, cs')" using io None by simp
        from Cons.IH [OF evs this Cons.prems(3) s4] obtain u where
          u: "(copy_step check_n N)\<^sup>*\<^sup>* s4 u" "copies_as i u cs'" "r \<noteq> Copying \<longrightarrow> sh_phase u i = Ph_End r" by blast
        from rtranclp_trans [OF rtranclp.rtrancl_into_rtrancl [OF run 4] u(1)] u(2,3) show ?thesis by blast
      qed
    qed
  qed
qed auto

text \<open>Two loops over the bucket of the example, of which one copies while the other waits for its peer.\<close>

definition two_loops :: "(real \<times> real) shared_copy" where
  "two_loops = \<lparr>sh_now = 0, sh_limiter = (102400, 0), sh_total = 0, sh_phase = \<lambda>_. Ph_Read, sh_in = \<lambda>_. [], sh_out = \<lambda>_. []\<rparr>"

lemma two_loops_run:
  "\<exists>s. (copy_step example_check 2)\<^sup>*\<^sup>* two_loops s \<and> sh_out s 1 = [1, 2, 3]"
proof -
  let ?cs = "\<lparr>cs_total = 0, cs_limiter = (102400, 0), cs_now = 0, cs_out = []\<rparr> :: (real \<times> real) copy_state"
  have "\<lfloor>27 / 2 :: real\<rfloor> = 13" by (rule floor_unique) simp_all
  then have "charge 0.9 (Suc (Suc (Suc 0))) = 13" by (simp add: charge_def Let_def min_def)
  then obtain cs where "io_copy example_check False [(Read_Data [1, 2, 3], 1, 0.9, [], None)] ?cs = (Copying, cs)" "cs_out cs = [1, 2, 3]"
    by (simp add: limiter_wait_def wait_loop.simps example_check_def example_level_def Let_def)
  then show ?thesis
    using io_copy_run [of 1 2 "[(Read_Data [1, 2, 3], 1, 0.9, [], None)]" example_check ?cs Copying cs two_loops]
    by (auto simp: reads_ok_def copies_as_def two_loops_def)
qed

theorem shared_rate_limit_holds_witness:
  "\<exists>s. (copy_step example_check 2)\<^sup>*\<^sup>* two_loops s \<and> sh_out s 1 = [1, 2, 3] \<and>
     real (\<Sum>i<2. length (sh_out s i)) \<le> 102400 + real ((1 + 1) * 1024) * (sh_now s - 0)"
proof -
  obtain s where s: "(copy_step example_check 2)\<^sup>*\<^sup>* two_loops s" "sh_out s 1 = [1, 2, 3]" using two_loops_run by blast
  moreover have "shared_init 0 two_loops" by (simp add: shared_init_def two_loops_def)
  ultimately show ?thesis
    using shared_rate_limit_holds [OF _ example_bucket _ s(1), of 1 0] by (auto simp: limiter_new_def)
qed

section \<open>One limiter for a token\<close>

text \<open>
  The caches of limiters, one for each level, as the cache library documents them: an entry that was
  not asked for within a day is gone. Limiters are numbered in the order they are made.
\<close>

record rl_caches =
  rl_entries :: "AccountLevel \<Rightarrow> bytes \<rightharpoonup> (nat \<times> nat)"
  rl_next :: nat

definition rl_idle :: nat where "rl_idle = 86400"

definition rl_get :: "nat \<Rightarrow> AccountLevel \<Rightarrow> bytes \<Rightarrow> rl_caches \<Rightarrow> nat \<times> rl_caches" where
  "rl_get now lvl key c =
     (let l = (case rl_entries c lvl key of
                 Some (l, used) \<Rightarrow> if now < used + rl_idle then l else rl_next c
               | None \<Rightarrow> rl_next c)
      in (l, c\<lparr>rl_entries := (rl_entries c)(lvl := (rl_entries c lvl)(key \<mapsto> (l, now))),
              rl_next := (if l = rl_next c then Suc l else rl_next c)\<rparr>))"

definition rl_fresh :: "rl_caches \<Rightarrow> bool" where
  "rl_fresh c \<longleftrightarrow> (\<forall>lvl key l used. rl_entries c lvl key = Some (l, used) \<longrightarrow> l < rl_next c) \<and>
     (\<forall>lvl key l used lvl' key' used'. rl_entries c lvl key = Some (l, used) \<longrightarrow> rl_entries c lvl' key' = Some (l, used') \<longrightarrow>
        lvl' = lvl \<and> key' = key)"

lemma rl_get_entry:
  "rl_entries (snd (rl_get now lvl key c)) lvl' key' =
     (if lvl' = lvl \<and> key' = key then Some (fst (rl_get now lvl key c), now) else rl_entries c lvl' key')"
  by (simp add: rl_get_def Let_def)

lemma rl_get_again:
  assumes "rl_entries c lvl key = Some (l, used)"
  shows "fst (rl_get now lvl key c) = (if now < used + rl_idle then l else rl_next c)"
  using assms by (simp add: rl_get_def Let_def)

text \<open>Different tokens never share a limiter.\<close>

lemma rl_get_fresh:
  assumes "rl_fresh c"
  shows "rl_fresh (snd (rl_get now lvl key c))"
proof -
  let ?l = "fst (rl_get now lvl key c)" and ?c = "snd (rl_get now lvl key c)"
  have old: "l' < rl_next c" if "rl_entries c lvl' key' = Some (l', used)" for lvl' key' l' used
    using assms that by (auto simp: rl_fresh_def)
  have l: "?l = rl_next c \<or> (\<exists>used. rl_entries c lvl key = Some (?l, used))"
    by (auto simp: rl_get_def Let_def split: option.splits)
  then have next_: "rl_next c \<le> rl_next ?c" "?l < rl_next ?c"
    using old [of lvl key ?l] by (auto simp: rl_get_def Let_def)
  have only: "lvl' = lvl \<and> key' = key" if "rl_entries c lvl' key' = Some (?l, used)" for lvl' key' used
    using l assms that old [OF that] unfolding rl_fresh_def by (metis less_irrefl)
  have both: "lvl2 = lvl1 \<and> key2 = key1" if "rl_entries c lvl1 key1 = Some (l', used)" "rl_entries c lvl2 key2 = Some (l', used')"
    for lvl1 key1 l' used lvl2 key2 used'
    using assms that unfolding rl_fresh_def by blast
  have "l' < rl_next ?c" if "rl_entries ?c lvl' key' = Some (l', used)" for lvl' key' l' used
    using that old [of lvl' key' l' used] next_ by (auto simp: rl_get_entry split: if_splits)
  moreover have "lvl2 = lvl1 \<and> key2 = key1"
    if "rl_entries ?c lvl1 key1 = Some (l', used)" "rl_entries ?c lvl2 key2 = Some (l', used')" for lvl1 key1 l' used lvl2 key2 used'
  proof (cases "lvl1 = lvl \<and> key1 = key \<or> lvl2 = lvl \<and> key2 = key")
    case True
    then show ?thesis
      using that only [of lvl1 key1 used] only [of lvl2 key2 used'] by (auto simp: rl_get_entry split: if_splits)
  next
    case False
    then show ?thesis using that both [of lvl1 key1 l' used lvl2 key2 used'] by (auto simp: rl_get_entry)
  qed
  ultimately show ?thesis unfolding rl_fresh_def by blast
qed

fun rl_run :: "(nat \<times> AccountLevel \<times> bytes) list \<Rightarrow> rl_caches \<Rightarrow> rl_caches" where
  "rl_run [] c = c"
| "rl_run ((now, lvl, key) # reqs) c = rl_run reqs (snd (rl_get now lvl key c))"

text \<open>
  All sessions of a token share a limiter as long as one starts each day; the last request of a run
  decides until when.
\<close>

lemma rl_run_keeps:
  assumes "rl_entries c lvl key = Some (l, used)" and "sorted (used # map fst reqs)"
    and "\<forall>(now, _) \<in> set reqs. now < used + rl_idle"
  shows "\<exists>used'. rl_entries (rl_run reqs c) lvl key = Some (l, used') \<and> used \<le> used'"
  using assms
proof (induction reqs arbitrary: c used)
  case (Cons req reqs)
  obtain now lvl' key' where req: "req = (now, lvl', key')" by (cases req)
  define u where "u = (if lvl' = lvl \<and> key' = key then now else used)"
  have "rl_entries (snd (rl_get now lvl' key' c)) lvl key = Some (l, u)"
    using Cons.prems req rl_get_again [OF Cons.prems(1), of now] by (auto simp: rl_get_entry u_def)
  moreover have "used \<le> u" "sorted (u # map fst reqs)" "\<forall>(now, _) \<in> set reqs. now < u + rl_idle"
    using Cons.prems(2,3) req by (auto simp: u_def)
  ultimately show ?case using Cons.IH [of "snd (rl_get now lvl' key' c)" u] req by (auto intro: order_trans)
qed auto

lemma session_shares_limiter:
  assumes "rl_get t0 lvl key c = (l, c0)" and "sorted (t0 # map fst reqs)" and "\<forall>(now, _) \<in> set reqs. now < t0 + rl_idle"
    and "t < t0 + rl_idle"
  shows "fst (rl_get t lvl key (rl_run reqs c0)) = l"
proof -
  have "rl_entries c0 lvl key = Some (l, t0)" using rl_get_entry [of t0 lvl key c lvl key] assms(1) by simp
  from rl_run_keeps [OF this assms(2,3)] obtain used where "rl_entries (rl_run reqs c0) lvl key = Some (l, used)" "t0 \<le> used"
    by blast
  then show ?thesis using rl_get_again assms(4) by simp
qed

text \<open>
  The day counts from the last start of a session, not from the last use of the limiter: a session that
  lasts longer keeps its limiter, and the next one gets a second with a full burst and its own rate.
\<close>

lemma second_limiter_after_a_day:
  assumes "rl_get t0 lvl key c = (l, c0)" and "rl_fresh c" and "t0 + rl_idle \<le> t"
  shows "fst (rl_get t lvl key c0) \<noteq> l"
proof -
  have e: "rl_entries c0 lvl key = Some (l, t0)" using rl_get_entry [of t0 lvl key c lvl key] assms(1) by simp
  have "rl_fresh c0" using rl_get_fresh [OF assms(2), of t0 lvl key] assms(1) by simp
  then have "l < rl_next c0" using e by (auto simp: rl_fresh_def)
  then show ?thesis using rl_get_again [OF e, of t] assms(3) by simp
qed

end
