(* ===== verification/Relay.thy ===== *)
theory Relay
  imports Client_Vpn
begin

text \<open>
  Streams from a program on the client's machine to a destination: sessions of the SOCKS5 proxy
  (binaries/geph5-client/src/socks5.rs), and the relays that copy in both directions until one of them
  ends: of the SOCKS5 proxy, of CONNECT tunnels of the HTTP proxy (http_proxy/mod.rs), and of TCP
  streams on the exit (binaries/geph5-exit/src/proxy.rs). The parser of the SOCKS5 protocol is a
  library: its results are arguments.
\<close>

section \<open>Two copies in a race\<close>

text \<open>
  One direction of a relay: what its source has sent and is not read yet, whether the source has
  ended, what is read and not written yet, and what was written.
\<close>

record dirn =
  d_src :: bytes
  d_eof :: bool
  d_buf :: bytes
  d_out :: bytes

definition dir_read :: "nat \<Rightarrow> dirn \<Rightarrow> dirn" where
  "dir_read n d = d\<lparr>d_src := drop n (d_src d), d_buf := take n (d_src d)\<rparr>"

definition dir_write :: "dirn \<Rightarrow> dirn" where
  "dir_write d = d\<lparr>d_out := d_out d @ d_buf d, d_buf := []\<rparr>"

definition dir_done :: "dirn \<Rightarrow> bool" where
  "dir_done d \<longleftrightarrow> d_src d = [] \<and> d_eof d \<and> d_buf d = []"

record relay =
  r_dir :: "bool \<Rightarrow> dirn"
  r_over :: bool

text \<open>
  The relay ends with the first direction that reaches the end of its source or fails; the other is
  dropped. \<open>True\<close> is the direction towards the destination.
\<close>

inductive relay_step :: "relay \<Rightarrow> relay \<Rightarrow> bool" where
  R_Read: "\<not> r_over r \<Longrightarrow> d_buf (r_dir r b) = [] \<Longrightarrow> relay_step r (r\<lparr>r_dir := (r_dir r)(b := dir_read n (r_dir r b))\<rparr>)"
| R_Write: "\<not> r_over r \<Longrightarrow> relay_step r (r\<lparr>r_dir := (r_dir r)(b := dir_write (r_dir r b))\<rparr>)"
| R_Done: "\<not> r_over r \<Longrightarrow> dir_done (r_dir r b) \<Longrightarrow> relay_step r (r\<lparr>r_over := True\<rparr>)"
| R_Fail: "\<not> r_over r \<Longrightarrow> relay_step r (r\<lparr>r_over := True\<rparr>)"

inductive_cases relay_stepE: "relay_step r t"

definition dir_all :: "dirn \<Rightarrow> bytes" where
  "dir_all d = d_out d @ d_buf d @ d_src d"

lemma dir_all_simps [simp]:
  "d_buf d = [] \<Longrightarrow> dir_all (dir_read n d) = dir_all d" "dir_all (dir_write d) = dir_all d"
  by (simp_all add: dir_all_def dir_read_def dir_write_def)

lemma relay_step_all: "relay_step r t \<Longrightarrow> dir_all (r_dir t b) = dir_all (r_dir r b)"
  by (erule relay_stepE) auto

lemma relay_step_out: "relay_step r t \<Longrightarrow> prefix (d_out (r_dir r b)) (d_out (r_dir t b))"
  by (erule relay_stepE) (auto simp: dir_read_def dir_write_def)

lemma relay_over_final: "r_over r \<Longrightarrow> \<not> relay_step r t"
  by (auto elim: relay_stepE)

text \<open>Everything that a direction holds can be written while the relay runs.\<close>

lemma relay_drain:
  assumes "\<not> r_over r"
  shows "relay_step\<^sup>*\<^sup>* r (r\<lparr>r_dir := (r_dir r)(b := (r_dir r b)\<lparr>d_src := [], d_buf := [], d_out := dir_all (r_dir r b)\<rparr>)\<rparr>)"
proof -
  define d1 where "d1 = dir_write (r_dir r b)"
  define d2 where "d2 = dir_read (length (d_src d1)) d1"
  define r1 where "r1 = r\<lparr>r_dir := (r_dir r)(b := d1)\<rparr>"
  define r2 where "r2 = r\<lparr>r_dir := (r_dir r)(b := d2)\<rparr>"
  define r3 where "r3 = r\<lparr>r_dir := (r_dir r)(b := dir_write d2)\<rparr>"
  have "relay_step r r1" using R_Write [OF assms, of b] by (simp add: r1_def d1_def)
  moreover have "relay_step r1 r2"
    using R_Read [of r1 b "length (d_src d1)"] assms by (simp add: r1_def r2_def d2_def d1_def dir_write_def)
  moreover have "relay_step r2 r3" using R_Write [of r2 b] assms by (simp add: r2_def r3_def)
  moreover have "dir_write d2 = (r_dir r b)\<lparr>d_src := [], d_buf := [], d_out := dir_all (r_dir r b)\<rparr>"
    by (rule dirn.equality) (simp_all add: d1_def d2_def dir_write_def dir_read_def dir_all_def)
  ultimately show ?thesis
    unfolding r3_def by (metis converse_rtranclp_into_rtranclp rtranclp.rtrancl_refl)
qed

text \<open>
  A program that ends its own direction after its request loses the rest of the answer: the relay ends
  with all that the other direction still holds.
\<close>

lemma half_close_cuts_answer:
  assumes "\<not> r_over r" and "dir_done (r_dir r True)"
  shows "\<exists>t. relay_step r t \<and> d_out (r_dir t False) = d_out (r_dir r False) \<and> (\<nexists>u. relay_step t u)"
  using R_Done [OF assms] relay_over_final [of "r\<lparr>r_over := True\<rparr>"] by (intro exI [of _ "r\<lparr>r_over := True\<rparr>"]) auto

section \<open>From end to end\<close>

text \<open>
  The relay of the client (\<open>True\<close>) and that of the exit (\<open>False\<close>), with the stream between them, which
  keeps the order: \<open>t_moved\<close> bytes of what the first relay of a direction wrote have come to the
  second. The end in a direction's beginning sends and may end its direction; the stream may be cut.
\<close>

record tunnel =
  t_relay :: "bool \<Rightarrow> relay"
  t_moved :: "bool \<Rightarrow> nat"
  t_sent :: "bool \<Rightarrow> bytes"

definition first_dir :: "tunnel \<Rightarrow> bool \<Rightarrow> dirn" where
  "first_dir s b = r_dir (t_relay s b) b"

definition second_dir :: "tunnel \<Rightarrow> bool \<Rightarrow> dirn" where
  "second_dir s b = r_dir (t_relay s (\<not> b)) b"

definition put_dir :: "bool \<Rightarrow> bool \<Rightarrow> dirn \<Rightarrow> tunnel \<Rightarrow> tunnel" where
  "put_dir x b d s = s\<lparr>t_relay := (t_relay s)(x := (t_relay s x)\<lparr>r_dir := (r_dir (t_relay s x))(b := d)\<rparr>)\<rparr>"

inductive tunnel_step :: "tunnel \<Rightarrow> tunnel \<Rightarrow> bool" where
  T_Relay: "relay_step (t_relay s x) r \<Longrightarrow> tunnel_step s (s\<lparr>t_relay := (t_relay s)(x := r)\<rparr>)"
| T_Send: "\<not> d_eof (first_dir s b) \<Longrightarrow>
    tunnel_step s ((put_dir b b ((first_dir s b)\<lparr>d_src := d_src (first_dir s b) @ bs\<rparr>) s)\<lparr>t_sent := (t_sent s)(b := t_sent s b @ bs)\<rparr>)"
| T_Close: "tunnel_step s (put_dir b b ((first_dir s b)\<lparr>d_eof := True\<rparr>) s)"
| T_Move: "\<not> d_eof (second_dir s b) \<Longrightarrow> t_moved s b + n \<le> length (d_out (first_dir s b)) \<Longrightarrow>
    tunnel_step s ((put_dir (\<not> b) b ((second_dir s b)\<lparr>d_src := d_src (second_dir s b) @ take n (drop (t_moved s b) (d_out (first_dir s b)))\<rparr>) s)
      \<lparr>t_moved := (t_moved s)(b := t_moved s b + n)\<rparr>)"
| T_Cut: "tunnel_step s (put_dir (\<not> b) b ((second_dir s b)\<lparr>d_eof := True\<rparr>) s)"

definition tunnel_init :: "tunnel \<Rightarrow> bool" where
  "tunnel_init s \<longleftrightarrow> (\<forall>b. dir_all (first_dir s b) = [] \<and> dir_all (second_dir s b) = [] \<and> t_moved s b = 0 \<and> t_sent s b = [])"

definition tunnel_inv :: "tunnel \<Rightarrow> bool" where
  "tunnel_inv s \<longleftrightarrow> (\<forall>b. dir_all (first_dir s b) = t_sent s b \<and> t_moved s b \<le> length (d_out (first_dir s b)) \<and>
     dir_all (second_dir s b) = take (t_moved s b) (d_out (first_dir s b)))"

lemma put_dir_dirs [simp]:
  "first_dir (put_dir x b d s) c = (if x = b \<and> c = b then d else first_dir s c)"
  "second_dir (put_dir x b d s) c = (if x = (\<not> b) \<and> c = b then d else second_dir s c)"
  "t_moved (put_dir x b d s) = t_moved s" "t_sent (put_dir x b d s) = t_sent s"
  by (auto simp: put_dir_def first_dir_def second_dir_def)

lemma dir_fields [simp]:
  "first_dir (s\<lparr>t_moved := m\<rparr>) b = first_dir s b" "second_dir (s\<lparr>t_moved := m\<rparr>) b = second_dir s b"
  "first_dir (s\<lparr>t_sent := e\<rparr>) b = first_dir s b" "second_dir (s\<lparr>t_sent := e\<rparr>) b = second_dir s b"
  by (simp_all add: first_dir_def second_dir_def)

lemma dir_all_src: "dir_all (d\<lparr>d_src := d_src d @ bs\<rparr>) = dir_all d @ bs" "dir_all (d\<lparr>d_eof := e\<rparr>) = dir_all d"
  by (simp_all add: dir_all_def)

lemma relay_in_tunnel:
  assumes "relay_step (t_relay s x) r" and "tunnel_inv s"
  shows "tunnel_inv (s\<lparr>t_relay := (t_relay s)(x := r)\<rparr>)"
proof -
  let ?t = "s\<lparr>t_relay := (t_relay s)(x := r)\<rparr>"
  have all: "dir_all (first_dir ?t b) = dir_all (first_dir s b)" "dir_all (second_dir ?t b) = dir_all (second_dir s b)" for b
    using relay_step_all [OF assms(1), of b] by (auto simp: first_dir_def second_dir_def)
  have "prefix (d_out (first_dir s b)) (d_out (first_dir ?t b))" for b
    using relay_step_out [OF assms(1), of b] by (auto simp: first_dir_def)
  moreover have "take n ys = take n xs" if "prefix xs ys" "n \<le> length xs" for n and xs ys :: bytes
    using that by (auto simp: prefix_def)
  ultimately have "t_moved s b \<le> length (d_out (first_dir ?t b)) \<and>
      take (t_moved s b) (d_out (first_dir ?t b)) = take (t_moved s b) (d_out (first_dir s b))" for b
    using assms(2) unfolding tunnel_inv_def by (meson order_trans prefix_length_le)
  then show ?thesis using assms(2) unfolding tunnel_inv_def all by simp
qed

interpretation tunnelled: invariant_system tunnel_init tunnel_step tunnel_inv
proof
  show "tunnel_inv s" if "tunnel_init s" for s using that by (simp add: tunnel_init_def tunnel_inv_def)
next
  show "tunnel_inv t" if "tunnel_inv s" and "tunnel_step s t" for s t
    using that(2,1)
  proof cases
    case (T_Relay x r)
    with that(1) show ?thesis using relay_in_tunnel by blast
  next
    case (T_Move b n)
    then have "take (t_moved s b + n) (d_out (first_dir s b)) =
        take (t_moved s b) (d_out (first_dir s b)) @ take n (drop (t_moved s b) (d_out (first_dir s b)))"
      by (simp add: take_add)
    with T_Move that(1) show ?thesis by (simp add: tunnel_inv_def dir_all_src)
  qed (use that(1) in \<open>auto simp: tunnel_inv_def dir_all_src dirn.simps\<close>)
qed

text \<open>While nothing ends, all that was sent can arrive.\<close>

lemma relay_run_in_tunnel: "relay_step\<^sup>*\<^sup>* (t_relay s x) r \<Longrightarrow> tunnel_step\<^sup>*\<^sup>* s (s\<lparr>t_relay := (t_relay s)(x := r)\<rparr>)"
proof (induction rule: rtranclp_induct)
  case (step r u)
  from T_Relay [of "s\<lparr>t_relay := (t_relay s)(x := r)\<rparr>" x u] step.hyps(2)
  have "tunnel_step (s\<lparr>t_relay := (t_relay s)(x := r)\<rparr>) (s\<lparr>t_relay := (t_relay s)(x := u)\<rparr>)" by simp
  with step.IH show ?case by (rule rtranclp.rtrancl_into_rtrancl)
qed simp

definition drained :: "dirn \<Rightarrow> dirn" where
  "drained d = d\<lparr>d_src := [], d_buf := [], d_out := dir_all d\<rparr>"

lemma drain_in_tunnel:
  assumes "\<not> r_over (t_relay s x)"
  shows "tunnel_step\<^sup>*\<^sup>* s (put_dir x b (drained (r_dir (t_relay s x) b)) s)"
  using relay_run_in_tunnel [OF relay_drain [OF assms, of b]] by (simp add: put_dir_def drained_def)

lemma tunnel_delivers:
  assumes inv: "tunnel_inv s" and running: "\<And>x. \<not> r_over (t_relay s x)" and "\<not> d_eof (second_dir s b)"
  shows "\<exists>t. tunnel_step\<^sup>*\<^sup>* s t \<and> d_out (second_dir t b) = t_sent s b"
proof -
  define s1 where "s1 = put_dir b b (drained (first_dir s b)) s"
  have 1: "tunnel_step\<^sup>*\<^sup>* s s1" using drain_in_tunnel [OF running, of b b] by (simp add: s1_def first_dir_def)
  have inv1: "tunnel_inv s1" by (rule tunnelled.run_inv [OF 1 inv])
  have out1: "d_out (first_dir s1 b) = t_sent s b" using inv by (simp add: s1_def drained_def tunnel_inv_def)
  define n where "n = length (d_out (first_dir s1 b)) - t_moved s1 b"
  have n: "t_moved s1 b + n = length (d_out (first_dir s1 b))" using inv1 by (simp add: n_def tunnel_inv_def)
  obtain s2 where s2: "tunnel_step s1 s2" "t_moved s2 b = length (d_out (first_dir s1 b))" "first_dir s2 b = first_dir s1 b"
      "\<And>x. r_over (t_relay s2 x) = r_over (t_relay s x)"
    using T_Move [of s1 b n] assms(3) n by (auto simp: s1_def put_dir_def first_dir_def second_dir_def)
  have inv2: "tunnel_inv s2" using tunnelled.step_inv inv1 s2(1) by blast
  have all2: "dir_all (second_dir s2 b) = t_sent s b"
    using inv2 s2(2,3) out1 by (simp add: tunnel_inv_def)
  define s3 where "s3 = put_dir (\<not> b) b (drained (second_dir s2 b)) s2"
  have "tunnel_step\<^sup>*\<^sup>* s2 s3"
    using drain_in_tunnel [of s2 "\<not> b" b] s2(4) running by (simp add: s3_def second_dir_def)
  moreover have "d_out (second_dir s3 b) = t_sent s b" using all2 by (simp add: s3_def drained_def)
  ultimately show ?thesis using 1 s2(1) by (meson rtranclp.rtrancl_into_rtrancl rtranclp_trans)
qed

section \<open>Sessions of the SOCKS5 proxy\<close>

text \<open>
  A session: reading the handshake, answering that no authentication is needed, reading the request,
  opening the connection and answering that it is open; then the relay runs. The results of reading
  and writing are arguments, and so is the connection that \<open>open_conn\<close> asked for. The result has the
  answers written and what was opened.
\<close>

datatype socks_reply = Auth_Noauth | Status_Success SocksV5Host u16

record socks_io =
  si_handshake :: "string + unit"
  si_write_auth :: "string + unit"
  si_request :: "string + SocksV5Host \<times> u16"
  si_write_status :: "string + unit"

definition socks_session ::
  "conn_env \<Rightarrow> fake_dns \<Rightarrow> (opened \<Rightarrow> string + 'p) \<Rightarrow> socks_io \<Rightarrow> socks_reply list \<times> (string + opened \<times> 'p)" where
  "socks_session env ctx dialed io =
     (case result_bind (si_handshake io) (\<lambda>_. si_write_auth io) of
        Inl e \<Rightarrow> ([], Inl e)
      | Inr _ \<Rightarrow>
          (case result_bind (si_request io) (\<lambda>(host, port).
                  result_bind (socks_target host port) (\<lambda>remote_addr.
                  result_bind (fst (open_conn env ctx ''tcp'' remote_addr)) (\<lambda>how.
                  result_bind (dialed how) (\<lambda>stream.
                  result_bind (si_write_status io) (\<lambda>_. Inr (host, port, how, stream)))))) of
             Inl e \<Rightarrow> ([Auth_Noauth], Inl e)
           | Inr (host, port, how, stream) \<Rightarrow> ([Auth_Noauth, Status_Success host port], Inr (how, stream))))"

text \<open>
  A session reports success for its own request and only with an open connection, and says nothing to
  a program whose connection cannot be opened.
\<close>

lemma socks_session_replies:
  "fst (socks_session env ctx dialed io) =
     (case snd (socks_session env ctx dialed io) of
        Inr _ \<Rightarrow> (case si_request io of Inr (host, port) \<Rightarrow> [Auth_Noauth, Status_Success host port] | Inl _ \<Rightarrow> [])
      | Inl _ \<Rightarrow> if isl (si_handshake io) \<or> isl (si_write_auth io) then [] else [Auth_Noauth])"
  by (cases "si_handshake io"; cases "si_write_auth io"; cases "si_request io")
     (auto simp: socks_session_def split: sum.splits prod.splits dest!: result_bind_Inr_iff [THEN iffD1])

lemma exit_tcp_action:
  assumes "dns_resolve denv now dest f cache = (Inr addrs, cache')" and "list_all (\<lambda>a. proxy_allowed whitelist a is_free) addrs"
  shows "proxy_stream denv whitelist now f (''tcp'' @ ''$'' @ dest) is_free cache = (Inr (Proxy_Tcp addrs), cache')"
proof -
  have "stream_target (''tcp'' @ ''$'' @ dest) = (''tcp'', dest)" by (simp add: stream_target_def)
  then show ?thesis unfolding proxy_stream_def using assms by (simp add: choose_action_def)
qed


text \<open>A program that has sent two bytes to port 443 of a name.\<close>

definition idle_relay :: relay where
  "idle_relay = \<lparr>r_dir = \<lambda>_. \<lparr>d_src = [], d_eof = False, d_buf = [], d_out = []\<rparr>, r_over = False\<rparr>"

definition sent_tunnel :: tunnel where
  "sent_tunnel = put_dir True True \<lparr>d_src = [1, 2], d_eof = False, d_buf = [], d_out = []\<rparr>
     \<lparr>t_relay = \<lambda>_. idle_relay, t_moved = \<lambda>_. 0, t_sent = (\<lambda>_. [])(True := [1, 2])\<rparr>"

lemma sent_tunnel_reachable: "reachable tunnel_init tunnel_step sent_tunnel"
proof -
  let ?s = "\<lparr>t_relay = \<lambda>_. idle_relay, t_moved = \<lambda>_. 0, t_sent = \<lambda>_. []\<rparr>"
  have "reachable tunnel_init tunnel_step ?s"
    by (rule reachable_init) (simp add: tunnel_init_def first_dir_def second_dir_def idle_relay_def dir_all_def)
  moreover have "tunnel_step ?s sent_tunnel"
    using T_Send [of ?s True "[1, 2]"] by (simp add: sent_tunnel_def put_dir_def first_dir_def idle_relay_def)
  ultimately show ?thesis by (rule reachable_step)
qed

lemma one_resolved:
  "dns_resolve example_dns 7 ''one:443'' \<lparr>nsfw = True, ads = False\<rparr> Map.empty =
     (Inr [\<lparr>sa_ip = V4 0x01010101, sa_port = 443\<rparr>], [''one:443'' \<mapsto> ([\<lparr>sa_ip = V4 0x01010101, sa_port = 443\<rparr>], 7)])"
proof -
  have "rsplit_once CHR '':'' ''one:443'' = Some (''one'', ''443'')" "parse_u16 ''443'' = Some 443"
    by (simp_all add: rsplit_once_def parse_u16_def parse_uint_def is_digit_def digits_value_def Let_def)
  then show ?thesis
    by (simp add: dns_resolve_def check_host_def cached_lookup_def lookup_addrs_def raw_dns_respond_def
        parse_dns_response_def example_dns_def)
qed

lemma one_goes_through: "goes_through example_conn \<lparr>forward_map = Map.empty, backward_map = Map.empty\<rparr> ''one:443''"
  by (simp add: goes_through_def real_dest_def example_conn_def tiny_syntax_def rsplit_once_def whitelist_host_def
      is_chinese_host_def tiny_v4_def)


end
