(* ===== verification/Runtime.thy ===== *)
theory Runtime
  imports Prelude
begin

text \<open>
  What keeps the processes going: the secret keys they keep on disk (binaries/geph5-broker/src/main.rs
  and binaries/geph5-exit/src/main.rs), the watchdog of the exit
  (watchdog.rs and the loop in broker.rs that kicks the watchdog), and the buffers that
  pass between the two asynchronous runtimes in the client (http_proxy/rt_compat.rs).
\<close>

section \<open>Keys on disk\<close>

text \<open>
  The files by their paths. \<open>writable\<close> says which writes succeed; a write that fails panics, as does an
  unreadable content. \<open>make_key\<close> makes a new key, and \<open>serialize\<close> and \<open>deserialize\<close> are those of the
  stdcode library.
\<close>

type_synonym disk = "string \<rightharpoonup> bytes"

record 'k key_env =
  serialize :: "'k \<Rightarrow> bytes option"
  deserialize :: "bytes \<Rightarrow> 'k option"
  keys_dir :: string
  master_path :: string

definition key_path :: "'k key_env \<Rightarrow> string \<Rightarrow> string" where
  "key_path env name = keys_dir env @ ''/'' @ name"

definition load_mizaru_sk ::
  "'k key_env \<Rightarrow> (string \<Rightarrow> bool) \<Rightarrow> (string \<Rightarrow> 'k) \<Rightarrow> string \<Rightarrow> disk \<Rightarrow> ('k \<times> disk) option" where
  "load_mizaru_sk env writable make_key name d =
     (let path = key_path env name
      in case d path of
           Some file_content \<Rightarrow> map_option (\<lambda>k. (k, d)) (deserialize env file_content)
         | None \<Rightarrow>
             (let new_key = make_key name
              in case serialize env new_key of
                   None \<Rightarrow> None
                 | Some content \<Rightarrow> if writable path then Some (new_key, d(path \<mapsto> content)) else None))"

definition load_master_secret :: "'k key_env \<Rightarrow> disk \<Rightarrow> bytes option" where
  "load_master_secret env d = Option.bind (d (master_path env)) (\<lambda>b. if length b = 32 then Some b else None)"

text \<open>The start of the broker, and the master key when it is first used.\<close>

definition broker_keys ::
  "'k key_env \<Rightarrow> (string \<Rightarrow> bool) \<Rightarrow> (string \<Rightarrow> 'k) \<Rightarrow> disk \<Rightarrow> (('k \<times> 'k \<times> bytes) \<times> disk) option" where
  "broker_keys env writable make_key d =
     Option.bind (load_mizaru_sk env writable make_key ''plus.bin'' d) (\<lambda>(plus_sk, d1).
     Option.bind (load_mizaru_sk env writable make_key ''free.bin'' d1) (\<lambda>(free_sk, d2).
     Option.bind (load_master_secret env d2) (\<lambda>msk. Some ((plus_sk, free_sk, msk), d2))))"

definition load_signing_secret :: "string \<Rightarrow> (string \<Rightarrow> bool) \<Rightarrow> bytes \<Rightarrow> disk \<Rightarrow> (bytes \<times> disk) option" where
  "load_signing_secret path writable fresh d =
     (case d path of
        Some bs \<Rightarrow> if length bs = 32 then Some (bs, d) else if writable path then Some (fresh, d(path \<mapsto> fresh)) else None
      | None \<Rightarrow> if writable path then Some (fresh, d(path \<mapsto> fresh)) else None)"

lemma load_mizaru_sk_again:
  assumes "\<And>k c. serialize env k = Some c \<Longrightarrow> deserialize env c = Some k"
    and "load_mizaru_sk env writable make_key name d = Some (k, d')" and "e (key_path env name) = d' (key_path env name)"
  shows "load_mizaru_sk env writable' make_key' name e = Some (k, e)"
  using assms by (auto simp: load_mizaru_sk_def Let_def split: option.splits if_splits)

lemma load_mizaru_sk_keeps:
  assumes "load_mizaru_sk env writable make_key name d = Some (k, d')"
  shows "d' = d \<or> (\<exists>c. d' = d(key_path env name \<mapsto> c))"
  using assms by (auto simp: load_mizaru_sk_def Let_def split: option.splits if_splits)

text \<open>
  Keys survive restarts. Once the broker has started, every later start, whatever it draws at
  random and even if the disk is full by then, comes up with the same three keys, as long as nothing
  else changes their files; once an exit has its signing key, every later start has the same.
\<close>

theorem keys_survive_restarts:
  assumes "\<And>k c. serialize env k = Some c \<Longrightarrow> deserialize env c = Some k"
    and "broker_keys env writable make_key d = Some (ks, d1)" and "load_signing_secret path writable fresh d = Some (sk, d2)"
    and "length fresh = 32"
    and "\<forall>p \<in> {key_path env ''plus.bin'', key_path env ''free.bin'', master_path env}. e1 p = d1 p" and "e2 path = d2 path"
  shows "broker_keys env writable' make_key' e1 = Some (ks, e1) \<and> load_signing_secret path writable' fresh' e2 = Some (sk, e2)"
proof
  from assms(2) obtain plus_sk da free_sk msk where b:
      "load_mizaru_sk env writable make_key ''plus.bin'' d = Some (plus_sk, da)"
      "load_mizaru_sk env writable make_key ''free.bin'' da = Some (free_sk, d1)"
      "load_master_secret env d1 = Some msk" "ks = (plus_sk, free_sk, msk)"
    by (auto simp: broker_keys_def bind_eq_Some_conv)
  have "key_path env ''plus.bin'' \<noteq> key_path env ''free.bin''" by (simp add: key_path_def)
  then have "e1 (key_path env ''plus.bin'') = da (key_path env ''plus.bin'')"
    using load_mizaru_sk_keeps [OF b(2)] assms(5) by auto
  then have "load_mizaru_sk env writable' make_key' ''plus.bin'' e1 = Some (plus_sk, e1)"
    using load_mizaru_sk_again [OF assms(1) b(1)] by blast
  moreover have "load_mizaru_sk env writable' make_key' ''free.bin'' e1 = Some (free_sk, e1)"
    using load_mizaru_sk_again [OF assms(1) b(2)] assms(5) by simp
  moreover have "load_master_secret env e1 = Some msk" using b(3) assms(5) by (simp add: load_master_secret_def)
  ultimately show "broker_keys env writable' make_key' e1 = Some (ks, e1)" by (simp add: broker_keys_def b(4))
  show "load_signing_secret path writable' fresh' e2 = Some (sk, e2)"
    using assms(3,4,6) by (auto simp: load_signing_secret_def split: option.splits if_splits)
qed

definition plain_keys :: "nat key_env" where
  "plain_keys = \<lparr>serialize = \<lambda>k. Some (replicate k 0), deserialize = \<lambda>c. Some (length c), keys_dir = ''keys'', master_path = ''master''\<rparr>"

theorem keys_survive_restarts_witness:
  "\<exists>d1 d2. broker_keys plain_keys (\<lambda>_. True) (\<lambda>_. 5) [''master'' \<mapsto> replicate 32 9] = Some ((5, 5, replicate 32 9), d1) \<and>
     broker_keys plain_keys (\<lambda>_. False) (\<lambda>_. 6) d1 = Some ((5, 5, replicate 32 9), d1) \<and>
     load_signing_secret ''exit'' (\<lambda>_. True) (replicate 32 1) [''master'' \<mapsto> replicate 32 9] = Some (replicate 32 1, d2) \<and>
     load_signing_secret ''exit'' (\<lambda>_. False) [] d2 = Some (replicate 32 1, d2)"
proof -
  let ?d = "[''master'' \<mapsto> replicate 32 9] :: disk"
  obtain d1 where b: "broker_keys plain_keys (\<lambda>_. True) (\<lambda>_. 5) ?d = Some ((5, 5, replicate 32 9), d1)"
    by (simp add: broker_keys_def load_mizaru_sk_def load_master_secret_def plain_keys_def key_path_def)
  obtain d2 where s: "load_signing_secret ''exit'' (\<lambda>_. True) (replicate 32 1) ?d = Some (replicate 32 1, d2)"
    by (simp add: load_signing_secret_def)
  have "serialize plain_keys k = Some c \<Longrightarrow> deserialize plain_keys c = Some k" for k c by (auto simp: plain_keys_def)
  from keys_survive_restarts [OF this b s] b s show ?thesis by auto
qed

section \<open>The watchdog of the exit\<close>

text \<open>
  The loop that uploads the exit's description: the milliseconds that each round takes and whether it
  succeeded, two seconds apart. The watchdog is a thread that starts with the first kick and panics,
  which ends the exit, when none comes for 600 seconds. The result is the instant of the panic, or the
  instant and the deadline so far.
\<close>

datatype watched = Watch_Panic nat | Watching nat "nat option"

definition kick_watchdog :: "nat \<Rightarrow> nat option" where
  "kick_watchdog now = Some (now + 600000)"

fun upload_rounds :: "(nat \<times> bool) list \<Rightarrow> nat \<Rightarrow> nat option \<Rightarrow> watched" where
  "upload_rounds [] now deadline =
     (case deadline of
        Some dl \<Rightarrow> if dl \<le> now then Watch_Panic dl else Watching now deadline
      | None \<Rightarrow> Watching now None)"
| "upload_rounds ((took, ok) # rounds) now deadline =
     (let t = now + took; later = upload_rounds rounds (t + 2000) (if ok then kick_watchdog t else deadline)
      in case deadline of
           Some dl \<Rightarrow> if dl \<le> t then Watch_Panic dl else later
         | None \<Rightarrow> later)"

fun last_upload :: "(nat \<times> bool) list \<Rightarrow> nat \<Rightarrow> nat option \<Rightarrow> nat option" where
  "last_upload [] now l = l"
| "last_upload ((took, ok) # rounds) now l = last_upload rounds (now + took + 2000) (if ok then Some (now + took) else l)"

text \<open>An exit that has uploaded its description and still runs has done so within the last 600 seconds.\<close>

lemma running_exit_uploaded:
  assumes "upload_rounds rounds now (map_option (\<lambda>l. l + 600000) l) = Watching t dl"
  shows "dl = map_option (\<lambda>l. l + 600000) (last_upload rounds now l) \<and>
    (\<forall>u. last_upload rounds now l = Some u \<longrightarrow> t < u + 600000)"
  using assms
proof (induction rounds arbitrary: now l)
  case Nil
  then show ?case by (auto split: option.splits if_splits)
next
  case (Cons r rounds)
  obtain took ok where r: "r = (took, ok)" by (cases r)
  have eq: "(if ok then kick_watchdog (now + took) else map_option (\<lambda>l. l + 600000) l) =
      map_option (\<lambda>l. l + 600000) (if ok then Some (now + took) else l)"
    by (simp add: kick_watchdog_def)
  have "upload_rounds rounds (now + took + 2000) (map_option (\<lambda>l. l + 600000) (if ok then Some (now + took) else l)) = Watching t dl"
    using Cons.prems unfolding r upload_rounds.simps Let_def eq by (auto split: option.splits if_splits)
  from Cons.IH [OF this] show ?case by (simp add: r)
qed

text \<open>
  Before the first success there is no watchdog: an exit that never reaches the broker runs on
  unnoticed.
\<close>

lemma never_uploaded_never_ends:
  assumes "\<forall>(took, ok) \<in> set rounds. \<not> ok"
  shows "\<exists>t. upload_rounds rounds now None = Watching t None"
  using assms by (induction rounds arbitrary: now) (auto simp: Let_def)

section \<open>Buffers between two runtimes\<close>

text \<open>
  The buffer of the tokio library: its filled bytes, how many of its bytes are known to be
  initialized, its room, and the operations the adapter uses. \<open>rb_put\<close> is the effect of a read into
  the room behind the filled bytes.
\<close>

record 'b readbuf =
  rb_filled :: "'b \<Rightarrow> bytes"
  rb_init :: "'b \<Rightarrow> nat"
  rb_cap :: "'b \<Rightarrow> nat"
  rb_put :: "bytes \<Rightarrow> 'b \<Rightarrow> 'b"
  rb_assume_init :: "nat \<Rightarrow> 'b \<Rightarrow> 'b"
  rb_set_filled :: "nat \<Rightarrow> 'b \<Rightarrow> 'b option"
  rb_unfilled :: "'b \<Rightarrow> bytes"

text \<open>
  What is documented: assume_init counts from the end of the filled part and never takes
  initialization back; set_filled panics when the filled part would grow beyond the initialized one.
\<close>

definition readbuf_ok :: "'b readbuf \<Rightarrow> bool" where
  "readbuf_ok ops \<longleftrightarrow>
     (\<forall>b. length (rb_filled ops b) \<le> rb_init ops b \<and> rb_init ops b \<le> rb_cap ops b) \<and>
     (\<forall>b bs. length (rb_filled ops b) + length bs \<le> rb_cap ops b \<longrightarrow>
        rb_filled ops (rb_put ops bs b) = rb_filled ops b \<and> rb_init ops (rb_put ops bs b) = rb_init ops b \<and>
        rb_cap ops (rb_put ops bs b) = rb_cap ops b \<and> take (length bs) (rb_unfilled ops (rb_put ops bs b)) = bs) \<and>
     (\<forall>b n. length (rb_filled ops b) + n \<le> rb_cap ops b \<longrightarrow>
        rb_filled ops (rb_assume_init ops n b) = rb_filled ops b \<and>
        rb_unfilled ops (rb_assume_init ops n b) = rb_unfilled ops b \<and>
        rb_init ops (rb_assume_init ops n b) = max (rb_init ops b) (length (rb_filled ops b) + n)) \<and>
     (\<forall>b n. case rb_set_filled ops n b of
        None \<Rightarrow> rb_init ops b < n
      | Some b' \<Rightarrow> n \<le> rb_init ops b \<and> rb_filled ops b' = take n (rb_filled ops b @ rb_unfilled ops b))"

text \<open>
  Reading from a stream of hyper into a buffer of tokio. \<open>inner\<close> is the read of the stream, for the
  room there is.
\<close>

definition compat_poll_read :: "'b readbuf \<Rightarrow> (nat \<Rightarrow> bytes poll) \<Rightarrow> 'b \<Rightarrow> (unit poll \<times> 'b) option" where
  "compat_poll_read ops inner tbuf =
     (let init = rb_init ops tbuf; filled = length (rb_filled ops tbuf)
      in case inner (rb_cap ops tbuf - filled) of
           Pending \<Rightarrow> Some (Pending, tbuf)
         | Ready (Inl e) \<Rightarrow> Some (Ready (Inl e), tbuf)
         | Ready (Inr bs) \<Rightarrow>
             (let new_filled = length bs; b1 = rb_put ops bs tbuf;
                  b2 = (if init < filled + new_filled then rb_assume_init ops (filled + new_filled - init) b1 else b1)
              in map_option (\<lambda>b3. (Ready (Inr ()), b3)) (rb_set_filled ops (filled + new_filled) b2)))"

text \<open>
  The adapter counts what it asks to assume from the end of the initialized part, the library from the
  end of the filled part. So a read panics exactly when the buffer has initialized room and the read
  goes beyond it; all other reads append what was read.
\<close>

lemma compat_poll_read_spec:
  assumes "readbuf_ok ops" and "inner (rb_cap ops b - length (rb_filled ops b)) = Ready (Inr bs)"
    and "length (rb_filled ops b) + length bs \<le> rb_cap ops b"
  shows "if length (rb_filled ops b) < rb_init ops b \<and> rb_init ops b < length (rb_filled ops b) + length bs
    then compat_poll_read ops inner b = None
    else \<exists>b'. compat_poll_read ops inner b = Some (Ready (Inr ()), b') \<and> rb_filled ops b' = rb_filled ops b @ bs"
proof -
  define filled where "filled = length (rb_filled ops b)"
  define b1 where "b1 = rb_put ops bs b"
  define b2 where "b2 = (if rb_init ops b < filled + length bs then rb_assume_init ops (filled + length bs - rb_init ops b) b1 else b1)"
  have le: "filled \<le> rb_init ops b" using assms(1) by (simp add: readbuf_ok_def filled_def)
  have b1: "rb_filled ops b1 = rb_filled ops b" "rb_init ops b1 = rb_init ops b" "take (length bs) (rb_unfilled ops b1) = bs"
    "rb_cap ops b1 = rb_cap ops b"
    using assms(1,3) by (simp_all add: readbuf_ok_def b1_def)
  define n where "n = filled + length bs - rb_init ops b"
  have "length (rb_filled ops b1) + n \<le> rb_cap ops b1" using assms(3) b1 le by (simp add: n_def filled_def)
  then have asm: "rb_filled ops (rb_assume_init ops n b1) = rb_filled ops b1"
      "rb_unfilled ops (rb_assume_init ops n b1) = rb_unfilled ops b1"
      "rb_init ops (rb_assume_init ops n b1) = max (rb_init ops b1) (length (rb_filled ops b1) + n)"
    using assms(1) unfolding readbuf_ok_def by blast+
  have b2: "rb_filled ops b2 = rb_filled ops b" "rb_unfilled ops b2 = rb_unfilled ops b1"
    "rb_init ops b2 = (if rb_init ops b < filled + length bs
       then max (rb_init ops b) (filled + (filled + length bs - rb_init ops b)) else rb_init ops b)"
    using asm b1(1,2) by (simp_all add: b2_def flip: n_def) (simp_all add: filled_def)
  have eq: "compat_poll_read ops inner b = map_option (\<lambda>b3. (Ready (Inr ()), b3)) (rb_set_filled ops (filled + length bs) b2)"
    using assms(2) by (simp add: compat_poll_read_def Let_def filled_def b1_def b2_def)
  have set: "case rb_set_filled ops (filled + length bs) b2 of
      None \<Rightarrow> rb_init ops b2 < filled + length bs
    | Some b' \<Rightarrow> filled + length bs \<le> rb_init ops b2 \<and> rb_filled ops b' = take (filled + length bs) (rb_filled ops b2 @ rb_unfilled ops b2)"
    using assms(1) by (simp add: readbuf_ok_def)
  have "rb_init ops b2 < filled + length bs \<longleftrightarrow> filled < rb_init ops b \<and> rb_init ops b < filled + length bs"
    using le by (auto simp: b2(3) max_def)
  with set eq b1(3) b2 show ?thesis
    by (auto simp: filled_def [symmetric] split: option.splits)
qed

text \<open>A buffer as bytes with the two counts.\<close>

definition list_filled :: "bytes \<times> nat \<times> nat \<Rightarrow> bytes" where
  "list_filled = (\<lambda>(c, i, f). take (min f i) c)"

definition list_buf :: "(bytes \<times> nat \<times> nat) readbuf" where
  "list_buf =
     \<lparr>rb_filled = list_filled, rb_init = (\<lambda>(c, i, f). min i (length c)), rb_cap = (\<lambda>(c, i, f). length c),
      rb_put = (\<lambda>bs (c, i, f). let k = length (list_filled (c, i, f)) in (take k c @ bs @ drop (k + length bs) c, i, f)),
      rb_assume_init = (\<lambda>n (c, i, f). let k = length (list_filled (c, i, f)) in (c, max (min i (length c)) (k + n), k)),
      rb_set_filled = (\<lambda>n (c, i, f). if n \<le> min i (length c) then Some (c, i, n) else None),
      rb_unfilled = (\<lambda>(c, i, f). drop (length (list_filled (c, i, f))) c)\<rparr>"

lemma list_buf_ok: "readbuf_ok list_buf"
  unfolding readbuf_ok_def
proof (intro conjI allI impI)
  fix b :: "bytes \<times> nat \<times> nat" and bs :: bytes and n
  obtain c i f where b: "b = (c, i, f)" by (cases b)
  show "length (rb_filled list_buf b) \<le> rb_init list_buf b" "rb_init list_buf b \<le> rb_cap list_buf b"
    by (simp_all add: list_buf_def list_filled_def b min_def)
  assume a: "length (rb_filled list_buf b) + length bs \<le> rb_cap list_buf b"
  show "rb_filled list_buf (rb_put list_buf bs b) = rb_filled list_buf b" "rb_init list_buf (rb_put list_buf bs b) = rb_init list_buf b"
    "rb_cap list_buf (rb_put list_buf bs b) = rb_cap list_buf b" "take (length bs) (rb_unfilled list_buf (rb_put list_buf bs b)) = bs"
    using a by (auto simp: list_buf_def list_filled_def b Let_def min_def split: if_splits)
next
  fix b :: "bytes \<times> nat \<times> nat" and n
  obtain c i f where b: "b = (c, i, f)" by (cases b)
  assume "length (rb_filled list_buf b) + n \<le> rb_cap list_buf b"
  then show "rb_filled list_buf (rb_assume_init list_buf n b) = rb_filled list_buf b"
    "rb_unfilled list_buf (rb_assume_init list_buf n b) = rb_unfilled list_buf b"
    "rb_init list_buf (rb_assume_init list_buf n b) = max (rb_init list_buf b) (length (rb_filled list_buf b) + n)"
    by (auto simp: list_buf_def list_filled_def b Let_def min_def max_def)
next
  fix b :: "bytes \<times> nat \<times> nat" and n
  obtain c i f where b: "b = (c, i, f)" by (cases b)
  show "case rb_set_filled list_buf n b of
      None \<Rightarrow> rb_init list_buf b < n
    | Some b' \<Rightarrow> n \<le> rb_init list_buf b \<and> rb_filled list_buf b' = take n (rb_filled list_buf b @ rb_unfilled list_buf b)"
  proof -
    have "list_filled (c, i, f) @ drop (length (list_filled (c, i, f))) c = c"
      by (simp add: list_filled_def) (metis append_take_drop_id drop_all length_take linorder_not_le min.absorb1 min.absorb2 order_less_imp_le)
    then show ?thesis by (auto simp: list_buf_def b) (simp add: list_filled_def min_def)
  qed
qed

text \<open>Five bytes of room of which one is initialized, and a read of two.\<close>

lemma compat_poll_read_panics:
  "compat_poll_read list_buf (\<lambda>_. Ready (Inr [7, 7])) ([0, 0, 0, 0, 0], 1, 0) = None"
  using compat_poll_read_spec [OF list_buf_ok, of "\<lambda>_. Ready (Inr [7, 7])" "([0, 0, 0, 0, 0], 1, 0)" "[7, 7]"]
  by (simp add: list_buf_def list_filled_def)

end
