(* ===== verification/Spec2Isabelle.thy ===== *)
theory Spec2Isabelle
  imports Mux_System Sos_Handshake Broker Exit_Link Exit_Policy Exit_Resources Listeners Bandwidth Client_Dialer Client_Auth Bridge Broker_Aux Gui_App Windivert Accept_Loop Shared_Limit Relay Runtime
begin

text \<open>
  Verification of geph5, a censorship circumvention system. A client reaches an exit, directly or
  over a bridge, through obfuscated pipes; it authenticates with blindly signed tokens, multiplexes
  its streams over one connection, and the exit proxies them. A broker keeps the accounts, the
  exits and bridges, and hands out tokens and routes. The release profile (Cargo.toml) checks
  overflows and aborts on panics: a computation that can panic returns an option, None.

  The theories and the parts of the program they model (paths below src/):

  \<^item> Prelude: byte strings, wire integers, I/O errors and text as std has them, and three interfaces:
    \<open>stream_codec\<close> (writer and reader of a wire format), \<open>invariant_system\<close> (step relation with an
    inductive invariant) and \<open>simulation\<close>.
  \<^item> Frame, Buffers, Stream_Tasks, Bandwidth, Mux, Mux_System (libraries/picomux): wire frames; the buffer table
    and the outgoing writer; the tasks that move data and credit of one stream; the multiplexer's
    dispatch, opening, accepting, pings and read loop; two connected ends as a step relation. Shown:
    frames round-trip in any sequence; the read loop on bytes refines dispatch on frames; which frames
    end a mux; tables stay consistent; frames leave in order; credit is conserved, windows stay in
    their bounds, and flow control does not deadlock; the bandwidth estimate of a constant speed depends
    only on the time that passed.
  \<^item> Sos_State, Sos_Pipe, Sos_Handshake (libraries/sillad-sosistab3): record layer, pipe, cookies,
    handshake, replay protection. Shown: writes arrive as written; the two sides agree on keys;
    encryption is total. Ciphers and hashes are fields of a record of functions, with named hypotheses
    where a theorem needs one.
  \<^item> Accept_Loop (the listener loops of sillad-sosistab3 and sillad-native-tls, the TLS dialer): tasks
    that negotiate side by side and a channel that hands their pipes over, as a step relation. Shown:
    an accepted handshake is refused while its record lives, whatever runs beside it; a pipe is
    handed over once, and only after its negotiation.
  \<^item> Mizaru (libraries/mizaru2): Merkle tree of epoch keys, blind signatures, verification. Shown: a
    blinded, signed and unblinded token verifies, and a proof of membership is sound up to collisions.
  \<^item> Broker_Protocol, Broker_Db, Broker (libraries/geph5-broker-protocol, binaries/geph5-broker): types
    and envelopes; tables as lists of rows with their caches; the RPC handlers and routes. Shown: tables
    stay keyed under every sequence of requests; a puzzle registers one account; tokens are signed for
    the level asked; announcements change exactly one row; free users get no route over plus bridges.
  \<^item> Exit_Link (libraries/geph5-misc-rpc, exit and client authentication), Exit_Policy (allow.rs, dns.rs,
    proxy.rs, ipv6.rs), Asn (asn.rs and the bridge's asn_count.rs), Exit_Listen (listen.rs, b2e_process.rs,
    tasklimit.rs, broker.rs). Shown: client and exit end with matching pipes; an exit contacts only
    addresses it may, which are exactly those outside a table of networks; UDP packets keep their
    boundaries; the direct listener serves exactly the countries that are not blacklisted; a round of
    the exit's upload loop registers it at the broker.
  \<^item> Exit_Resources (ratelimit.rs, the dialer and the routes of ipv6.rs, the blocklists of dns.rs), Listeners (sillad's
    tcp.rs and listener.rs, the listener of sillad-conntest). Shown: names on a filter's list are
    refused; a dial is bound to an address of the subnet before it connects; accepting retries with bounded delays; a connection is handed out once and only after its
    whole test.
  \<^item> Shared_Limit (ratelimit.rs): the copying loops of all streams of a user on one limiter, and the
    caches of limiters. Shown: together they pass at most the burst and the rate, and never panic.
  \<^item> Bridge (binaries/geph5-bridge): forwardings with their expiry, accept loop, relay, pool, announcement.
    Shown: an address that was answered forwards where it should for an hour; the layers of a client's
    dialer for the broker's route are those the exit undoes (the locale \<open>forwarding\<close> states what broker
    and client rely on, interpreted on the bridge's state); bytes are conserved under interleaving; a dial
    through the pools is refused just when no worker is connected, as the first of every pool is.
  \<^item> Dialers, Client_Dialer, Client_Auth (sillad dialers, sillad-conntest, get_dialer.rs, auth.rs,
    database.rs): outcomes of dials in time, routes as dialers, the choice of exit, the store of tokens.
    Shown: a race succeeds when its earliest route does; the exit that is returned is vouched for by
    the broker's key; tokens in the store verify.
  \<^item> Http_Proxy, Client_Conn, Client_Rpc (http_proxy, spoof_dns.rs, client_inner.rs, china, socks5.rs,
    traffcount.rs, stats.rs, taskpool.rs, litecopy.rs, broker transports, updates.rs, control_prot.rs,
    nanorpc-sillad): targets and headers of the HTTP proxy; fake addresses; direct or tunnelled; the
    queue of stream requests; statistics; JSON lines; racing transports; registration. Shown: only
    end-to-end headers pass; fake addresses lead to their names; no request for a stream is lost;
    calls are answered in order; a racing call returns within ten seconds.
  \<^item> Relay (socks5.rs, the tunnels of http_proxy/mod.rs, the exit's proxy.rs): sessions of the SOCKS5
    proxy, two copies in a race, and the chain of relays from a program to its destination. Shown:
    the destination gets a prefix of what the program sent, and the program of what it answered.
  \<^item> Client_Vpn (vpn.rs, vpn/linux.rs, lib.rs and the standard input mode of
    bin/geph5-client.rs, the exit's proxy_dns): packet queues and the tasks between them as a step
    relation, captured streams, the C interface, routing exceptions, the DNS proxy. Shown: packets keep
    their order, losses are exactly the pushes to a full queue, a captured UDP stream reaches its very
    peer and packets pass unchanged, a DNS question is answered by the exit after the user's filters.
  \<^item> Windivert (vpn/windows.rs, vpn/windows/windivert): bit fields of the driver's structures (locale
    \<open>field_store\<close>), handles, packets, socket events, and the two threads around the driver. Shown: a
    field reads what was stored and leaves the others; every packet is either let through or captured,
    once and in order.
  \<^item> Client_App (client.rs, client_inner.rs, the waiting part of database.rs, auth.rs, the rest of
    control_prot.rs, pac.rs, broker.rs): which loops run and when the client is dead, session threads,
    waiters of the store as a step relation, news, transports made of a configuration. Shown: no
    wake-up of a waiter is lost; the news handler succeeds exactly on well-typed manifests.
  \<^item> Broker_Aux (news.rs, the availability and statistics parts of the broker): the news cache with its
    background refresh as a step relation, counters. Shown: what is served
    as news was fetched and converted from the manifest.
  \<^item> Runtime (the keys of the broker's and the exit's main.rs, the exit's watchdog, rt_compat.rs). Shown:
    keys survive restarts; an exit that runs was uploaded lately, unless it never was; the adapter
    between the two runtimes passes on what was read.
  \<^item> Gui, Gui_App (binaries/geph5-client-gui): preferences with their cache (locale \<open>kv_file\<close>), persistent
    cells, values refreshed in the background, time series; the settings, the configuration made of
    them, the choice of a location, the desktop's proxy on Linux, and logging in, connecting and logging
    out as one state machine over clicks and answers. Shown: settings are what the changes made of them
    over any evictions and restarts; the configuration never asks for a location that was not offered;
    the client runs only with credentials that the broker accepted.

  This theory holds the property that spans client, broker and exit: a token in the client's store is
  admitted by an exit.

  Parameters. Cryptography, serialisation (stdcode, JSON, YAML), the public suffix list, DNS, HTTP and
  TLS libraries, random numbers, clocks, database failures and what sockets return are arguments or
  fields of environment records. What is relied on of them is a named predicate (such as \<open>ed_ok\<close>,
  \<open>keys_ok\<close>, \<open>codes_ok\<close>, \<open>syntax_ok\<close>, \<open>jrpc_ok\<close>), and each property that uses one has a witness on a
  concrete instance. f32 and f64 amounts are rationals.

  Bounds. Recursive functions are total; loops that wait for input run over the list of what arrives and
  say whether they are still waiting. Random draws are lists: \<open>random_tcp_listener\<close> returns as soon as
  one draw is free. No fuel is used.

  Not modelled: drawing, the proxy settings of macOS and Windows, logging, start-up and the reading of
  configurations, metrics endpoints, the certificate of the exit, poll functions that only forward, the
  test tools and examples (glue around code that is not in the repository); the broker's payment client
  (calls of an HTTP service). The packet driver of Windows and the TLS library are parameters. Floating
  point is modelled by exact numbers,
  with infinity and NaN where the code can reach them (Bandwidth).
\<close>

section \<open>Tokens from the broker to the exit\<close>

text \<open>
  C13: The life of a connect token, across client, broker and exit. Whatever the client refreshed
  and the broker served before, with whatever failures, a token that the client finds in its
  store for an epoch is admitted by an exit that has the broker's public keys, in every epoch
  within two of its own, as a user of its level - a Free one unless the exit rejects those.
\<close>

theorem stored_token_admitted:
  assumes "reachable token_init (token_step aenv benv auth_token) (db, st)"
    and "auth_env_ok aenv benv" and "keys_ok benv"
    and "get_conn_token_inner aenv ep db = Inr (lvl, token, sig)"
    and "le_hash lenv = mz_hash benv" and "le_khash lenv = mz_khash benv" and "le_brs lenv = mz_brs benv"
    and "to_public_key (level_sk benv lvl) = Some (case lvl of Free \<Rightarrow> exit_free_key lenv | Plus \<Rightarrow> exit_plus_key lenv)"
    and "decode_credentials lenv (credentials hello) = Some (lvl, token, sig)"
    and "broker_configured lenv" and "lvl = Free \<longrightarrow> accept_free lenv"
    and "abs_diff (unat ep) (unat now) \<le> 2"
    and "limit = (case lvl of Free \<Rightarrow> free_ratelimit lenv | Plus \<Rightarrow> plus_ratelimit lenv)" and "limit < 2 ^ 22 - 1"
  shows "exit_admit lenv now hello = Some (Inr (lvl = Free, Limited ((limit + 1) * 1024) 102400))"
proof -
  have "epoch sig = ep" "blind_verify (le_hash lenv) (le_khash lenv) (le_brs lenv)
      (case lvl of Free \<Rightarrow> exit_free_key lenv | Plus \<Rightarrow> exit_plus_key lenv) token sig = Some (Inr ())"
    using stored_token_good [OF assms(1,2,4)] assms(3,5-8) by (simp_all add: good_token_def)
  then show ?thesis
    using verified_token_admitted [of lenv lvl token sig hello now limit] assms(9-14) by simp
qed

theorem stored_token_admitted_witness:
  "\<exists>pk sig. exit_admit (example_link pk (Plus, [9, 9], sig)) 302
     \<lparr>credentials = [5], crypt_hello = SharedSecretChallenge [0]\<rparr> = Some (Inr (False, Limited 30721024 102400))"
proof -
  obtain sig st where r: "reachable token_init (token_step example_auth example_env ''tok'')
        ([conn_key 300 \<mapsto> (Plus, [9, 9], sig)], st)"
      "get_conn_token_inner example_auth 300 [conn_key 300 \<mapsto> (Plus, [9, 9], sig)] = Inr (Plus, [9, 9], sig)"
    using example_refresh by blast
  obtain pk where pk: "to_public_key (level_sk example_env Plus) = Some pk"
    using generate_tree(1) [OF example_keys_ok(1)] by (auto simp: level_sk_def example_env_def)
  have ok: "auth_env_ok example_auth example_env" by (simp add: auth_env_ok_def example_auth_def example_env_def)
  have "exit_admit (example_link pk (Plus, [9, 9], sig)) 302 \<lparr>credentials = [5], crypt_hello = SharedSecretChallenge [0]\<rparr>
      = Some (Inr (Plus = Free, Limited ((30000 + 1) * 1024) 102400))"
    by (rule stored_token_admitted [OF r(1) ok example_keys_env r(2)])
       (use pk in \<open>simp_all add: example_link_def example_env_def abs_diff_def\<close>)
  then show ?thesis by auto
qed

end
